(* ===== verification/Base.thy ===== *)
theory Base
  imports Main "HOL-Library.Word"
begin

text \<open>
  Shared vocabulary of the development.

  Kernel code either returns, panics, performs an access the hardware or the C language
  does not define (a null or out-of-range access, a division by zero), or cannot go on
  until another process acts (it sleeps on a channel, or spins on a lock that another CPU
  holds).  The type \<open>res\<close> has one constructor for each; \<open>bnd\<close> is sequential composition.
  The rest are lemmas on lists, little-endian numbers and 32-bit counters that several
  components use.
\<close>

unbundle bit_operations_syntax

type_synonym byte = "8 word"
type_synonym u32 = "32 word"

named_theorems res_iff \<open>inversion rules for computations that return\<close>
named_theorems layout_simps \<open>reading back what was written into a byte array\<close>

section \<open>Results of kernel code\<close>

text \<open>
  Sleep channels.  In the source a channel is an address; every channel the kernel
  sleeps on is the address of one of these objects.
\<close>

datatype chan =
    ProcChan nat        \<comment> \<open>\<open>&ptable.proc[i]\<close>: wait() and thread_join()\<close>
  | LogChan             \<comment> \<open>\<open>&log\<close>\<close>
  | BufLockChan nat     \<comment> \<open>the sleep-lock of \<open>bcache.buf[i]\<close>\<close>
  | BufChan nat         \<comment> \<open>\<open>&bcache.buf[i]\<close>: disk completion\<close>
  | InodeLockChan nat   \<comment> \<open>the sleep-lock of \<open>icache.inode[i]\<close>\<close>
  | PipeReadChan nat    \<comment> \<open>\<open>&p->nread\<close>\<close>
  | PipeWriteChan nat   \<comment> \<open>\<open>&p->nwrite\<close>\<close>
  | TicksChan           \<comment> \<open>\<open>&ticks\<close>\<close>
  | InputChan           \<comment> \<open>\<open>&input.r\<close>\<close>
  | XemChan nat nat     \<comment> \<open>\<open>&semaphore->arr[k]\<close> of a semaphore\<close>

datatype 'a res =
    Ok 'a
  | Panic string
  | Fault string
  | Sleeps chan
  | Spins

fun bnd :: "'a res \<Rightarrow> ('a \<Rightarrow> 'b res) \<Rightarrow> 'b res" where
  "bnd (Ok x) f = f x"
| "bnd (Panic m) f = Panic m"
| "bnd (Fault m) f = Fault m"
| "bnd (Sleeps c) f = Sleeps c"
| "bnd Spins f = Spins"

fun is_ok :: "'a res \<Rightarrow> bool" where
  "is_ok (Ok x) = True"
| "is_ok _ = False"

text \<open>A \<open>for\<close> loop over a list of indices, threading the state.\<close>

fun for_each :: "'i list \<Rightarrow> ('i \<Rightarrow> 's \<Rightarrow> 's res) \<Rightarrow> 's \<Rightarrow> 's res" where
  "for_each [] f s = Ok s"
| "for_each (i # is) f s = bnd (f i s) (for_each is f)"

text \<open>The index of the first element that satisfies a test: the usual table scan.\<close>

fun find_idx :: "('a \<Rightarrow> bool) \<Rightarrow> 'a list \<Rightarrow> nat option" where
  "find_idx P [] = None"
| "find_idx P (x # xs) = (if P x then Some 0 else map_option Suc (find_idx P xs))"

lemma bnd_eq_Ok [res_iff]: "bnd m f = Ok y \<longleftrightarrow> (\<exists>x. m = Ok x \<and> f x = Ok y)"
  by (cases m) auto

lemma bnd_cong [fundef_cong]:
  "m = m' \<Longrightarrow> (\<And>x. m' = Ok x \<Longrightarrow> f x = g x) \<Longrightarrow> bnd m f = bnd m' g"
  by (cases m') auto

lemma bnd_assoc: "bnd (bnd m f) g = bnd m (\<lambda>x. bnd (f x) g)"
  by (cases m) auto

lemma bnd_Ok_right [simp]: "bnd m Ok = m"
  by (cases m) auto

lemma is_ok_iff: "is_ok m \<longleftrightarrow> (\<exists>x. m = Ok x)"
  by (cases m) auto

lemma Let_eq_Ok [res_iff]: "(let x = v in f x) = Ok w \<longleftrightarrow> f v = Ok w"
  by simp

lemma if_eq_Ok [res_iff]:
  "(if b then m else n) = Ok x \<longleftrightarrow> (b \<and> m = Ok x) \<or> (\<not> b \<and> n = Ok x)"
  by simp

lemma for_each_append: "for_each (xs @ ys) f s = bnd (for_each xs f s) (for_each ys f)"
proof (induction xs arbitrary: s)
  case Nil
  show ?case by simp
next
  case (Cons x xs)
  have "for_each (xs @ ys) f = (\<lambda>s. bnd (for_each xs f s) (for_each ys f))"
    using Cons.IH by (rule ext)
  then show ?case by (simp add: bnd_assoc)
qed

lemma for_each_Suc: "for_each [0..<Suc n] f s = bnd (for_each [0..<n] f s) (f n)"
proof -
  have "for_each [n] f t = f n t" for t by (cases "f n t") auto
  then have "for_each [n] f = f n" by (rule ext)
  then show ?thesis by (simp add: for_each_append)
qed

text \<open>An invariant of the body is an invariant of the loop.\<close>

lemma for_each_inv:
  assumes "for_each is f s = Ok t" and "P s"
    and "\<And>i u v. i \<in> set is \<Longrightarrow> P u \<Longrightarrow> f i u = Ok v \<Longrightarrow> P v"
  shows "P t"
  using assms
proof (induction "is" arbitrary: s)
  case Nil
  then show ?case by simp
next
  case (Cons i js)
  then obtain u where u: "f i s = Ok u" "for_each js f u = Ok t"
    by (auto simp: res_iff)
  with Cons.prems have "P u" by auto
  with u Cons show ?case by auto
qed

section \<open>Table scans\<close>

lemma find_idx_Some:
  "find_idx P xs = Some i \<longleftrightarrow> i < length xs \<and> P (xs ! i) \<and> (\<forall>j<i. \<not> P (xs ! j))"
proof (induction xs arbitrary: i)
  case Nil
  then show ?case by simp
next
  case (Cons x xs)
  show ?case
  proof (cases i)
    case 0
    then show ?thesis by auto
  next
    case (Suc k)
    have "(\<forall>j<Suc k. \<not> P ((x # xs) ! j)) \<longleftrightarrow> \<not> P x \<and> (\<forall>j<k. \<not> P (xs ! j))"
      by (auto simp: nth_Cons less_Suc_eq_0_disj split: nat.splits)
    with Suc Cons.IH [of k] show ?thesis by auto
  qed
qed

lemma find_idx_None: "find_idx P xs = None \<longleftrightarrow> (\<forall>x\<in>set xs. \<not> P x)"
  by (induction xs) auto

lemma find_idx_less: "find_idx P xs = Some i \<Longrightarrow> i < length xs"
  by (simp add: find_idx_Some)

lemma find_idx_holds: "find_idx P xs = Some i \<Longrightarrow> P (xs ! i)"
  by (simp add: find_idx_Some)

lemma set_update_all:
  "i < length xs \<Longrightarrow> (\<forall>x\<in>set xs. P x) \<Longrightarrow> P y \<Longrightarrow> \<forall>x\<in>set (xs[i := y]). P x"
  by (auto dest: set_update_subset_insert [THEN subsetD])

section \<open>32-bit counters\<close>

text \<open>
  Counters and sizes of type \<open>uint\<close> that are modelled as naturals; the wrap-around of the
  machine is written out.
\<close>

definition inc32 :: "nat \<Rightarrow> nat" where
  "inc32 n = (n + 1) mod 2 ^ 32"

definition dec32 :: "nat \<Rightarrow> nat" where
  "dec32 n = (n + (2 ^ 32 - 1)) mod 2 ^ 32"

definition add32 :: "nat \<Rightarrow> nat \<Rightarrow> nat" where
  "add32 a b = (a + b) mod 2 ^ 32"

definition sub32 :: "nat \<Rightarrow> nat \<Rightarrow> nat" where
  "sub32 a b = (a + (2 ^ 32 - b mod 2 ^ 32)) mod 2 ^ 32"

lemma inc32_small: "n < 2 ^ 32 - 1 \<Longrightarrow> inc32 n = n + 1"
  by (simp add: inc32_def)

lemma dec32_pos: "0 < n \<Longrightarrow> n < 2 ^ 32 \<Longrightarrow> dec32 n = n - 1"
  by (cases n) (auto simp: dec32_def)

lemma dec32_inc32: "n < 2 ^ 32 \<Longrightarrow> dec32 (inc32 n) = n"
  by (cases "n = 2 ^ 32 - 1") (auto simp: dec32_def inc32_def)

lemma add32_small: "a + b < 2 ^ 32 \<Longrightarrow> add32 a b = a + b"
  by (simp add: add32_def)

lemma add32_less [simp]: "add32 a b < 2 ^ 32"
  by (simp add: add32_def)

lemma sub32_small: "b \<le> a \<Longrightarrow> a < 2 ^ 32 \<Longrightarrow> sub32 a b = a - b"
proof -
  assume ab: "b \<le> a" "a < 2 ^ 32"
  then obtain c where c: "a = b + c" using le_Suc_ex by blast
  with ab have "a + (2 ^ 32 - b mod 2 ^ 32) = c + 2 ^ 32"
    by simp
  then have "sub32 a b = (c + 2 ^ 32) mod 2 ^ 32"
    by (simp only: sub32_def)
  then show ?thesis
    using ab c by simp
qed

end
