(* ===== verification/Bytes.thy ===== *)
theory Bytes
  imports Base
begin

text \<open>
  Bytes in two shapes.  A disk block, an on-disk structure or a user buffer is a list of
  bytes; integers are stored in it little-endian (\<open>rd16\<close>, \<open>rd32\<close> read, \<open>le16\<close>, \<open>le32\<close>
  encode, \<open>splice\<close> is a \<open>memmove\<close> into the middle of it).  Physical memory is a function
  from 32-bit addresses to bytes; \<open>load32\<close> and \<open>store32\<close> are the processor's word
  accesses.  The lemmas say that a field reads back as it was written and that writes to
  disjoint fields do not interfere.
\<close>

section \<open>Byte arrays\<close>

definition le16 :: "nat \<Rightarrow> byte list" where
  "le16 v = [word_of_nat v, word_of_nat (v div 2 ^ 8)]"

definition le32 :: "nat \<Rightarrow> byte list" where
  "le32 v = [word_of_nat v, word_of_nat (v div 2 ^ 8), word_of_nat (v div 2 ^ 16),
             word_of_nat (v div 2 ^ 24)]"

definition rd16 :: "byte list \<Rightarrow> nat \<Rightarrow> nat" where
  "rd16 bs i = unat (bs ! i) + 2 ^ 8 * unat (bs ! (i + 1))"

definition rd32 :: "byte list \<Rightarrow> nat \<Rightarrow> nat" where
  "rd32 bs i = unat (bs ! i) + 2 ^ 8 * unat (bs ! (i + 1)) +
     2 ^ 16 * unat (bs ! (i + 2)) + 2 ^ 24 * unat (bs ! (i + 3))"

definition splice :: "'a list \<Rightarrow> nat \<Rightarrow> 'a list \<Rightarrow> 'a list" where
  "splice bs off xs = take off bs @ xs @ drop (off + length xs) bs"

definition slice :: "'a list \<Rightarrow> nat \<Rightarrow> nat \<Rightarrow> 'a list" where
  "slice bs off n = take n (drop off bs)"

lemma length_le16 [simp]: "length (le16 v) = 2"
  by (simp add: le16_def)

lemma length_le32 [simp]: "length (le32 v) = 4"
  by (simp add: le32_def)

lemma length_splice [layout_simps]:
  "off + length xs \<le> length bs \<Longrightarrow> length (splice bs off xs) = length bs"
  by (simp add: splice_def)

lemma nth_splice [layout_simps]:
  assumes "i < length bs" "off + length xs \<le> length bs"
  shows "splice bs off xs ! i =
    (if off \<le> i \<and> i < off + length xs then xs ! (i - off) else bs ! i)"
proof -
  consider "i < off" | "off \<le> i" "i < off + length xs" | "off + length xs \<le> i"
    by linarith
  then show ?thesis
  proof cases
    case 1
    with assms show ?thesis by (simp add: splice_def nth_append)
  next
    case 2
    then have "i - off < length xs" by linarith
    with 2 assms show ?thesis by (simp add: splice_def nth_append)
  next
    case 3
    then have "\<not> i - off < length xs" by linarith
    with 3 assms show ?thesis by (simp add: splice_def nth_append)
  qed
qed

lemma length_slice: "off + n \<le> length bs \<Longrightarrow> length (slice bs off n) = n"
  by (simp add: slice_def)

lemma nth_slice: "i < n \<Longrightarrow> off + n \<le> length bs \<Longrightarrow> slice bs off n ! i = bs ! (off + i)"
  by (simp add: slice_def)

lemma slice_splice_same [layout_simps]:
  "off + length xs \<le> length bs \<Longrightarrow> slice (splice bs off xs) off (length xs) = xs"
  by (simp add: slice_def splice_def)

lemma slice_splice_other [layout_simps]:
  assumes "off + length xs \<le> length bs" "j + n \<le> length bs"
    and "j + n \<le> off \<or> off + length xs \<le> j"
  shows "slice (splice bs off xs) j n = slice bs j n"
proof (rule nth_equalityI)
  show "length (slice (splice bs off xs) j n) = length (slice bs j n)"
    using assms by (simp add: slice_def length_splice)
next
  fix i assume "i < length (slice (splice bs off xs) j n)"
  then have "i < n" using assms by (simp add: slice_def length_splice)
  then show "slice (splice bs off xs) j n ! i = slice bs j n ! i"
    using assms by (auto simp: nth_slice length_splice nth_splice)
qed

lemma splice_0_full: "length xs = length bs \<Longrightarrow> splice bs 0 xs = xs"
  by (simp add: splice_def)

lemma rd32_less: "rd32 bs i < 2 ^ 32"
proof -
  have "unat (bs ! k) \<le> 255" for k
    using unsigned_less [of "bs ! k", where ?'a = nat] by simp
  from this [of i] this [of "i + 1"] this [of "i + 2"] this [of "i + 3"]
  show ?thesis unfolding rd32_def by simp
qed

lemma rd16_less: "rd16 bs i < 2 ^ 16"
proof -
  have "unat (bs ! k) \<le> 255" for k
    using unsigned_less [of "bs ! k", where ?'a = nat] by simp
  from this [of i] this [of "i + 1"] show ?thesis unfolding rd16_def by simp
qed

lemma split4: "(v::nat) mod 256 + 256 * (v div 256 mod 256) + 65536 * (v div 65536 mod 256) +
    16777216 * (v div 16777216 mod 256) = v mod 4294967296"
proof -
  have "v mod 4294967296 = v mod 65536 + 65536 * (v div 65536 mod 65536)"
    using mod_mult2_eq [of v 65536 65536] by simp
  moreover have "v mod 65536 = v mod 256 + 256 * (v div 256 mod 256)"
    using mod_mult2_eq [of v 256 256] by simp
  moreover have "v div 65536 mod 65536 = v div 65536 mod 256 + 256 * (v div 65536 div 256 mod 256)"
    using mod_mult2_eq [of "v div 65536" 256 256] by simp
  ultimately show ?thesis by (simp add: div_mult2_eq [symmetric])
qed

lemma rd32_le32: "rd32 (le32 v) 0 = v mod 2 ^ 32"
  using split4 [of v] by (simp add: rd32_def le32_def unat_of_nat)

lemma rd16_le16: "rd16 (le16 v) 0 = v mod 2 ^ 16"
proof -
  have "v mod 65536 = v mod 256 + 256 * (v div 256 mod 256)"
    using mod_mult2_eq [of v 256 256] by simp
  then show ?thesis by (simp add: rd16_def le16_def unat_of_nat)
qed

lemma rd32_nth: "off + 4 \<le> length bs \<Longrightarrow> rd32 (slice bs off 4) 0 = rd32 bs off"
  by (simp add: rd32_def nth_slice)

lemma rd16_nth: "off + 2 \<le> length bs \<Longrightarrow> rd16 (slice bs off 2) 0 = rd16 bs off"
  by (simp add: rd16_def nth_slice)

lemma rd32_splice_same [layout_simps]:
  "off + 4 \<le> length bs \<Longrightarrow> rd32 (splice bs off (le32 v)) off = v mod 2 ^ 32"
  using rd32_le32 [of v] by (simp add: rd32_def nth_splice numeral_2_eq_2)

lemma rd16_splice_same [layout_simps]:
  "off + 2 \<le> length bs \<Longrightarrow> rd16 (splice bs off (le16 v)) off = v mod 2 ^ 16"
  using rd16_le16 [of v] by (simp add: rd16_def nth_splice)

lemma rd32_splice_other [layout_simps]:
  "off + length xs \<le> length bs \<Longrightarrow> j + 4 \<le> length bs \<Longrightarrow>
   j + 4 \<le> off \<or> off + length xs \<le> j \<Longrightarrow> rd32 (splice bs off xs) j = rd32 bs j"
  by (auto simp: rd32_def nth_splice)

lemma rd16_splice_other [layout_simps]:
  "off + length xs \<le> length bs \<Longrightarrow> j + 2 \<le> length bs \<Longrightarrow>
   j + 2 \<le> off \<or> off + length xs \<le> j \<Longrightarrow> rd16 (splice bs off xs) j = rd16 bs j"
  by (auto simp: rd16_def nth_splice)

lemma rd32_splice_inside [layout_simps]:
  "off + length xs \<le> length bs \<Longrightarrow> off \<le> j \<Longrightarrow> j + 4 \<le> off + length xs \<Longrightarrow>
   rd32 (splice bs off xs) j = rd32 xs (j - off)"
  by (auto simp: rd32_def nth_splice Suc_diff_le)

lemma rd16_splice_inside [layout_simps]:
  "off + length xs \<le> length bs \<Longrightarrow> off \<le> j \<Longrightarrow> j + 2 \<le> off + length xs \<Longrightarrow>
   rd16 (splice bs off xs) j = rd16 xs (j - off)"
  by (auto simp: rd16_def nth_splice Suc_diff_le)

lemma rd_slice:
  "off + n \<le> length bs \<Longrightarrow> j + 2 \<le> n \<Longrightarrow> rd16 (slice bs off n) j = rd16 bs (off + j)"
  "off + n \<le> length bs \<Longrightarrow> j + 4 \<le> n \<Longrightarrow> rd32 (slice bs off n) j = rd32 bs (off + j)"
  by (simp_all add: rd16_def rd32_def nth_slice add.assoc)

text \<open>Fields of a concatenation.\<close>

lemma rd32_append [layout_simps]:
  "length xs \<le> j \<Longrightarrow> rd32 (xs @ ys) j = rd32 ys (j - length xs)"
  "j + 4 \<le> length xs \<Longrightarrow> rd32 (xs @ ys) j = rd32 xs j"
  by (auto simp: rd32_def nth_append Suc_diff_le)

lemma rd16_append [layout_simps]:
  "length xs \<le> j \<Longrightarrow> rd16 (xs @ ys) j = rd16 ys (j - length xs)"
  "j + 2 \<le> length xs \<Longrightarrow> rd16 (xs @ ys) j = rd16 xs j"
  by (auto simp: rd16_def nth_append Suc_diff_le)

lemma rd32_concat:
  "k < length vs \<Longrightarrow> rd32 (concat (map le32 vs)) (4 * k) = vs ! k mod 2 ^ 32"
proof (induction vs arbitrary: k)
  case (Cons v vs)
  have "rd32 (le32 v @ xs) 0 = v mod 2 ^ 32" for xs using rd32_append(2) [of 0 "le32 v" xs] rd32_le32 [of v] by simp
  with Cons show ?case by (cases k) (simp_all add: rd32_append)
qed simp

lemma length_concat_le32 [simp]: "length (concat (map le32 vs)) = 4 * length vs"
  by (induction vs) simp_all

section \<open>Physical memory\<close>

type_synonym mem = "u32 \<Rightarrow> byte"

definition load32 :: "mem \<Rightarrow> u32 \<Rightarrow> u32" where
  "load32 m a = ucast (m a) OR push_bit 8 (ucast (m (a + 1))) OR
     push_bit 16 (ucast (m (a + 2))) OR push_bit 24 (ucast (m (a + 3)))"

definition store32 :: "mem \<Rightarrow> u32 \<Rightarrow> u32 \<Rightarrow> mem" where
  "store32 m a v = m(a := ucast v, a + 1 := ucast (drop_bit 8 v),
     a + 2 := ucast (drop_bit 16 v), a + 3 := ucast (drop_bit 24 v))"

text \<open>The bytes at consecutive addresses, and storing a list of bytes there.\<close>

definition mem_bytes :: "mem \<Rightarrow> u32 \<Rightarrow> nat \<Rightarrow> byte list" where
  "mem_bytes m a n = map (\<lambda>i. m (a + word_of_nat i)) [0..<n]"

fun mem_store :: "mem \<Rightarrow> u32 \<Rightarrow> byte list \<Rightarrow> mem" where
  "mem_store m a [] = m"
| "mem_store m a (b # bs) = mem_store (m(a := b)) (a + 1) bs"

lemma join_bytes:
  "ucast (ucast v :: byte) OR push_bit 8 (ucast (ucast (drop_bit 8 v) :: byte)) OR
   push_bit 16 (ucast (ucast (drop_bit 16 v) :: byte)) OR
   push_bit 24 (ucast (ucast (drop_bit 24 v) :: byte)) = (v :: u32)"
proof (rule bit_word_eqI)
  fix n assume "n < LENGTH(32)"
  then consider "n < 8" | "8 \<le> n" "n < 16" | "16 \<le> n" "n < 24" | "24 \<le> n" "n < 32"
    by fastforce
  then show "bit (ucast (ucast v :: byte) OR push_bit 8 (ucast (ucast (drop_bit 8 v) :: byte)) OR
      push_bit 16 (ucast (ucast (drop_bit 16 v) :: byte)) OR
      push_bit 24 (ucast (ucast (drop_bit 24 v) :: byte)) :: u32) n = bit v n"
    by cases (auto simp: bit_simps)
qed

lemma load32_store32_same [layout_simps, simp]: "load32 (store32 m a v) a = v"
proof -
  have "a + 1 \<noteq> a" "a + 2 \<noteq> a" "a + 3 \<noteq> a" "a + 1 \<noteq> a + 2" "a + 1 \<noteq> a + 3" "a + 2 \<noteq> a + 3"
    by simp_all
  then show ?thesis by (simp add: load32_def store32_def join_bytes)
qed

end
