(* ===== verification/Strings.thy ===== *)
theory Strings
  imports Bytes
begin

text \<open>
  \<^verbatim>\<open>string.c\<close>: the kernel's memory and string routines, on byte-addressed memory with
  32-bit addresses.  Pointers are addresses and wrap around at the top of the address
  space as the machine's do; an \<open>int\<close> count is a mathematical integer.  The routines are
  compared with a pointwise description of the memory they leave: \<open>memset\<close>'s word-at-a-time
  path agrees with its byte path, \<open>memmove\<close> copies correctly when the two areas overlap,
  \<open>safestrcpy\<close> always terminates its result.
\<close>

section \<open>The x86 string instructions and memset\<close>

text \<open>\<open>rep stosb\<close> and \<open>rep stosl\<close> (\<^verbatim>\<open>x86.h\<close>) with the direction flag clear.\<close>

fun stosb :: "mem \<Rightarrow> u32 \<Rightarrow> byte \<Rightarrow> nat \<Rightarrow> mem" where
  "stosb m addr data 0 = m"
| "stosb m addr data (Suc cnt) = stosb (m(addr := data)) (addr + 1) data cnt"

fun stosl :: "mem \<Rightarrow> u32 \<Rightarrow> u32 \<Rightarrow> nat \<Rightarrow> mem" where
  "stosl m addr data 0 = m"
| "stosl m addr data (Suc cnt) = stosl (store32 m addr data) (addr + 4) data cnt"

definition memset :: "mem \<Rightarrow> u32 \<Rightarrow> u32 \<Rightarrow> u32 \<Rightarrow> mem" where
  "memset m dst c n =
     (if dst mod 4 = 0 \<and> n mod 4 = 0
      then let c = c AND 0xFF
           in stosl m dst (push_bit 24 c OR push_bit 16 c OR push_bit 8 c OR c) (unat (n div 4))
      else stosb m dst (ucast c) (unat n))"

section \<open>memcmp and memmove\<close>

fun memcmp_loop :: "mem \<Rightarrow> u32 \<Rightarrow> u32 \<Rightarrow> nat \<Rightarrow> int" where
  "memcmp_loop m s1 s2 0 = 0"
| "memcmp_loop m s1 s2 (Suc n) =
     (if m s1 \<noteq> m s2 then uint (m s1) - uint (m s2)
      else memcmp_loop m (s1 + 1) (s2 + 1) n)"

definition memcmp :: "mem \<Rightarrow> u32 \<Rightarrow> u32 \<Rightarrow> u32 \<Rightarrow> int" where
  "memcmp m v1 v2 n = memcmp_loop m v1 v2 (unat n)"

fun copy_up :: "mem \<Rightarrow> u32 \<Rightarrow> u32 \<Rightarrow> nat \<Rightarrow> mem" where
  "copy_up m d s 0 = m"
| "copy_up m d s (Suc n) = copy_up (m(d := m s)) (d + 1) (s + 1) n"

fun copy_down :: "mem \<Rightarrow> u32 \<Rightarrow> u32 \<Rightarrow> nat \<Rightarrow> mem" where
  "copy_down m d s 0 = m"
| "copy_down m d s (Suc n) = copy_down (m(d - 1 := m (s - 1))) (d - 1) (s - 1) n"

definition memmove :: "mem \<Rightarrow> u32 \<Rightarrow> u32 \<Rightarrow> u32 \<Rightarrow> mem" where
  "memmove m dst src n =
     (if src < dst \<and> src + n > dst
      then copy_down m (dst + n) (src + n) (unat n)
      else copy_up m dst src (unat n))"

definition memcpy :: "mem \<Rightarrow> u32 \<Rightarrow> u32 \<Rightarrow> u32 \<Rightarrow> mem" where
  "memcpy m dst src n = memmove m dst src n"

section \<open>NUL-terminated strings\<close>

fun strncmp_loop :: "mem \<Rightarrow> u32 \<Rightarrow> u32 \<Rightarrow> nat \<Rightarrow> int" where
  "strncmp_loop m p q 0 = 0"
| "strncmp_loop m p q (Suc n) =
     (if m p \<noteq> 0 \<and> m p = m q then strncmp_loop m (p + 1) (q + 1) n
      else uint (m p) - uint (m q))"

definition strncmp :: "mem \<Rightarrow> u32 \<Rightarrow> u32 \<Rightarrow> u32 \<Rightarrow> int" where
  "strncmp m p q n = strncmp_loop m p q (unat n)"

text \<open>\<open>strncpy\<close>: the copying loop hands the count that is left to the padding loop.\<close>

fun strncpy_pad :: "mem \<Rightarrow> u32 \<Rightarrow> nat \<Rightarrow> mem" where
  "strncpy_pad m s 0 = m"
| "strncpy_pad m s (Suc n) = strncpy_pad (m(s := 0)) (s + 1) n"

fun strncpy_copy :: "mem \<Rightarrow> u32 \<Rightarrow> u32 \<Rightarrow> nat \<Rightarrow> mem" where
  "strncpy_copy m s t 0 = m"
| "strncpy_copy m s t (Suc n) =
     (let m' = m(s := m t)
      in if m t \<noteq> 0 then strncpy_copy m' (s + 1) (t + 1) n
         else strncpy_pad m' (s + 1) n)"

definition strncpy :: "mem \<Rightarrow> u32 \<Rightarrow> u32 \<Rightarrow> int \<Rightarrow> mem" where
  "strncpy m s t n = strncpy_copy m s t (nat n)"

fun safestrcpy_loop :: "mem \<Rightarrow> u32 \<Rightarrow> u32 \<Rightarrow> nat \<Rightarrow> mem \<times> u32" where
  "safestrcpy_loop m s t 0 = (m, s)"
| "safestrcpy_loop m s t (Suc n) =
     (let m' = m(s := m t)
      in if m t \<noteq> 0 then safestrcpy_loop m' (s + 1) (t + 1) n else (m', s + 1))"

definition safestrcpy :: "mem \<Rightarrow> u32 \<Rightarrow> u32 \<Rightarrow> int \<Rightarrow> mem" where
  "safestrcpy m s t n =
     (if n \<le> 0 then m
      else case safestrcpy_loop m s t (nat (n - 1)) of (m', s') \<Rightarrow> m'(s' := 0))"

text \<open>
  \<open>strlen\<close> does not return when no byte from its argument on is zero, so it is a partial
  function; \<open>None\<close> is not returning.
\<close>

partial_function (option) strlen_from :: "mem \<Rightarrow> u32 \<Rightarrow> nat \<Rightarrow> nat option" where
  "strlen_from m s n =
     (if m (s + word_of_nat n) = 0 then Some n else strlen_from m s (Suc n))"

definition strlen :: "mem \<Rightarrow> u32 \<Rightarrow> nat option" where
  "strlen m s = strlen_from m s 0"

section \<open>What the copying and filling loops leave in memory\<close>

lemma unat_minus_1: "(y::u32) \<noteq> 0 \<Longrightarrow> unat (y - 1) = unat y - 1"
  by (simp add: unat_minus_one)

text \<open>Membership in an area of \<open>Suc n\<close> bytes: its first byte, or one of the rest.\<close>

lemma area_Suc:
  "Suc n \<le> 2 ^ 32 \<Longrightarrow>
   unat (x - a) < Suc n \<longleftrightarrow> x = a \<or> (x \<noteq> a \<and> unat (x - (a + 1)) < n)"
  for a x :: u32
proof (cases "x = a")
  case False
  assume "Suc n \<le> 2 ^ 32"
  from False have ne: "x - a \<noteq> 0" by simp
  then have "0 < unat (x - a)" by (simp only: unat_gt_0 not_False_eq_True)
  moreover have "unat (x - (a + 1)) = unat (x - a) - 1"
    unfolding diff_diff_eq [symmetric] using ne by (rule unat_minus_1)
  ultimately show ?thesis using False by linarith
qed simp

lemma stosb_apply:
  "n \<le> 2 ^ 32 \<Longrightarrow> stosb m a d n x = (if unat (x - a) < n then d else m x)"
proof (induction n arbitrary: m a)
  case 0
  show ?case by simp
next
  case (Suc n)
  then have "stosb m a d (Suc n) x =
      (if unat (x - (a + 1)) < n then d else (m(a := d)) x)"
    by simp
  with Suc.prems area_Suc [of n x a] show ?case by auto
qed

text \<open>A word whose four bytes are equal is stored by four byte stores.\<close>

lemma rep_bytes:
  fixes c :: u32
  defines "w \<equiv> push_bit 24 (c AND 0xFF) OR push_bit 16 (c AND 0xFF) OR
    push_bit 8 (c AND 0xFF) OR (c AND 0xFF)"
  shows "(ucast w :: byte) = ucast c" "(ucast (drop_bit 8 w) :: byte) = ucast c"
    "(ucast (drop_bit 16 w) :: byte) = ucast c" "(ucast (drop_bit 24 w) :: byte) = ucast c"
proof -
  have "(0xFF :: u32) = mask 8" by (simp add: mask_eq_exp_minus_1)
  note w = w_def [unfolded this]
  show "(ucast w :: byte) = ucast c" "(ucast (drop_bit 8 w) :: byte) = ucast c"
    "(ucast (drop_bit 16 w) :: byte) = ucast c" "(ucast (drop_bit 24 w) :: byte) = ucast c"
    unfolding w by (rule bit_word_eqI, auto simp: bit_simps)+
qed

lemma stosb_4: "stosb m a b (4 * Suc n) =
    stosb (m(a := b, a + 1 := b, a + 2 := b, a + 3 := b)) (a + 4) b (4 * n)"
proof -
  have "4 * Suc n = Suc (Suc (Suc (Suc (4 * n))))" by simp
  then show ?thesis by (simp only: stosb.simps) (simp add: add.assoc)
qed

lemma stosl_rep:
  fixes c :: u32
  assumes "v = push_bit 24 (c AND 0xFF) OR push_bit 16 (c AND 0xFF) OR
    push_bit 8 (c AND 0xFF) OR (c AND 0xFF)"
  shows "stosl m a v n = stosb m a (ucast c) (4 * n)"
proof (induction n arbitrary: m a)
  case 0
  show ?case by simp
next
  case (Suc n)
  have "store32 m a v = m(a := ucast c, a + 1 := ucast c, a + 2 := ucast c, a + 3 := ucast c)"
    unfolding store32_def assms by (simp only: rep_bytes)
  then have "stosl m a v (Suc n) = stosb (m(a := ucast c, a + 1 := ucast c,
      a + 2 := ucast c, a + 3 := ucast c)) (a + 4) (ucast c) (4 * n)"
    using Suc.IH by (simp only: stosl.simps)
  then show ?case by (simp only: stosb_4)
qed

lemma copy_up_apply:
  assumes "n \<le> 2 ^ 32" "d = s \<or> n \<le> unat (d - s)"
  shows "copy_up m d s n x = (if unat (x - d) < n then m (s + (x - d)) else m x)"
  using assms
proof (induction n arbitrary: m d s)
  case 0
  show ?case by simp
next
  case (Suc n)
  define m' where "m' = m(d := m s)"
  have "copy_up m d s (Suc n) x = copy_up m' (d + 1) (s + 1) n x"
    by (simp add: m'_def)
  also have "\<dots> = (if unat (x - (d + 1)) < n then m' (s + 1 + (x - (d + 1))) else m' x)"
    using Suc.prems by (intro Suc.IH) auto
  also have "s + 1 + (x - (d + 1)) = s + (x - d)" by simp
  finally have step: "copy_up m d s (Suc n) x =
      (if unat (x - (d + 1)) < n then m' (s + (x - d)) else m' x)" .
  have "s + (x - d) \<noteq> d" if "x \<noteq> d" "unat (x - (d + 1)) < n" "d \<noteq> s"
  proof
    assume "s + (x - d) = d"
    then have "x - d = d - s" by (simp add: algebra_simps)
    moreover have "unat (x - d) < Suc n"
      using that Suc.prems area_Suc [of n x d] by blast
    ultimately show False using that Suc.prems by simp
  qed
  with step area_Suc [of n x d] Suc.prems(1) show ?case
    by (cases "d = s") (auto simp: m'_def)
qed

lemma copy_down_apply:
  assumes "n \<le> 2 ^ 32" "d = s \<or> n \<le> unat (s - d)"
  shows "copy_down m d s n x =
    (if unat (d - 1 - x) < n then m (s - 1 - (d - 1 - x)) else m x)"
  using assms
proof (induction n arbitrary: m d s)
  case 0
  show ?case by simp
next
  case (Suc n)
  define m' where "m' = m(d - 1 := m (s - 1))"
  have eq: "d - 1 - (x + 1) = d - 1 - 1 - x" by (simp add: algebra_simps)
  have area: "unat (d - 1 - x) < Suc n \<longleftrightarrow> x = d - 1 \<or> (x \<noteq> d - 1 \<and> unat (d - 1 - 1 - x) < n)"
    using area_Suc [of n "d - 1" x] Suc.prems(1) unfolding eq by blast
  have "copy_down m d s (Suc n) x = copy_down m' (d - 1) (s - 1) n x"
    by (simp add: m'_def)
  also have "\<dots> = (if unat (d - 1 - 1 - x) < n then m' (s - 1 - 1 - (d - 1 - 1 - x)) else m' x)"
    using Suc.prems by (intro Suc.IH) auto
  also have "s - 1 - 1 - (d - 1 - 1 - x) = s - 1 - (d - 1 - x)" by simp
  finally have step: "copy_down m d s (Suc n) x =
      (if unat (d - 1 - 1 - x) < n then m' (s - 1 - (d - 1 - x)) else m' x)" .
  have "s - 1 - (d - 1 - x) \<noteq> d - 1"
    if "x \<noteq> d - 1" "unat (d - 1 - 1 - x) < n" "d \<noteq> s"
  proof
    assume eq: "s - 1 - (d - 1 - x) = d - 1"
    have "d - 1 - x = s - 1 - (s - 1 - (d - 1 - x))" by simp
    also have "\<dots> = s - d" unfolding eq by simp
    finally have "unat (d - 1 - x) = unat (s - d)" by (rule arg_cong)
    moreover have "unat (d - 1 - x) < Suc n" using that area by blast
    moreover have "Suc n \<le> unat (s - d)" using that(3) Suc.prems(2) by blast
    ultimately show False by linarith
  qed
  with step area Suc.prems(1) show ?case
    by (cases "d = s") (auto simp: m'_def)
qed

lemma mirror: "n - 1 - y < n \<longleftrightarrow> y < n" for n y :: u32
  by unat_arith

lemma memset_apply:
  "memset m dst c n x = (if x - dst < n then ucast c else m x)"
proof -
  have lt: "x - dst < n \<longleftrightarrow> unat (x - dst) < unat n"
    by (simp add: word_less_nat_alt)
  have le: "unat n \<le> 2 ^ 32"
    using unsigned_less [of n, where ?'a = nat] by simp
  show ?thesis
  proof (cases "dst mod 4 = 0 \<and> n mod 4 = 0")
    case True
    then have "4 * unat (n div 4) = unat n"
      using unat_mod_distrib [of n 4] by (simp add: unat_div_distrib mult_div_mod_eq)
        (metis True add.right_neutral mult_div_mod_eq unat_mod_distrib unsigned_0 unsigned_numeral)
    with True have "memset m dst c n = stosb m dst (ucast c) (unat n)"
      by (simp only: memset_def Let_def if_True stosl_rep [OF refl] simp_thms)
    then show ?thesis by (simp only: stosb_apply le lt)
  next
    case False
    then show ?thesis
      by (simp only: memset_def if_False stosb_apply le lt)
  qed
qed

text \<open>
  \<open>memset\<close> fills exactly the \<open>n\<close> bytes at \<open>dst\<close> with the low byte of \<open>c\<close>, whichever
  of its two paths (words or bytes) it takes.
\<close>

lemma memset_fills:
  "memset m dst c n x = (if x - dst < n then ucast c else m x)"
  by (rule memset_apply)

text \<open>
  \<open>memmove\<close> leaves the \<open>n\<close> bytes that were at \<open>src\<close> at \<open>dst\<close> and changes nothing
  else, also when the two areas overlap, provided neither area runs past the top of the
  address space.
\<close>

lemma memmove_copies:
  assumes "unat src + unat n < 2 ^ 32" and "unat dst + unat n \<le> 2 ^ 32"
  shows "memmove m dst src n x = (if x - dst < n then m (src + (x - dst)) else m x)"
proof -
  have le: "unat n \<le> 2 ^ 32" and lt: "x - dst < n \<longleftrightarrow> unat (x - dst) < unat n"
    using unsigned_less [of n, where ?'a = nat] by (simp_all add: word_less_nat_alt)
  have sn: "unat (src + n) = unat src + unat n"
    using assms(1) by (simp add: unat_word_ariths)
  show ?thesis
  proof (cases "src < dst \<and> src + n > dst")
    case True
    then have "unat (src - dst) = 2 ^ 32 - (unat dst - unat src)"
      by (auto simp: word_less_nat_alt unat_sub_if_size word_size)
    then have "unat n \<le> unat (src + n - (dst + n))"
      using assms(2) by simp
    then have "copy_down m (dst + n) (src + n) (unat n) x =
        (if unat (dst + n - 1 - x) < unat n then m (src + n - 1 - (dst + n - 1 - x)) else m x)"
      using le by (intro copy_down_apply) auto
    moreover have "src + n - 1 - (dst + n - 1 - x) = src + (x - dst)" by simp
    moreover have "dst + n - 1 - x = n - 1 - (x - dst)" by simp
    ultimately show ?thesis
      using True mirror [of n "x - dst"] by (simp add: memmove_def word_less_nat_alt)
  next
    case False
    have "dst = src \<or> unat n \<le> unat (dst - src)"
      using False sn assms
      by (auto simp: word_less_nat_alt unat_sub_if_size word_size word_unat_eq_iff)
    then have "copy_up m dst src (unat n) x =
        (if unat (x - dst) < unat n then m (src + (x - dst)) else m x)"
      using le by (intro copy_up_apply) auto
    with False lt show ?thesis by (auto simp: memmove_def)
  qed
qed

lemma memmove_copies_witness:
  "unat (1::u32) + unat (4::u32) < 2 ^ 32 \<and> unat (3::u32) + unat (4::u32) \<le> 2 ^ 32 \<and>
   memmove (\<lambda>a. ucast a) 3 1 4 5 = 3 \<and> memmove (\<lambda>a. ucast a) 3 1 4 7 = 7"
  using memmove_copies [of 1 4 3 "\<lambda>a. ucast a" 5] memmove_copies [of 1 4 3 "\<lambda>a. ucast a" 7]
  by simp

section \<open>Strings\<close>

text \<open>\<open>c_string m t len\<close>: a NUL-terminated string of \<open>len\<close> bytes is at \<open>t\<close>.\<close>

definition c_string :: "mem \<Rightarrow> u32 \<Rightarrow> nat \<Rightarrow> bool" where
  "c_string m t len \<longleftrightarrow>
     m (t + word_of_nat len) = 0 \<and> (\<forall>i<len. m (t + word_of_nat i) \<noteq> 0)"

lemma strlen_from_step:
  "m (s + word_of_nat n) \<noteq> 0 \<Longrightarrow> strlen_from m s n = strlen_from m s (Suc n)"
  by (subst strlen_from.simps) simp

lemma strlen_c_string:
  assumes "c_string m s len"
  shows "strlen m s = Some len"
proof -
  have "strlen_from m s (len - k) = Some len" if "k \<le> len" for k
    using that
  proof (induction k)
    case 0
    then show ?case using assms by (subst strlen_from.simps) (simp add: c_string_def)
  next
    case (Suc k)
    then have "m (s + word_of_nat (len - Suc k)) \<noteq> 0"
      using assms unfolding c_string_def by (auto simp del: of_nat_diff)
    then have "strlen_from m s (len - Suc k) = strlen_from m s (Suc (len - Suc k))"
      by (rule strlen_from_step)
    with Suc show ?case by (simp add: Suc_diff_Suc)
  qed
  from this [of len] show ?thesis by (simp add: strlen_def)
qed

lemma strncmp_loop_eq_0:
  "strncmp_loop m p q n = 0 \<longleftrightarrow>
     (\<forall>i<n. (\<forall>j<i. m (p + word_of_nat j) \<noteq> 0) \<longrightarrow> m (p + word_of_nat i) = m (q + word_of_nat i))"
  (is "_ \<longleftrightarrow> ?R m p q n")
proof (induction n arbitrary: p q)
  case 0
  show ?case by simp
next
  case (Suc n)
  have shift: "a + word_of_nat (Suc i) = a + 1 + word_of_nat i" for a :: u32 and i
    by (simp add: add.assoc)
  have "?R m p q (Suc n) \<longleftrightarrow> m p = m q \<and> (m p \<noteq> 0 \<longrightarrow> ?R m (p + 1) (q + 1) n)"
    unfolding All_less_Suc2 by (auto simp: shift simp del: of_nat_Suc)
  with Suc.IH show ?case by (auto simp: word_uint_eq_iff)
qed

text \<open>The copying loop of \<open>safestrcpy\<close>, given that source and destination do not overlap.\<close>

lemma word_of_nat_Suc_add: "a + word_of_nat (Suc i) = a + 1 + word_of_nat i" for a :: u32
  by (simp add: add.assoc)

lemma add_word_of_nat_ne: "0 < i \<Longrightarrow> i < 2 ^ 32 \<Longrightarrow> a + word_of_nat i \<noteq> a" for a :: u32
  by (auto simp: word_of_nat_eq_0_iff dest: nat_dvd_not_less)

lemma add_word_of_nat_inj:
  "i < 2 ^ 32 \<Longrightarrow> j < 2 ^ 32 \<Longrightarrow> a + word_of_nat i = a + word_of_nat j \<longleftrightarrow> i = j" for a :: u32
  by (simp add: word_unat_eq_iff [of "word_of_nat i"] unat_of_nat)

lemma safestrcpy_loop_result:
  assumes "c_string m t len" and "k \<le> 2 ^ 31"
    and "\<forall>i\<le>k. \<forall>j\<le>len. s + word_of_nat i \<noteq> t + word_of_nat j"
  shows "case safestrcpy_loop m s t k of (m', e) \<Rightarrow>
     e = s + word_of_nat (min (Suc len) k) \<and>
     (\<forall>i<min (Suc len) k. m' (s + word_of_nat i) = m (t + word_of_nat i)) \<and>
     (\<forall>x. (\<forall>i<k. x \<noteq> s + word_of_nat i) \<longrightarrow> m' x = m x)"
  using assms
proof (induction k arbitrary: m s t len)
  case 0
  then show ?case by simp
next
  case (Suc k)
  define m1 where "m1 = m(s := m t)"
  show ?case
  proof (cases "m t = 0")
    case True
    with Suc.prems(1) have "len = 0"
      by (cases len) (auto simp: c_string_def)
    with True show ?thesis by (auto simp: m1_def)
  next
    case False
    with Suc.prems(1) obtain l where len: "len = Suc l"
      by (cases len) (auto simp: c_string_def)
    have src: "m1 (t + 1 + word_of_nat j) = m (t + 1 + word_of_nat j)" if "j \<le> l" for j
      using that Suc.prems(3) [rule_format, of 0 "Suc j"] len
      by (auto simp: m1_def add.assoc)
    have str: "c_string m1 (t + 1) l"
      using Suc.prems(1) src unfolding c_string_def len All_less_Suc2 word_of_nat_Suc_add by simp
    have disj: "\<forall>i\<le>k. \<forall>j\<le>l. s + 1 + word_of_nat i \<noteq> t + 1 + word_of_nat j"
      using Suc.prems(3) len unfolding word_of_nat_Suc_add [symmetric] by auto
    obtain m' e where loop: "safestrcpy_loop m1 (s + 1) (t + 1) k = (m', e)"
      by (cases "safestrcpy_loop m1 (s + 1) (t + 1) k")
    have IH: "e = s + 1 + word_of_nat (min (Suc l) k)"
      "\<forall>i<min (Suc l) k. m' (s + 1 + word_of_nat i) = m1 (t + 1 + word_of_nat i)"
      "\<forall>x. (\<forall>i<k. x \<noteq> s + 1 + word_of_nat i) \<longrightarrow> m' x = m1 x"
      using Suc.IH [OF str _ disj] Suc.prems(2) loop by auto
    have "s \<noteq> s + 1 + word_of_nat i" if "i < k" for i
      using add_word_of_nat_ne [of "Suc i" s] that Suc.prems(2) word_of_nat_Suc_add [of s i] by auto
    with IH(3) have first: "m' s = m t" by (auto simp: m1_def)
    have "m' (s + word_of_nat i) = m (t + word_of_nat i)" if i: "i < min (Suc len) (Suc k)" for i
    proof (cases i)
      case 0
      with first show ?thesis by simp
    next
      case (Suc i')
      with i len have "i' < min (Suc l) k" "i' \<le> l" by auto
      with IH(2) src [of i'] show ?thesis unfolding Suc word_of_nat_Suc_add by simp
    qed
    moreover have "m' x = m x" if "\<forall>i<Suc k. x \<noteq> s + word_of_nat i" for x
      using that IH(3) unfolding All_less_Suc2 word_of_nat_Suc_add by (auto simp: m1_def)
    moreover have "e = s + word_of_nat (min (Suc len) (Suc k))"
      unfolding IH(1) len min_Suc_Suc word_of_nat_Suc_add ..
    ultimately show ?thesis
      using False loop by (simp add: m1_def [symmetric])
  qed
qed

text \<open>
  For a terminated source string of \<open>len\<close> bytes that the destination does not overlap,
  \<open>safestrcpy\<close> with \<open>n > 0\<close> copies as much of the string as fits, terminates it inside the
  \<open>n\<close> bytes, and writes nothing outside them.
\<close>

lemma safestrcpy_terminates_result:
  assumes "0 < n" "n \<le> 2 ^ 31" and "c_string m t len"
    and "\<forall>i<nat n. \<forall>j\<le>len. s + word_of_nat i \<noteq> t + word_of_nat j"
  shows "c_string (safestrcpy m s t n) s (min len (nat n - 1)) \<and>
    (\<forall>i<min len (nat n - 1). safestrcpy m s t n (s + word_of_nat i) = m (t + word_of_nat i)) \<and>
    (\<forall>x. (\<forall>i<nat n. x \<noteq> s + word_of_nat i) \<longrightarrow> safestrcpy m s t n x = m x)"
proof -
  define k where "k = nat n - 1"
  obtain m' e where loop: "safestrcpy_loop m s t k = (m', e)"
    by (cases "safestrcpy_loop m s t k")
  have n: "nat n = Suc k" "nat (n - 1) = k" "k \<le> 2 ^ 31 - 1"
    using assms(1,2) by (auto simp: k_def)
  have disj: "\<forall>i\<le>k. \<forall>j\<le>len. s + word_of_nat i \<noteq> t + word_of_nat j"
    using assms(4) n(1) by auto
  have L: "e = s + word_of_nat (min (Suc len) k)"
    "\<forall>i<min (Suc len) k. m' (s + word_of_nat i) = m (t + word_of_nat i)"
    "\<forall>x. (\<forall>i<k. x \<noteq> s + word_of_nat i) \<longrightarrow> m' x = m x"
    using safestrcpy_loop_result [OF assms(3) _ disj] loop n(3) by auto
  have res: "safestrcpy m s t n = m'(e := 0)"
    using assms(1) loop n(2) by (simp add: safestrcpy_def)
  have inj: "s + word_of_nat i = e \<longleftrightarrow> i = min (Suc len) k" if "i \<le> k" for i
    unfolding L(1) using that n(3) by (intro add_word_of_nat_inj) auto
  have copied: "(m'(e := 0)) (s + word_of_nat i) = m (t + word_of_nat i)" if "i < min len k" for i
    using that L(2) inj [of i] by auto
  moreover have "(m'(e := 0)) (s + word_of_nat (min len k)) = 0"
    using L(2) inj [of "min len k"] assms(3) by (cases "len < k") (auto simp: c_string_def)
  moreover have "(m'(e := 0)) x = m x" if "\<forall>i<nat n. x \<noteq> s + word_of_nat i" for x
    using that L(3) unfolding L(1) n(1) by auto
  ultimately show ?thesis
    using assms(3) unfolding res k_def [symmetric] c_string_def by auto
qed

lemma safestrcpy_terminates_result_witness:
  "(let m = (\<lambda>a::u32. if a = 100 then 65 else if a = 101 then 66 else 0)
    in c_string (safestrcpy m 200 100 2) 200 1)"
proof -
  let ?m = "\<lambda>a::u32. if a = 100 then 65 else if a = 101 then 66 else 0 :: byte"
  have "c_string ?m 100 2" by (auto simp: c_string_def less_2_cases_iff)
  moreover have "\<forall>i<nat 2. \<forall>j\<le>2. (200::u32) + word_of_nat i \<noteq> 100 + word_of_nat j"
  proof (intro allI impI)
    fix i j :: nat assume "i < nat 2" "j \<le> 2"
    then have "i = 0 \<or> i = 1" "j = 0 \<or> j = 1 \<or> j = 2" by auto
    then show "(200::u32) + word_of_nat i \<noteq> 100 + word_of_nat j" by auto
  qed
  ultimately show ?thesis
    using safestrcpy_terminates_result [of 2 ?m 100 2 200] by (simp add: Let_def)
qed

end
