(* ===== verification/Kalloc.thy ===== *)
theory Kalloc
  imports Strings
begin

text \<open>
  \<^verbatim>\<open>kalloc.c\<close>: the physical page allocator, with \<^verbatim>\<open>memlayout.h\<close> and the page macros of
  \<^verbatim>\<open>mmu.h\<close>.  The free list is kept where the code keeps it, in the first word of every
  free page; \<open>kmem_st\<close> holds memory (indexed by kernel virtual address), the head of the
  list and the linker's symbols.  It is the first part of the kernel's global state: later
  components extend this record with their own global variables.  The lemmas relate the
  chain in memory to a list of pages (\<open>kmem_inv\<close>) and show that \<open>kfree\<close> is a push and
  \<open>kalloc\<close> a pop; \<open>page_pool\<close> is the interface that the users of the allocator rely on.

  The lock \<open>kmem.lock\<close> makes each operation atomic and is not part of the state.
\<close>

section \<open>Address layout\<close>

definition PGSIZE :: u32 where "PGSIZE = 4096"
definition EXTMEM :: u32 where "EXTMEM = 0x100000"
definition PHYSTOP :: u32 where "PHYSTOP = 0xE000000"
definition DEVSPACE :: u32 where "DEVSPACE = 0xFE000000"
definition KERNBASE :: u32 where "KERNBASE = 0x80000000"
definition KERNLINK :: u32 where "KERNLINK = KERNBASE + EXTMEM"

definition V2P :: "u32 \<Rightarrow> u32" where "V2P a = a - KERNBASE"
definition P2V :: "u32 \<Rightarrow> u32" where "P2V a = a + KERNBASE"

definition PGROUNDUP :: "u32 \<Rightarrow> u32" where
  "PGROUNDUP sz = (sz + PGSIZE - 1) AND NOT (PGSIZE - 1)"

definition PGROUNDDOWN :: "u32 \<Rightarrow> u32" where
  "PGROUNDDOWN a = a AND NOT (PGSIZE - 1)"

section \<open>The allocator\<close>

record kmem_st =
  memory :: mem           \<comment> \<open>memory, by kernel virtual address\<close>
  freelist :: u32         \<comment> \<open>\<open>kmem.freelist\<close>, 0 for the empty list\<close>
  use_lock :: bool        \<comment> \<open>\<open>kmem.use_lock\<close>\<close>
  kernel_end :: u32       \<comment> \<open>the linker symbol \<open>end\<close>\<close>
  kernel_data :: u32      \<comment> \<open>the linker symbol \<open>data\<close>\<close>

definition kfree :: "'z kmem_st_scheme \<Rightarrow> u32 \<Rightarrow> 'z kmem_st_scheme res" where
  "kfree s v =
     (if v mod PGSIZE \<noteq> 0 \<or> v < kernel_end s \<or> V2P v \<ge> PHYSTOP then Panic ''kfree''
      else let m = memset (memory s) v 1 PGSIZE;
               m = store32 m v (freelist s)
           in Ok (s\<lparr>memory := m, freelist := v\<rparr>))"

definition kalloc :: "'z kmem_st_scheme \<Rightarrow> u32 \<times> 'z kmem_st_scheme" where
  "kalloc s =
     (let r = freelist s
      in if r \<noteq> 0 then (r, s\<lparr>freelist := load32 (memory s) r\<rparr>) else (r, s))"

text \<open>The loop of \<open>freerange\<close>; \<open>kfree\<close> panics before the pointer can wrap around.\<close>

lemma kfree_Ok_bound: "kfree s v = Ok t \<Longrightarrow> v < 0x8E000000 \<and> v mod 4096 = 0"
  by (auto simp: kfree_def V2P_def PHYSTOP_def KERNBASE_def PGSIZE_def split: if_splits)
    (unat_arith)

function freerange_loop :: "'z kmem_st_scheme \<Rightarrow> u32 \<Rightarrow> u32 \<Rightarrow> 'z kmem_st_scheme res" where
  "freerange_loop s p vend =
     (if p + PGSIZE \<le> vend then bnd (kfree s p) (\<lambda>s. freerange_loop s (p + PGSIZE) vend)
      else Ok s)"
  by pat_completeness auto
termination
proof (relation "measure (\<lambda>(s, p, vend). 2 ^ 32 - unat p)", simp, clarsimp)
  fix s :: "'z kmem_st_scheme" and p t
  assume "kfree s p = Ok t"
  then have "unat p < 0x8E000000" using kfree_Ok_bound [of s p t] by (simp add: word_less_nat_alt)
  then show "4294967296 - unat (p + PGSIZE) < 4294967296 - unat p"
    by (simp add: PGSIZE_def unat_word_ariths)
qed

definition freerange :: "'z kmem_st_scheme \<Rightarrow> u32 \<Rightarrow> u32 \<Rightarrow> 'z kmem_st_scheme res" where
  "freerange s vstart vend = freerange_loop s (PGROUNDUP vstart) vend"

definition kinit1 :: "'z kmem_st_scheme \<Rightarrow> u32 \<Rightarrow> u32 \<Rightarrow> 'z kmem_st_scheme res" where
  "kinit1 s vstart vend = freerange (s\<lparr>use_lock := False\<rparr>) vstart vend"

definition kinit2 :: "'z kmem_st_scheme \<Rightarrow> u32 \<Rightarrow> u32 \<Rightarrow> 'z kmem_st_scheme res" where
  "kinit2 s vstart vend = bnd (freerange s vstart vend) (\<lambda>s. Ok (s\<lparr>use_lock := True\<rparr>))"

declare freerange_loop.simps [simp del]

section \<open>Pages and addresses\<close>

lemma clear_low_bits: "(x AND NOT 4095) mod 4096 = 0" for x :: u32
proof -
  have "take_bit 12 (x AND NOT (mask 12)) = 0"
    by (rule bit_word_eqI) (auto simp: bit_simps)
  then show ?thesis by (simp add: take_bit_eq_mod mask_eq_exp_minus_1)
qed

lemma PGROUNDUP_aligned: "PGROUNDUP a mod 4096 = 0"
  using clear_low_bits [of "a + PGSIZE - 1"] by (simp add: PGROUNDUP_def PGSIZE_def)

lemma PGROUNDDOWN_aligned: "PGROUNDDOWN a mod 4096 = 0"
  using clear_low_bits [of a] by (simp add: PGROUNDDOWN_def PGSIZE_def)

lemma unat_aligned: "p mod 4096 = 0 \<longleftrightarrow> unat p mod 4096 = 0" for p :: u32
  by (simp add: word_unat_eq_iff unat_mod_distrib)

lemma unat_page_add:
  assumes "p mod 4096 = 0" "i < 4096"
  shows "unat (p + word_of_nat i :: u32) = unat p + i"
proof -
  from assms(1) obtain k where k: "unat p = 4096 * k"
    by (auto simp: unat_aligned mod_eq_0_iff_dvd elim: dvdE)
  moreover have "unat p < 2 ^ 32" using unsigned_less [of p, where ?'a = nat] by simp
  ultimately have "k < 2 ^ 20" by simp
  with k assms(2) show ?thesis by (simp add: unat_word_ariths unat_of_nat)
qed

text \<open>An address lies in the page \<open>p\<close> exactly when the two have the same page number.\<close>

lemma in_page_iff:
  fixes p x :: u32
  assumes "p mod 4096 = 0"
  shows "x - p < 4096 \<longleftrightarrow> unat x div 4096 = unat p div 4096"
proof -
  from assms obtain k where k: "unat p = 4096 * k"
    by (auto simp: unat_aligned mod_eq_0_iff_dvd elim: dvdE)
  have "unat p < 2 ^ 32" "unat x < 2 ^ 32"
    using unsigned_less [of p, where ?'a = nat] unsigned_less [of x, where ?'a = nat] by simp_all
  with k show ?thesis
    by (auto simp: word_less_nat_alt unat_sub_if_size word_size)
qed

lemma aligned_word_page:
  assumes "q mod 4096 = 0" "i < 4096"
  shows "unat (q + word_of_nat i :: u32) div 4096 = unat q div 4096"
proof -
  from assms(1) obtain k where "unat q = 4096 * k"
    by (auto simp: unat_aligned mod_eq_0_iff_dvd elim: dvdE)
  with assms show ?thesis by (simp add: unat_page_add)
qed

text \<open>A change confined to one page leaves the words of every other page alone.\<close>

lemma load32_other_page:
  fixes p q :: u32
  assumes "p mod 4096 = 0" "q mod 4096 = 0" "p \<noteq> q" "i + 3 < 4096"
    and "\<And>x. \<not> x - p < 4096 \<Longrightarrow> m' x = m x"
  shows "load32 m' (q + word_of_nat i) = load32 m (q + word_of_nat i)"
proof -
  have ne: "unat p div 4096 \<noteq> unat q div 4096"
    using assms(1-3) by (metis div_mult_mod_eq unat_aligned word_unat_eq_iff)
  have "m' (q + word_of_nat (i + j)) = m (q + word_of_nat (i + j))" if "j < 4" for j
    using assms(1,2,4,5) that ne by (simp add: in_page_iff aligned_word_page del: of_nat_add)
  from this [of 0] this [of 1] this [of 2] this [of 3] show ?thesis
    by (simp add: load32_def add_ac)
qed

section \<open>The free list as a list of pages\<close>

primrec free_chain :: "mem \<Rightarrow> u32 \<Rightarrow> u32 list \<Rightarrow> bool" where
  "free_chain m r [] \<longleftrightarrow> r = 0"
| "free_chain m r (p # ps) \<longleftrightarrow> r = p \<and> p \<noteq> 0 \<and> free_chain m (load32 m p) ps"

definition page_ok :: "'z kmem_st_scheme \<Rightarrow> u32 \<Rightarrow> bool" where
  "page_ok s p \<longleftrightarrow> p mod PGSIZE = 0 \<and> kernel_end s \<le> p \<and> V2P p < PHYSTOP"

definition kmem_inv :: "'z kmem_st_scheme \<Rightarrow> u32 list \<Rightarrow> bool" where
  "kmem_inv s ps \<longleftrightarrow> free_chain (memory s) (freelist s) ps \<and> distinct ps \<and>
     (\<forall>p\<in>set ps. page_ok s p)"

lemma page_ok_nonzero: "page_ok s p \<Longrightarrow> p \<noteq> 0"
  by (auto simp: page_ok_def V2P_def KERNBASE_def PHYSTOP_def)

lemma free_chain_frame:
  assumes "free_chain m r ps" "\<And>q. q \<in> set ps \<Longrightarrow> load32 m' q = load32 m q"
  shows "free_chain m' r ps"
  using assms by (induction ps arbitrary: r) auto

lemma kfree_pushes:
  assumes inv: "kmem_inv s ps" and p: "page_ok s p" "p \<notin> set ps"
  shows "\<exists>s'. kfree s p = Ok s' \<and> kmem_inv s' (p # ps) \<and> kernel_end s' = kernel_end s"
proof -
  define m' where "m' = store32 (memset (memory s) p 1 PGSIZE) p (freelist s)"
  have al: "p mod 4096 = 0" using p by (simp add: page_ok_def PGSIZE_def)
  have out: "m' x = memory s x" if "\<not> x - p < 4096" for x
  proof -
    have "x \<noteq> p + word_of_nat i" if "i < 4" for i
      using \<open>\<not> x - p < 4096\<close> that al in_page_iff [OF al, of x] aligned_word_page [OF al, of i]
      by auto
    from this [of 0] this [of 1] this [of 2] this [of 3] that show ?thesis
      by (simp add: m'_def store32_def memset_apply PGSIZE_def)
  qed
  have "load32 m' q = load32 (memory s) q" if "q \<in> set ps" for q
  proof -
    have "q mod 4096 = 0" using that inv by (auto simp: kmem_inv_def page_ok_def PGSIZE_def)
    with load32_other_page [of p q 0 m' "memory s"] out al that p(2) show ?thesis by auto
  qed
  then have "free_chain m' (freelist s) ps"
    using inv free_chain_frame by (auto simp: kmem_inv_def)
  moreover have "load32 m' p = freelist s" by (simp add: m'_def)
  moreover have "kfree s p = Ok (s\<lparr>memory := m', freelist := p\<rparr>)"
    using p by (auto simp: kfree_def page_ok_def m'_def Let_def not_le)
  ultimately show ?thesis
    using inv p page_ok_nonzero [OF p(1)] by (auto simp: kmem_inv_def page_ok_def)
qed

lemma kalloc_pops:
  "kmem_inv s (p # ps) \<Longrightarrow>
   fst (kalloc s) = p \<and> kmem_inv (snd (kalloc s)) ps \<and>
   kernel_end (snd (kalloc s)) = kernel_end s \<and> memory (snd (kalloc s)) = memory s"
  by (auto simp: kalloc_def kmem_inv_def page_ok_def Let_def)

lemma kalloc_empty: "kmem_inv s [] \<Longrightarrow> kalloc s = (0, s)"
  by (simp add: kalloc_def kmem_inv_def)

section \<open>The allocator as a pool of pages\<close>

text \<open>\<open>n\<close> allocations in a row.\<close>

fun alloc_n :: "('s \<Rightarrow> u32 \<times> 's) \<Rightarrow> nat \<Rightarrow> 's \<Rightarrow> u32 list \<times> 's" where
  "alloc_n alloc 0 s = ([], s)"
| "alloc_n alloc (Suc n) s =
     (let (p, s) = alloc s; (ps, s) = alloc_n alloc n s in (p # ps, s))"

text \<open>
  What the users of the allocator rely on: \<open>pool s ps\<close> says that \<open>ps\<close> are the free pages;
  a page can be given back when it is valid and not free already.
\<close>

locale page_pool =
  fixes alloc :: "'s \<Rightarrow> u32 \<times> 's"
    and free :: "'s \<Rightarrow> u32 \<Rightarrow> 's res"
    and pool :: "'s \<Rightarrow> u32 list \<Rightarrow> bool"
    and valid :: "'s \<Rightarrow> u32 \<Rightarrow> bool"
  assumes alloc_cons: "pool s (p # ps) \<Longrightarrow> fst (alloc s) = p \<and> pool (snd (alloc s)) ps"
    and alloc_nil: "pool s [] \<Longrightarrow> alloc s = (0, s)"
    and free_ok: "pool s ps \<Longrightarrow> valid s p \<Longrightarrow> p \<notin> set ps \<Longrightarrow>
      \<exists>s'. free s p = Ok s' \<and> pool s' (p # ps)"
    and pool_distinct: "pool s ps \<Longrightarrow> distinct ps"
    and pool_valid: "pool s ps \<Longrightarrow> p \<in> set ps \<Longrightarrow> valid s p"
    and valid_nonzero: "valid s p \<Longrightarrow> p \<noteq> 0"
    and valid_alloc: "valid (snd (alloc s)) = valid s"
begin

lemma alloc_n_pool:
  "pool s ps \<Longrightarrow> n \<le> length ps \<Longrightarrow>
   fst (alloc_n alloc n s) = take n ps \<and> pool (snd (alloc_n alloc n s)) (drop n ps)"
proof (induction n arbitrary: s ps)
  case 0
  then show ?case by simp
next
  case (Suc n)
  then obtain p qs where ps: "ps = p # qs" by (cases ps) auto
  obtain q s1 where al: "alloc s = (q, s1)" by (cases "alloc s")
  with Suc.prems ps have "q = p" "pool s1 qs" using alloc_cons [of s p qs] by auto
  with Suc.IH [of s1 qs] Suc.prems ps al show ?case
    by (auto split: prod.splits)
qed

lemma alloc_n_fresh:
  assumes "pool s ps" "n \<le> length ps"
  shows "distinct (fst (alloc_n alloc n s))" "0 \<notin> set (fst (alloc_n alloc n s))"
  using assms alloc_n_pool [OF assms] pool_distinct [OF assms(1)] pool_valid [OF assms(1)]
    valid_nonzero by (auto dest: in_set_takeD)

lemma free_then_alloc:
  assumes "pool s ps" "valid s p" "p \<notin> set ps"
  shows "\<exists>s'. free s p = Ok s' \<and> fst (alloc s') = p \<and> pool (snd (alloc s')) ps"
  using free_ok [OF assms] alloc_cons by blast

lemma alloc_then_free:
  assumes "pool s (p # ps)"
  shows "\<exists>s'. free (snd (alloc s)) (fst (alloc s)) = Ok s' \<and> pool s' (p # ps)"
proof -
  have "fst (alloc s) = p" "pool (snd (alloc s)) ps" "p \<notin> set ps" "valid (snd (alloc s)) p"
    using assms alloc_cons [OF assms] pool_distinct [OF assms] pool_valid [OF assms, of p]
    by (auto simp: valid_alloc)
  with free_ok show ?thesis by simp
qed

end

interpretation kpool: page_pool kalloc kfree kmem_inv page_ok
proof (unfold_locales, goal_cases)
  case (1 s p ps)
  then show ?case by (simp add: kalloc_pops)
next
  case (2 s)
  then show ?case by (rule kalloc_empty)
next
  case (3 s ps p)
  then show ?case using kfree_pushes by blast
next
  case (4 s ps)
  then show ?case by (simp add: kmem_inv_def)
next
  case (5 s ps p)
  then show ?case by (simp add: kmem_inv_def)
next
  case (6 s p)
  then show ?case by (rule page_ok_nonzero)
next
  case (7 s)
  show ?case by (auto simp: kalloc_def page_ok_def Let_def fun_eq_iff)
qed

text \<open>
  C21.  From a well-formed free list of \<open>ps\<close>, \<open>n \<le> length ps\<close> calls of \<open>kalloc\<close> return the
  first \<open>n\<close> pages of the list, pairwise distinct and not null, and leave a well-formed list
  of the others.
\<close>

theorem kalloc_distinct_pages:
  assumes "kmem_inv s ps" "n \<le> length ps"
  shows "fst (alloc_n kalloc n s) = take n ps \<and> distinct (fst (alloc_n kalloc n s)) \<and>
    0 \<notin> set (fst (alloc_n kalloc n s)) \<and> kmem_inv (snd (alloc_n kalloc n s)) (drop n ps)"
  using kpool.alloc_n_pool [OF assms] kpool.alloc_n_fresh [OF assms] by simp

text \<open>A machine with two free pages, for the witnesses.\<close>

definition two_pages :: kmem_st where
  "two_pages = \<lparr>memory = store32 (\<lambda>_. 0) 0x80200000 0x80201000, freelist = 0x80200000,
     use_lock = True, kernel_end = 0x80110000, kernel_data = 0x80108000\<rparr>"

lemma two_pages_inv: "kmem_inv two_pages [0x80200000, 0x80201000]"
proof -
  have "load32 (store32 (\<lambda>_. 0) 0x80200000 v) 0x80201000 = (0 :: u32)" for v
    by (simp add: load32_def store32_def)
  then show ?thesis
    by (simp add: kmem_inv_def two_pages_def page_ok_def PGSIZE_def V2P_def KERNBASE_def
        PHYSTOP_def)
qed

theorem kalloc_distinct_pages_witness:
  "fst (alloc_n kalloc 2 two_pages) = [0x80200000, 0x80201000]"
  using kalloc_distinct_pages [OF two_pages_inv, of 2] by simp

text \<open>
  C22.  \<open>kfree\<close> of a page that is page aligned, above the kernel and below \<open>PHYSTOP\<close>, and
  not free already, succeeds, and the next \<open>kalloc\<close> returns that page and the old list; a
  page that fails one of the checks makes \<open>kfree\<close> panic.
\<close>

theorem kfree_kalloc_roundtrip:
  assumes "kmem_inv s ps" "p \<notin> set ps"
  shows "(if p mod PGSIZE = 0 \<and> kernel_end s \<le> p \<and> V2P p < PHYSTOP
    then \<exists>s'. kfree s p = Ok s' \<and> fst (kalloc s') = p \<and> kmem_inv (snd (kalloc s')) ps
    else kfree s p = Panic ''kfree'')"
  using kpool.free_then_alloc [OF assms(1) _ assms(2)]
  by (auto simp: page_ok_def kfree_def not_le)

theorem kfree_kalloc_roundtrip_witness:
  "\<exists>s'. kfree two_pages 0x80202000 = Ok s' \<and> fst (kalloc s') = 0x80202000"
proof -
  have "0x80202000 \<notin> set [0x80200000, 0x80201000 :: u32]" by simp
  from kfree_kalloc_roundtrip [OF two_pages_inv this] show ?thesis
    by (auto simp: PGSIZE_def V2P_def KERNBASE_def PHYSTOP_def two_pages_def split: if_splits)
qed

section \<open>Giving a range of memory to the allocator\<close>

definition pages_between :: "u32 \<Rightarrow> u32 \<Rightarrow> u32 list" where
  "pages_between p vend = map (\<lambda>i. p + 4096 * word_of_nat i) [0..<(unat vend - unat p) div 4096]"

lemma pages_between_step:
  assumes "p mod 4096 = 0" "unat p + 4096 \<le> unat vend"
  shows "pages_between p vend = p # pages_between (p + 4096) vend"
proof -
  have "unat vend < 2 ^ 32" using unsigned_less [of vend, where ?'a = nat] by simp
  with assms have u: "unat (p + 4096) = unat p + 4096" by (simp add: unat_word_ariths)
  from assms have "(unat vend - unat p) div 4096 = Suc ((unat vend - unat (p + 4096)) div 4096)"
    unfolding u by (simp add: le_div_geq diff_diff_left)
  then show ?thesis
    by (simp add: pages_between_def upt_conv_Cons map_Suc_upt [symmetric] algebra_simps
        del: upt_Suc)
qed

lemma page_ok_aligned: "page_ok s p \<Longrightarrow> p mod 4096 = 0"
  by (simp add: page_ok_def PGSIZE_def)

lemma pages_between_nil: "unat vend < unat p + 4096 \<Longrightarrow> pages_between p vend = []"
  by (simp add: pages_between_def div_eq_0_iff)

lemma pages_between_above:
  assumes "p mod 4096 = 0" "q \<in> set (pages_between p vend)"
  shows "unat p \<le> unat q"
proof -
  from assms(2) obtain i where i: "i < (unat vend - unat p) div 4096"
    and q: "q = p + 4096 * word_of_nat i"
    by (auto simp: pages_between_def)
  have "unat vend < 2 ^ 32" using unsigned_less [of vend, where ?'a = nat] by simp
  moreover have "unat p + 4096 * i < unat vend" using i by linarith
  ultimately have "unat q = unat p + 4096 * i"
    by (simp add: q unat_word_ariths unat_of_nat)
  then show ?thesis by simp
qed

lemma freerange_loop_pages:
  assumes "kmem_inv s ps" "p mod 4096 = 0" "kernel_end s \<le> p" "0x80000000 \<le> unat p"
    and "unat p \<le> 0x8E000000" "unat vend \<le> 0x8E000000" "set (pages_between p vend) \<inter> set ps = {}"
  shows "\<exists>s'. freerange_loop s p vend = Ok s' \<and> kmem_inv s' (rev (pages_between p vend) @ ps)"
  using assms
proof (induction "0x8E001000 - unat p" arbitrary: s p ps rule: less_induct)
  case (less p s ps)
  from less.prems have u: "unat (p + PGSIZE) = unat p + 4096"
    by (simp add: unat_word_ariths PGSIZE_def)
  show ?case
  proof (cases "unat p + 4096 \<le> unat vend")
    case False
    then show ?thesis using less.prems
      by (subst freerange_loop.simps) (simp add: pages_between_nil word_le_nat_alt u)
  next
    case True
    note step = pages_between_step [OF less.prems(2) True]
    have ok: "page_ok s p"
      using less.prems True
      by (simp add: page_ok_def PGSIZE_def V2P_def KERNBASE_def PHYSTOP_def word_less_nat_alt
          unat_sub_if_size word_size)
    have "p \<notin> set ps" using less.prems step by auto
    with kfree_pushes [OF less.prems(1) ok] obtain s1 where s1: "kfree s p = Ok s1"
      "kmem_inv s1 (p # ps)" "kernel_end s1 = kernel_end s" by auto
    have al: "(p + 4096) mod 4096 = 0"
      using less.prems(2) u by (simp add: unat_aligned PGSIZE_def)
    have "p \<notin> set (pages_between (p + 4096) vend)"
      using pages_between_above [OF al, of p vend] u by (auto simp: PGSIZE_def)
    with less.prems s1 u al True step less.hyps [of "p + 4096" s1 "p # ps"] show ?thesis
      by (subst freerange_loop.simps)
        (simp add: step word_le_nat_alt PGSIZE_def)
  qed
qed

text \<open>
  \<open>freerange\<close> on a range of physical memory above the kernel, none of whose pages is
  free yet, does not panic and adds exactly the whole pages between the rounded-up start
  and the end to the free list.
\<close>

lemma freerange_frees_pages:
  assumes "kmem_inv s ps" "kernel_end s \<le> PGROUNDUP vstart"
    and "P2V 0 \<le> PGROUNDUP vstart" "PGROUNDUP vstart \<le> P2V PHYSTOP" "vend \<le> P2V PHYSTOP"
    and "set (pages_between (PGROUNDUP vstart) vend) \<inter> set ps = {}"
  shows "\<exists>s'. freerange s vstart vend = Ok s' \<and>
    kmem_inv s' (rev (pages_between (PGROUNDUP vstart) vend) @ ps)"
proof -
  have "PGROUNDUP vstart mod 4096 = 0" by (rule PGROUNDUP_aligned)
  with assms show ?thesis unfolding freerange_def
    by (intro freerange_loop_pages) (simp_all add: P2V_def KERNBASE_def PHYSTOP_def word_le_nat_alt)
qed

lemma freerange_frees_pages_witness:
  "\<exists>s'. freerange two_pages 0x80202001 0x80205000 = Ok s' \<and>
    kmem_inv s' [0x80204000, 0x80203000, 0x80200000, 0x80201000]"
proof -
  have r: "PGROUNDUP 0x80202001 = 0x80203000" by (simp add: PGROUNDUP_def PGSIZE_def)
  have b: "pages_between 0x80203000 0x80205000 = [0x80203000, 0x80204000]"
    by (simp add: pages_between_def upt_rec)
  show ?thesis
    using freerange_frees_pages [OF two_pages_inv, of "0x80202001" "0x80205000"]
    by (simp add: r b two_pages_def P2V_def KERNBASE_def PHYSTOP_def)
qed

end
