(* ===== verification/Vm.thy ===== *)
theory Vm
  imports Kalloc
begin

text \<open>
  \<^verbatim>\<open>vm.c\<close> with the page-table macros of \<^verbatim>\<open>mmu.h\<close>: two-level page tables held in the pages
  that \<open>kalloc\<close> hands out.  A page directory or table is named by its kernel virtual
  address; entries are read and written with \<open>load32\<close> and \<open>store32\<close> on \<open>memory\<close>.  The state
  extends \<open>kmem_st\<close> with the kernel's page directory and the registers of the CPU that
  \<open>switchkvm\<close> and \<open>switchuvm\<close> load.  A dereference of a null pointer is a \<open>Fault\<close>; the
  segment descriptors that \<open>seginit\<close> and \<open>switchuvm\<close> load are constant and not modelled.
\<close>

section \<open>Page tables\<close>

definition PTE_P :: u32 where "PTE_P = 1"
definition PTE_W :: u32 where "PTE_W = 2"
definition PTE_U :: u32 where "PTE_U = 4"
definition NPDENTRIES :: nat where "NPDENTRIES = 1024"
definition KSTACKSIZE :: u32 where "KSTACKSIZE = 4096"

definition PDX :: "u32 \<Rightarrow> u32" where "PDX va = drop_bit 22 va AND 0x3FF"
definition PTX :: "u32 \<Rightarrow> u32" where "PTX va = drop_bit 12 va AND 0x3FF"

definition PGADDR :: "u32 \<Rightarrow> u32 \<Rightarrow> u32 \<Rightarrow> u32" where
  "PGADDR d t off = push_bit 22 d OR push_bit 12 t OR off"

definition PTE_ADDR :: "u32 \<Rightarrow> u32" where "PTE_ADDR pte = pte AND NOT 0xFFF"
definition PTE_FLAGS :: "u32 \<Rightarrow> u32" where "PTE_FLAGS pte = pte AND 0xFFF"

record vm_st = kmem_st +
  kpgdir :: u32
  cr3 :: u32         \<comment> \<open>the page-table register, a physical address\<close>
  esp0 :: u32        \<comment> \<open>\<open>ts.esp0\<close>: the kernel stack that the next trap uses\<close>

text \<open>
  A \<open>for\<close> loop over addresses.  The body returns from the enclosing routine (\<open>Inl\<close>) or
  gives the next address.  A loop whose address wraps around never reaches its bound: that is
  \<open>Spins\<close>.
\<close>

function addr_loop ::
  "u32 \<Rightarrow> (u32 \<Rightarrow> 's \<Rightarrow> ('r \<times> 's + u32 \<times> 's) res) \<Rightarrow> u32 \<Rightarrow> 's \<Rightarrow> ('r option \<times> 's) res" where
  "addr_loop bound body a s =
     (if a < bound then
        bnd (body a s) (\<lambda>x. case x of
            Inl (r, s) \<Rightarrow> Ok (Some r, s)
          | Inr (a', s) \<Rightarrow> if a < a' then addr_loop bound body a' s else Spins)
      else Ok (None, s))"
  by pat_completeness auto
termination
  by (relation "measure (\<lambda>(bound, body, a, s). 2 ^ 32 - unat a)")
    (auto simp: word_less_nat_alt intro!: diff_less_mono2 unsigned_less [where ?'a = nat, THEN less_le_trans])

declare addr_loop.simps [simp del]

definition walkpgdir :: "'z kmem_st_scheme \<Rightarrow> u32 \<Rightarrow> u32 \<Rightarrow> bool \<Rightarrow> u32 \<times> 'z kmem_st_scheme" where
  "walkpgdir s pgdir va alloc =
     (let pde = pgdir + 4 * PDX va;
          e = load32 (memory s) pde
      in if e AND PTE_P \<noteq> 0 then (P2V (PTE_ADDR e) + 4 * PTX va, s)
         else if \<not> alloc then (0, s)
         else let (pgtab, s) = kalloc s
              in if pgtab = 0 then (0, s)
                 else let m = memset (memory s) pgtab 0 PGSIZE;
                          m = store32 m pde (V2P pgtab OR PTE_P OR PTE_W OR PTE_U)
                      in (pgtab + 4 * PTX va, s\<lparr>memory := m\<rparr>))"

text \<open>
  The loop of \<open>mappages\<close>; the first argument is the number of pages that remain after this
  one, that is, \<open>(last - a) / PGSIZE\<close>.
\<close>

primrec mappages_loop ::
  "nat \<Rightarrow> u32 \<Rightarrow> u32 \<Rightarrow> u32 \<Rightarrow> u32 \<Rightarrow> 'z kmem_st_scheme \<Rightarrow> (int \<times> 'z kmem_st_scheme) res" where
  "mappages_loop 0 pgdir a pa perm s =
     (let (pte, s) = walkpgdir s pgdir a True
      in if pte = 0 then Ok (-1, s)
         else if load32 (memory s) pte AND PTE_P \<noteq> 0 then Panic ''remap''
         else Ok (0, s\<lparr>memory := store32 (memory s) pte (pa OR perm OR PTE_P)\<rparr>))"
| "mappages_loop (Suc n) pgdir a pa perm s =
     (let (pte, s) = walkpgdir s pgdir a True
      in if pte = 0 then Ok (-1, s)
         else if load32 (memory s) pte AND PTE_P \<noteq> 0 then Panic ''remap''
         else mappages_loop n pgdir (a + PGSIZE) (pa + PGSIZE) perm
                (s\<lparr>memory := store32 (memory s) pte (pa OR perm OR PTE_P)\<rparr>))"

definition mappages ::
  "'z kmem_st_scheme \<Rightarrow> u32 \<Rightarrow> u32 \<Rightarrow> u32 \<Rightarrow> u32 \<Rightarrow> u32 \<Rightarrow> (int \<times> 'z kmem_st_scheme) res" where
  "mappages s pgdir va len pa perm =
     (let a = PGROUNDDOWN va;
          last = PGROUNDDOWN (va + len - 1)
      in mappages_loop (unat ((last - a) div PGSIZE)) pgdir a pa perm s)"

section \<open>Address spaces\<close>

definition deallocuvm ::
  "'z kmem_st_scheme \<Rightarrow> u32 \<Rightarrow> u32 \<Rightarrow> u32 \<Rightarrow> (u32 \<times> 'z kmem_st_scheme) res" where
  "deallocuvm s pgdir oldsz newsz =
     (if newsz \<ge> oldsz then Ok (oldsz, s)
      else bnd (addr_loop oldsz (\<lambda>a s.
             let (pte, s) = walkpgdir s pgdir a False
             in if pte = 0 then Ok (Inr (PGADDR (PDX a + 1) 0 0 - PGSIZE + PGSIZE, s))
                else if load32 (memory s) pte AND PTE_P \<noteq> 0 then
                  let pa = PTE_ADDR (load32 (memory s) pte)
                  in if pa = 0 then Panic ''kfree''
                     else bnd (kfree s (P2V pa)) (\<lambda>s.
                       Ok (Inr (a + PGSIZE, s\<lparr>memory := store32 (memory s) pte 0\<rparr>)))
                else Ok (Inr (a + PGSIZE, s))) (PGROUNDUP newsz) s)
           (\<lambda>(r :: unit option, s). Ok (newsz, s)))"

definition allocuvm ::
  "'z kmem_st_scheme \<Rightarrow> u32 \<Rightarrow> u32 \<Rightarrow> u32 \<Rightarrow> (u32 \<times> 'z kmem_st_scheme) res" where
  "allocuvm s pgdir oldsz newsz =
     (if newsz \<ge> KERNBASE then Ok (0, s)
      else if newsz < oldsz then Ok (oldsz, s)
      else bnd (addr_loop newsz (\<lambda>a s.
             let (pg, s) = kalloc s
             in if pg = 0 then
                  bnd (deallocuvm s pgdir newsz oldsz) (\<lambda>(_, s). Ok (Inl (0, s)))
                else
                  let s = s\<lparr>memory := memset (memory s) pg 0 PGSIZE\<rparr>
                  in bnd (mappages s pgdir a PGSIZE (V2P pg) (PTE_W OR PTE_U)) (\<lambda>(r, s).
                     if r < 0 then
                       bnd (deallocuvm s pgdir newsz oldsz) (\<lambda>(_, s).
                       bnd (kfree s pg) (\<lambda>s. Ok (Inl (0, s))))
                     else Ok (Inr (a + PGSIZE, s)))) (PGROUNDUP oldsz) s)
           (\<lambda>(r, s). case r of Some v \<Rightarrow> Ok (v, s) | None \<Rightarrow> Ok (newsz, s)))"

definition freevm :: "'z kmem_st_scheme \<Rightarrow> u32 \<Rightarrow> 'z kmem_st_scheme res" where
  "freevm s pgdir =
     (if pgdir = 0 then Panic ''freevm: no pgdir''
      else bnd (deallocuvm s pgdir KERNBASE 0) (\<lambda>(_, s).
           bnd (for_each [0..<NPDENTRIES] (\<lambda>i s.
                 let e = load32 (memory s) (pgdir + 4 * word_of_nat i)
                 in if e AND PTE_P \<noteq> 0 then kfree s (P2V (PTE_ADDR e)) else Ok s) s) (\<lambda>s.
           kfree s pgdir)))"

definition kmap :: "'z kmem_st_scheme \<Rightarrow> (u32 \<times> u32 \<times> u32 \<times> u32) list" where
  "kmap s =
     [(KERNBASE, 0, EXTMEM, PTE_W),
      (KERNLINK, V2P KERNLINK, V2P (kernel_data s), 0),
      (kernel_data s, V2P (kernel_data s), PHYSTOP, PTE_W),
      (DEVSPACE, DEVSPACE, 0, PTE_W)]"

fun map_kmap :: "(u32 \<times> u32 \<times> u32 \<times> u32) list \<Rightarrow> u32 \<Rightarrow> 'z kmem_st_scheme \<Rightarrow>
    (u32 \<times> 'z kmem_st_scheme) res" where
  "map_kmap [] pgdir s = Ok (pgdir, s)"
| "map_kmap ((virt, phys_start, phys_end, perm) # ks) pgdir s =
     bnd (mappages s pgdir virt (phys_end - phys_start) phys_start perm) (\<lambda>(r, s).
     if r < 0 then bnd (freevm s pgdir) (\<lambda>s. Ok (0, s))
     else map_kmap ks pgdir s)"

definition setupkvm :: "'z kmem_st_scheme \<Rightarrow> (u32 \<times> 'z kmem_st_scheme) res" where
  "setupkvm s =
     (let (pgdir, s) = kalloc s
      in if pgdir = 0 then Ok (0, s)
         else let s = s\<lparr>memory := memset (memory s) pgdir 0 PGSIZE\<rparr>
              in if P2V PHYSTOP > DEVSPACE then Panic ''PHYSTOP too high''
                 else map_kmap (kmap s) pgdir s)"

definition switchkvm :: "'z vm_st_scheme \<Rightarrow> 'z vm_st_scheme" where
  "switchkvm s = s\<lparr>cr3 := V2P (kpgdir s)\<rparr>"

definition kvmalloc :: "'z vm_st_scheme \<Rightarrow> 'z vm_st_scheme res" where
  "kvmalloc s = bnd (setupkvm s) (\<lambda>(pd, s). Ok (switchkvm (s\<lparr>kpgdir := pd\<rparr>)))"

text \<open>The argument of \<open>switchuvm\<close> is the kernel stack and page directory of the process.\<close>

definition switchuvm :: "'z vm_st_scheme \<Rightarrow> (u32 \<times> u32) option \<Rightarrow> 'z vm_st_scheme res" where
  "switchuvm s p =
     (case p of None \<Rightarrow> Panic ''switchuvm: no process''
      | Some (kst, pd) \<Rightarrow>
          if kst = 0 then Panic ''switchuvm: no kstack''
          else if pd = 0 then Panic ''switchuvm: no pgdir''
          else Ok (s\<lparr>esp0 := kst + KSTACKSIZE, cr3 := V2P pd\<rparr>))"

definition inituvm :: "'z kmem_st_scheme \<Rightarrow> u32 \<Rightarrow> u32 \<Rightarrow> u32 \<Rightarrow> 'z kmem_st_scheme res" where
  "inituvm s pgdir init sz =
     (if sz \<ge> PGSIZE then Panic ''inituvm: more than a page''
      else let (pg, s) = kalloc s
           in if pg = 0 then Fault ''memset: null''
              else let s = s\<lparr>memory := memset (memory s) pg 0 PGSIZE\<rparr>
                   in bnd (mappages s pgdir 0 PGSIZE (V2P pg) (PTE_W OR PTE_U)) (\<lambda>(_, s).
                      Ok (s\<lparr>memory := memmove (memory s) pg init sz\<rparr>)))"

definition clearpteu :: "'z kmem_st_scheme \<Rightarrow> u32 \<Rightarrow> u32 \<Rightarrow> 'z kmem_st_scheme res" where
  "clearpteu s pgdir uva =
     (let (pte, s) = walkpgdir s pgdir uva False
      in if pte = 0 then Panic ''clearpteu''
         else Ok (s\<lparr>memory := store32 (memory s) pte (load32 (memory s) pte AND NOT PTE_U)\<rparr>))"

definition copyuvm :: "'z kmem_st_scheme \<Rightarrow> u32 \<Rightarrow> u32 \<Rightarrow> (u32 \<times> 'z kmem_st_scheme) res" where
  "copyuvm s pgdir sz =
     bnd (setupkvm s) (\<lambda>(d, s).
     if d = 0 then Ok (0, s)
     else bnd (addr_loop sz (\<lambda>i s.
            let (pte, s) = walkpgdir s pgdir i False
            in if pte = 0 then Panic ''copyuvm: pte should exist''
               else if load32 (memory s) pte AND PTE_P = 0 then Panic ''copyuvm: page not present''
               else let pa = PTE_ADDR (load32 (memory s) pte);
                        flags = PTE_FLAGS (load32 (memory s) pte);
                        (pg, s) = kalloc s
                    in if pg = 0 then bnd (freevm s d) (\<lambda>s. Ok (Inl (0, s)))
                       else let s = s\<lparr>memory := memmove (memory s) pg (P2V pa) PGSIZE\<rparr>
                            in bnd (mappages s d i PGSIZE (V2P pg) flags) (\<lambda>(r, s).
                               if r < 0 then bnd (kfree s pg) (\<lambda>s.
                                  bnd (freevm s d) (\<lambda>s. Ok (Inl (0, s))))
                               else Ok (Inr (i + PGSIZE, s)))) 0 s)
          (\<lambda>(r, s). case r of Some v \<Rightarrow> Ok (v, s) | None \<Rightarrow> Ok (d, s)))"

definition uva2ka :: "'z kmem_st_scheme \<Rightarrow> u32 \<Rightarrow> u32 \<Rightarrow> u32 res" where
  "uva2ka s pgdir uva =
     (let (pte, s) = walkpgdir s pgdir uva False
      in if pte = 0 then Fault ''uva2ka: null pte''
         else if load32 (memory s) pte AND PTE_P = 0 then Ok 0
         else if load32 (memory s) pte AND PTE_U = 0 then Ok 0
         else Ok (P2V (PTE_ADDR (load32 (memory s) pte))))"

lemma page_offset: "va - PGROUNDDOWN va = va mod 4096" "va mod 4096 < 4096" for va :: u32
proof -
  have "va AND mask 12 = va mod 4096" by (simp add: take_bit_eq_mask [symmetric] take_bit_eq_mod)
  moreover have "NOT va AND (va AND NOT (mask 12)) = 0"
    "va AND NOT (va AND NOT (mask 12)) = va AND mask 12"
    by (rule bit_word_eqI, auto simp: bit_simps)+
  ultimately have "va - (va AND NOT (mask 12)) = va mod 4096"
    using disjunctive_diff_eq_and_not [of va "va AND NOT (mask 12)"] by simp
  then show "va - PGROUNDDOWN va = va mod 4096"
    by (simp add: PGROUNDDOWN_def PGSIZE_def mask_eq_exp_minus_1)
  show "va mod 4096 < 4096" by (simp add: word_less_nat_alt unat_mod_distrib)
qed

lemma page_rest_pos: "0 < unat (PGSIZE - (va - PGROUNDDOWN va))"
proof -
  have "unat (va mod 4096) < 4096" using page_offset(2) [of va] by (simp add: word_less_nat_alt)
  then show ?thesis
    unfolding page_offset(1) by (simp add: PGSIZE_def unat_sub_if_size word_size)
qed

text \<open>\<open>copyout\<close>; the source bytes are a list, so that \<open>len\<close> is its length.\<close>

function copyout ::
  "'z kmem_st_scheme \<Rightarrow> u32 \<Rightarrow> u32 \<Rightarrow> byte list \<Rightarrow> (int \<times> 'z kmem_st_scheme) res" where
  "copyout s pgdir va buf =
     (if length buf > 0 then
        let va0 = PGROUNDDOWN va in
        bnd (uva2ka s pgdir va0) (\<lambda>pa0.
          if pa0 = 0 then Ok (-1, s)
          else let n = min (unat (PGSIZE - (va - va0))) (length buf)
               in copyout (s\<lparr>memory := mem_store (memory s) (pa0 + (va - va0)) (take n buf)\<rparr>)
                    pgdir (va0 + PGSIZE) (drop n buf))
      else Ok (0, s))"
  by pat_completeness auto
termination
  by (relation "measure (\<lambda>(s, pgdir, va, buf). length buf)") (auto simp: page_rest_pos)

declare copyout.simps [simp del]

section \<open>Entries of page tables\<close>

text \<open>The address of entry \<open>k\<close> of the directory or table at \<open>p\<close>.\<close>

definition slot :: "u32 \<Rightarrow> nat \<Rightarrow> u32" where
  "slot p k = p + word_of_nat (4 * k)"

lemma slot_word: "p + 4 * k = slot p (unat k)"
  by (simp add: slot_def)

lemma PDX_less: "unat (PDX va) < 1024" and PTX_less: "unat (PTX va) < 1024"
proof -
  have "x AND 0x3FF = x mod 1024" for x :: u32
    using take_bit_eq_mask [of 10 x] by (simp add: take_bit_eq_mod mask_eq_exp_minus_1)
  then show "unat (PDX va) < 1024" "unat (PTX va) < 1024"
    by (simp_all add: PDX_def PTX_def unat_mod_distrib)
qed

lemma unat_PDX: "unat (PDX va) = unat va div 4194304"
  and unat_PTX: "unat (PTX va) = unat va div 4096 mod 1024"
proof -
  have low: "x AND 0x3FF = x mod 1024" for x :: u32
    using take_bit_eq_mask [of 10 x] by (simp add: take_bit_eq_mod mask_eq_exp_minus_1)
  have "unat va < 2 ^ 32" using unsigned_less [of va, where ?'a = nat] by simp
  then have "unat va div 4194304 < 1024" by simp
  then show "unat (PDX va) = unat va div 4194304"
    by (simp add: PDX_def low unat_mod_distrib drop_bit_eq_div unat_div_distrib)
  show "unat (PTX va) = unat va div 4096 mod 1024"
    by (simp add: PTX_def low unat_mod_distrib drop_bit_eq_div unat_div_distrib)
qed

lemma PGROUNDDOWN_unat: "unat (PGROUNDDOWN va) = 4096 * (unat va div 4096)"
proof -
  have "PGROUNDDOWN va = va - va mod 4096" using page_offset(1) [of va] by (metis diff_diff_eq2 add_diff_cancel_left')
  moreover have "va mod 4096 \<le> va" by (simp add: word_le_nat_alt unat_mod_distrib)
  ultimately have "unat (PGROUNDDOWN va) = unat va - unat va mod 4096"
    by (simp add: unat_sub unat_mod_distrib)
  then show ?thesis by (simp add: minus_mod_eq_mult_div)
qed

text \<open>The two indices of an address are its page number.\<close>

lemma same_indices:
  "PDX va = PDX va' \<and> PTX va = PTX va' \<longleftrightarrow> PGROUNDDOWN va = PGROUNDDOWN va'"
proof -
  have "unat va div 4096 = unat va' div 4096 \<longleftrightarrow>
      unat va div 4096 div 1024 = unat va' div 4096 div 1024 \<and>
      unat va div 4096 mod 1024 = unat va' div 4096 mod 1024"
    by (metis div_mult_mod_eq)
  then show ?thesis
    by (auto simp: word_unat_eq_iff unat_PDX unat_PTX PGROUNDDOWN_unat div_mult2_eq [symmetric])
qed

lemma slot_in_page:
  assumes "p mod 4096 = 0" "k < 1024" "i < 4"
  shows "unat (slot p k + word_of_nat i) div 4096 = unat p div 4096"
  using aligned_word_page [OF assms(1), of "4 * k + i"] assms(2,3)
  by (simp add: slot_def add.assoc)

lemma store_slot_confined:
  assumes "p mod 4096 = 0" "k < 1024" "\<not> x - p < 4096"
  shows "store32 m (slot p k) v x = m x"
proof -
  have "x \<noteq> slot p k + word_of_nat i" if "i < 4" for i
    using slot_in_page [OF assms(1,2) that] assms(3) in_page_iff [OF assms(1), of x] by auto
  from this [of 0] this [of 1] this [of 2] this [of 3] show ?thesis by (simp add: store32_def)
qed

lemma load_slot_other_page:
  assumes "p mod 4096 = 0" "q mod 4096 = 0" "p \<noteq> q" "j < 1024"
    and "\<And>x. \<not> x - p < 4096 \<Longrightarrow> m' x = m x"
  shows "load32 m' (slot q j) = load32 m (slot q j)"
  using load32_other_page [OF assms(1-3), of "4 * j" m' m] assms(4,5) by (simp add: slot_def)

lemma load_slot_other:
  assumes "p mod 4096 = 0" "k < 1024" "j < 1024" "k \<noteq> j"
  shows "load32 (store32 m (slot p k) v) (slot p j) = load32 m (slot p j)"
proof -
  have ne: "slot p j + word_of_nat b \<noteq> slot p k + word_of_nat a" if "a < 4" "b < 4" for a b
  proof
    assume "slot p j + word_of_nat b = slot p k + word_of_nat a"
    then have "unat (p + word_of_nat (4 * j + b)) = unat (p + word_of_nat (4 * k + a))"
      by (simp add: slot_def add.assoc)
    then have "4 * j + b = 4 * k + a"
      using unat_page_add [OF assms(1), of "4 * j + b"] unat_page_add [OF assms(1), of "4 * k + a"]
        assms that by linarith
    with that assms(4) show False by presburger
  qed
  have "store32 m (slot p k) v (slot p j + word_of_nat b) = m (slot p j + word_of_nat b)"
    if "b < 4" for b
    using ne [OF _ that, of 0] ne [OF _ that, of 1] ne [OF _ that, of 2] ne [OF _ that, of 3]
    by (simp add: store32_def)
  from this [of 0] this [of 1] this [of 2] this [of 3] show ?thesis by (simp add: load32_def)
qed

lemma load_slot_zeroed:
  assumes "p mod 4096 = 0" "k < 1024"
  shows "load32 (memset m p 0 PGSIZE) (slot p k) = 0"
proof -
  have "slot p k + word_of_nat i - p < 4096" if "i < 4" for i
    using slot_in_page [OF assms that] in_page_iff [OF assms(1)] by simp
  from this [of 0] this [of 1] this [of 2] this [of 3] show ?thesis
    by (simp add: load32_def memset_apply PGSIZE_def)
qed

section \<open>Well-formed page tables\<close>

text \<open>
  \<open>pde\<close> and \<open>pt_page\<close> read a directory; \<open>pte_at\<close> is the entry that the processor finds for
  an address, 0 where there is no table.
\<close>

definition pde :: "mem \<Rightarrow> u32 \<Rightarrow> nat \<Rightarrow> u32" where
  "pde m pd k = load32 m (slot pd k)"

definition pt_page :: "mem \<Rightarrow> u32 \<Rightarrow> nat \<Rightarrow> u32" where
  "pt_page m pd k = P2V (PTE_ADDR (pde m pd k))"

definition present :: "mem \<Rightarrow> u32 \<Rightarrow> nat \<Rightarrow> bool" where
  "present m pd k \<longleftrightarrow> pde m pd k AND PTE_P \<noteq> 0"

definition pte_at :: "mem \<Rightarrow> u32 \<Rightarrow> u32 \<Rightarrow> u32" where
  "pte_at m pd va =
     (if present m pd (unat (PDX va)) then load32 m (slot (pt_page m pd (unat (PDX va))) (unat (PTX va)))
      else 0)"

text \<open>
  A page table is well formed when the directory and its tables are different allocated
  pages, none of them on the free list.
\<close>

definition vm_ok :: "'z kmem_st_scheme \<Rightarrow> u32 list \<Rightarrow> u32 \<Rightarrow> bool" where
  "vm_ok s ps pd \<longleftrightarrow> kmem_inv s ps \<and> page_ok s pd \<and> pd \<notin> set ps \<and>
     (\<forall>k<1024. present (memory s) pd k \<longrightarrow>
        page_ok s (pt_page (memory s) pd k) \<and> pt_page (memory s) pd k \<notin> set ps \<and>
        pt_page (memory s) pd k \<noteq> pd) \<and>
     (\<forall>k<1024. \<forall>j<1024. present (memory s) pd k \<and> present (memory s) pd j \<and>
        pt_page (memory s) pd k = pt_page (memory s) pd j \<longrightarrow> k = j)"

lemma page_ok_memory [simp]:
  "page_ok (s\<lparr>memory := m\<rparr>) p = page_ok s p" "page_ok (s\<lparr>freelist := r\<rparr>) p = page_ok s p"
  by (simp_all add: page_ok_def)

text \<open>Changes confined to a page that is not free keep the free list.\<close>

lemma kmem_inv_frame:
  assumes "kmem_inv s ps" "p mod 4096 = 0" "p \<notin> set ps" "\<And>x. \<not> x - p < 4096 \<Longrightarrow> m x = memory s x"
  shows "kmem_inv (s\<lparr>memory := m\<rparr>) ps"
proof -
  have "load32 m q = load32 (memory s) q" if "q \<in> set ps" for q
  proof -
    have "q mod 4096 = 0" using assms(1) that by (auto simp: kmem_inv_def page_ok_aligned)
    with assms that show ?thesis using load32_other_page [of p q 0 m "memory s"] by auto
  qed
  with assms(1) free_chain_frame [of "memory s" _ ps m] show ?thesis by (auto simp: kmem_inv_def)
qed

text \<open>Writing an entry of a table.\<close>

lemma store_pte:
  assumes ok: "vm_ok s ps pd" and i: "i < 1024" and j: "j < 1024"
    and pr: "present (memory s) pd i"
    and m'_def: "m' = store32 (memory s) (slot (pt_page (memory s) pd i) j) v"
  shows "vm_ok (s\<lparr>memory := m'\<rparr>) ps pd"
    and "pte_at m' pd va = (if unat (PDX va) = i \<and> unat (PTX va) = j then v else pte_at (memory s) pd va)"
proof -
  let ?p = "pt_page (memory s) pd i"
  have p: "?p mod 4096 = 0" "?p \<notin> set ps" "?p \<noteq> pd" and pd: "pd mod 4096 = 0"
    using ok pr i by (auto simp: vm_ok_def page_ok_aligned)
  have conf: "m' x = memory s x" if "\<not> x - ?p < 4096" for x
    unfolding m'_def using store_slot_confined [OF p(1) j that] .
  have pde: "pde m' pd k = pde (memory s) pd k" if "k < 1024" for k
    unfolding pde_def using load_slot_other_page [OF p(1) pd p(3) that conf] .
  then have same: "present m' pd k = present (memory s) pd k" "pt_page m' pd k = pt_page (memory s) pd k"
    if "k < 1024" for k using that by (simp_all add: present_def pt_page_def)
  have "kmem_inv (s\<lparr>memory := m'\<rparr>) ps"
    using ok p conf by (intro kmem_inv_frame [of s ps ?p]) (auto simp: vm_ok_def)
  with ok same show "vm_ok (s\<lparr>memory := m'\<rparr>) ps pd" by (simp add: vm_ok_def)
  show "pte_at m' pd va = (if unat (PDX va) = i \<and> unat (PTX va) = j then v else pte_at (memory s) pd va)"
  proof (cases "present (memory s) pd (unat (PDX va))")
    case True
    let ?q = "pt_page (memory s) pd (unat (PDX va))"
    have at: "pte_at m' pd va = load32 m' (slot ?q (unat (PTX va)))"
      "pte_at (memory s) pd va = load32 (memory s) (slot ?q (unat (PTX va)))"
      using True same [OF PDX_less [of va]] by (simp_all add: pte_at_def)
    show ?thesis
    proof (cases "unat (PDX va) = i")
      case True
      then show ?thesis
        using at load_slot_other [OF p(1) j PTX_less [of va]] by (auto simp: m'_def)
    next
      case False
      then have "?p \<noteq> ?q" "?q mod 4096 = 0"
        using ok True pr i PDX_less [of va] by (auto simp: vm_ok_def page_ok_aligned)
      from load_slot_other_page [OF p(1) this(2,1) PTX_less conf] False at show ?thesis by simp
    qed
  qed (use same [OF PDX_less [of va]] pr in \<open>auto simp: pte_at_def\<close>)
qed

lemma aligned_low_bits: "p mod 4096 = 0 \<longleftrightarrow> (\<forall>n<12. \<not> bit p n)" for p :: u32
proof -
  have "p mod 4096 = 0 \<longleftrightarrow> take_bit 12 p = 0" by (simp add: take_bit_eq_mod)
  also have "\<dots> \<longleftrightarrow> (\<forall>n<12. \<not> bit p n)"
    by (auto simp: bit_eq_iff bit_simps)
  finally show ?thesis .
qed

lemma aligned_diff: "p mod 4096 = 0 \<Longrightarrow> q mod 4096 = 0 \<Longrightarrow> (p - q) mod 4096 = 0" for p q :: u32
proof -
  assume "p mod 4096 = 0" "q mod 4096 = 0"
  then have "4096 dvd unat p" "4096 dvd unat q" by (simp_all add: unat_aligned mod_eq_0_iff_dvd)
  then have "4096 dvd unat (p - q)" by (auto simp: unat_sub_if_size word_size)
  then show ?thesis by (simp add: unat_aligned mod_eq_0_iff_dvd)
qed

lemma V2P_aligned: "p mod 4096 = 0 \<Longrightarrow> V2P p mod 4096 = 0"
  unfolding V2P_def by (rule aligned_diff) (simp_all add: KERNBASE_def)

text \<open>An entry made of an aligned address and flags gives both back.\<close>

lemma PTE_ADDR_flags:
  assumes "a mod 4096 = 0" "f < 4096"
  shows "PTE_ADDR (a OR f) = a" "PTE_FLAGS (a OR f) = f"
proof -
  have a: "\<not> bit a n" if "n < 12" for n using assms(1) that by (simp add: aligned_low_bits)
  have "take_bit 12 f = f"
    using assms(2)
    by (simp add: take_bit_eq_mod word_unat_eq_iff unat_mod_distrib word_less_nat_alt)
  then have f: "\<not> bit f n" if "12 \<le> n" for n using that by (metis bit_take_bit_iff not_le)
  have m: "(0xFFF :: u32) = mask 12" by (simp add: mask_eq_exp_minus_1)
  show "PTE_ADDR (a OR f) = a"
    unfolding PTE_ADDR_def m by (rule bit_word_eqI) (use a f in \<open>auto simp: bit_simps\<close>)
  show "PTE_FLAGS (a OR f) = f"
    unfolding PTE_FLAGS_def m by (rule bit_word_eqI) (use a f in \<open>auto simp: bit_simps simp flip: not_le\<close>)
qed

lemma pt_page_entry: "p mod 4096 = 0 \<Longrightarrow> P2V (PTE_ADDR (V2P p OR PTE_P OR PTE_W OR PTE_U)) = p"
  using PTE_ADDR_flags(1) [OF V2P_aligned, of p "PTE_P OR PTE_W OR PTE_U"]
  by (simp add: P2V_def V2P_def PTE_P_def PTE_W_def PTE_U_def or.assoc)

lemma OR_PTE_P: "(a OR PTE_P OR b) AND PTE_P \<noteq> 0" "(a OR b OR PTE_P) AND PTE_P \<noteq> 0" for a b :: u32
proof -
  have "bit ((a OR 1 OR b) AND 1) 0" "bit ((a OR b OR 1) AND 1) 0" by (simp_all add: bit_simps)
  then show "(a OR PTE_P OR b) AND PTE_P \<noteq> 0" "(a OR b OR PTE_P) AND PTE_P \<noteq> 0"
    unfolding PTE_P_def by (metis bit_0_eq bot_apply bot_bool_def)+
qed

text \<open>\<open>walkpgdir\<close> adds an empty table to the directory: no translation changes.\<close>

lemma new_table:
  assumes ok: "vm_ok s (p # ps) pd" and k: "k < 1024" "\<not> present (memory s) pd k"
    and m: "m = store32 (memset (memory s) p 0 PGSIZE) (slot pd k) (V2P p OR PTE_P OR PTE_W OR PTE_U)"
  shows "vm_ok ((snd (kalloc s))\<lparr>memory := m\<rparr>) ps pd" "present m pd k" "pt_page m pd k = p"
    "pte_at m pd va = pte_at (memory s) pd va"
proof -
  define m0 where "m0 = memset (memory s) p 0 PGSIZE"
  have p: "p mod 4096 = 0" "page_ok s p" "p \<notin> set ps" "p \<noteq> pd"
    and pd: "pd mod 4096 = 0" "pd \<notin> set ps"
    using ok by (auto simp: vm_ok_def kmem_inv_def page_ok_aligned)
  have c0: "m0 x = memory s x" if "\<not> x - p < 4096" for x
    using that by (simp add: m0_def memset_apply PGSIZE_def)
  have c1: "m x = m0 x" if "\<not> x - pd < 4096" for x
    using store_slot_confined [OF pd(1) k(1) that] by (simp add: m m0_def)
  have pdek: "pde m pd k = V2P p OR PTE_P OR PTE_W OR PTE_U" by (simp add: m pde_def)
  have pdej: "pde m pd j = pde (memory s) pd j" if "j < 1024" "j \<noteq> k" for j
    unfolding pde_def m using load_slot_other [OF pd(1) k(1) that(1)] that
      load_slot_other_page [OF p(1) pd(1) p(4) that(1) c0] by (auto simp: m0_def)
  show pr: "present m pd k" and pk: "pt_page m pd k = p"
    using OR_PTE_P(1) p(1) by (simp_all add: present_def pdek pt_page_def pt_page_entry)
  have other: "present m pd j = present (memory s) pd j" "pt_page m pd j = pt_page (memory s) pd j"
    if "j < 1024" "j \<noteq> k" for j using that pdej by (simp_all add: present_def pt_page_def)
  have "kmem_inv ((snd (kalloc s))\<lparr>memory := m0\<rparr>) ps"
    using ok p c0 kalloc_pops [of s p ps]
    by (intro kmem_inv_frame [of "snd (kalloc s)" ps p]) (auto simp: vm_ok_def)
  then have inv: "kmem_inv ((snd (kalloc s))\<lparr>memory := m\<rparr>) ps"
    using kmem_inv_frame [of "(snd (kalloc s))\<lparr>memory := m0\<rparr>" ps pd m] pd c1 by simp
  have pok: "page_ok (snd (kalloc s)) = page_ok s" by (rule kpool.valid_alloc)
  have old: "pt_page (memory s) pd j \<noteq> p" if "j < 1024" "present (memory s) pd j" for j
    using ok that by (auto simp: vm_ok_def)
  show "vm_ok ((snd (kalloc s))\<lparr>memory := m\<rparr>) ps pd"
    unfolding vm_ok_def
  proof (intro conjI allI impI)
    fix j assume "j < 1024" "present (memory ((snd (kalloc s))\<lparr>memory := m\<rparr>)) pd j"
    then show "page_ok ((snd (kalloc s))\<lparr>memory := m\<rparr>) (pt_page (memory ((snd (kalloc s))\<lparr>memory := m\<rparr>)) pd j)"
      "pt_page (memory ((snd (kalloc s))\<lparr>memory := m\<rparr>)) pd j \<notin> set ps"
      "pt_page (memory ((snd (kalloc s))\<lparr>memory := m\<rparr>)) pd j \<noteq> pd"
      using ok p other [of j] pk pok by (cases "j = k"; auto simp: vm_ok_def)+
  next
    fix i j assume "i < 1024" "j < 1024" "present (memory ((snd (kalloc s))\<lparr>memory := m\<rparr>)) pd i \<and>
      present (memory ((snd (kalloc s))\<lparr>memory := m\<rparr>)) pd j \<and>
      pt_page (memory ((snd (kalloc s))\<lparr>memory := m\<rparr>)) pd i =
      pt_page (memory ((snd (kalloc s))\<lparr>memory := m\<rparr>)) pd j"
    then show "i = j"
      using ok other [of i] other [of j] pk old [of i] old [of j]
      by (cases "i = k"; cases "j = k") (auto simp: vm_ok_def)
  qed (use ok inv pok pd in \<open>auto simp: vm_ok_def\<close>)
  show "pte_at m pd va = pte_at (memory s) pd va"
  proof (cases "unat (PDX va) = k")
    case True
    have "load32 m (slot p (unat (PTX va))) = load32 m0 (slot p (unat (PTX va)))"
      using load_slot_other_page [OF pd(1) p(1) p(4) [symmetric] PTX_less c1] .
    with True k(2) pr pk load_slot_zeroed [OF p(1) PTX_less] show ?thesis
      by (simp add: pte_at_def m0_def)
  next
    case False
    let ?q = "pt_page (memory s) pd (unat (PDX va))"
    have "load32 m (slot ?q (unat (PTX va))) = load32 (memory s) (slot ?q (unat (PTX va)))"
      if "present (memory s) pd (unat (PDX va))"
    proof -
      have q: "?q mod 4096 = 0" "pd \<noteq> ?q" "p \<noteq> ?q"
        using ok that PDX_less [of va] by (auto simp: vm_ok_def page_ok_aligned)
      show ?thesis
        using load_slot_other_page [OF pd(1) q(1,2) PTX_less c1]
          load_slot_other_page [OF p(1) q(1,3) PTX_less c0] by simp
    qed
    with False other [OF PDX_less [of va]] show ?thesis by (simp add: pte_at_def)
  qed
qed

lemma pte_address_nonzero:
  assumes "page_ok s p" "k < 1024"
  shows "slot p k \<noteq> 0"
proof -
  have "unat (slot p k) = unat p + 4 * k"
    using unat_page_add [OF page_ok_aligned [OF assms(1)], of "4 * k"] assms(2) by (simp add: slot_def)
  with page_ok_nonzero [OF assms(1)] show ?thesis by (metis add_is_0 unat_eq_zero)
qed

lemma walkpgdir_alloc:
  assumes ok: "vm_ok s ps pd"
  shows "\<exists>pte s' ps'. walkpgdir s pd va True = (pte, s') \<and> vm_ok s' ps' pd \<and>
    (\<forall>a. pte_at (memory s') pd a = pte_at (memory s) pd a) \<and>
    length ps \<le> Suc (length ps') \<and>
    (if pte = 0 then ps = [] \<and> ps' = [] else present (memory s') pd (unat (PDX va)) \<and>
       pte = slot (pt_page (memory s') pd (unat (PDX va))) (unat (PTX va)))"
proof (cases "present (memory s) pd (unat (PDX va))")
  case True
  then have "walkpgdir s pd va True =
      (slot (pt_page (memory s) pd (unat (PDX va))) (unat (PTX va)), s)"
    by (simp add: walkpgdir_def Let_def slot_word present_def pde_def pt_page_def)
  moreover have "slot (pt_page (memory s) pd (unat (PDX va))) (unat (PTX va)) \<noteq> 0"
    using ok True PDX_less [of va] PTX_less [of va] pte_address_nonzero by (auto simp: vm_ok_def)
  ultimately show ?thesis using ok True by auto
next
  case False
  show ?thesis
  proof (cases ps)
    case Nil
    with ok False have "walkpgdir s pd va True = (0, s)"
      by (simp add: walkpgdir_def Let_def slot_word present_def pde_def vm_ok_def kalloc_empty)
    with ok Nil show ?thesis by auto
  next
    case (Cons p qs)
    note ok' = ok [unfolded Cons]
    have kal: "fst (kalloc s) = p" "memory (snd (kalloc s)) = memory s" and p: "page_ok s p"
      using ok' kalloc_pops [of s p qs] by (auto simp: vm_ok_def kmem_inv_def)
    define m where "m = store32 (memset (memory s) p 0 PGSIZE) (slot pd (unat (PDX va)))
      (V2P p OR PTE_P OR PTE_W OR PTE_U)"
    have "walkpgdir s pd va True = (slot p (unat (PTX va)), (snd (kalloc s))\<lparr>memory := m\<rparr>)"
      using False kal page_ok_nonzero [OF p]
      by (cases "kalloc s") (simp add: walkpgdir_def slot_word present_def pde_def m_def)
    moreover have "slot p (unat (PTX va)) \<noteq> 0" using pte_address_nonzero [OF p PTX_less] .
    moreover have "length ps \<le> Suc (length qs)" using Cons by simp
    ultimately show ?thesis using new_table [OF ok' PDX_less False m_def] by auto
  qed
qed

lemma pte_at_update:
  assumes ok: "vm_ok s ps pd" and pr: "present (memory s) pd (unat (PDX va))"
    and m: "m = store32 (memory s) (slot (pt_page (memory s) pd (unat (PDX va))) (unat (PTX va))) v"
  shows "vm_ok (s\<lparr>memory := m\<rparr>) ps pd"
    and "pte_at m pd a = (if PGROUNDDOWN a = PGROUNDDOWN va then v else pte_at (memory s) pd a)"
  using store_pte [OF ok PDX_less PTX_less pr m] same_indices [of a va]
  by (auto simp: unsigned_word_eqI)

text \<open>One round of the loop of \<open>mappages\<close>, and then the loop.\<close>

lemma mappages_round:
  assumes ok: "vm_ok s ps pd" and free: "pte_at (memory s) pd a AND PTE_P = 0"
    and w: "walkpgdir s pd a True = (pte, s1)" and "pte \<noteq> 0"
    and s2_def: "s2 = s1\<lparr>memory := store32 (memory s1) pte v\<rparr>"
  shows "load32 (memory s1) pte AND PTE_P = 0" "\<exists>qs. vm_ok s2 qs pd \<and> length ps \<le> Suc (length qs)"
    "pte_at (memory s2) pd x = (if PGROUNDDOWN x = PGROUNDDOWN a then v else pte_at (memory s) pd x)"
proof -
  from walkpgdir_alloc [OF ok, of a] w \<open>pte \<noteq> 0\<close> obtain qs where ok1: "vm_ok s1 qs pd" "length ps \<le> Suc (length qs)"
    and same: "\<And>a. pte_at (memory s1) pd a = pte_at (memory s) pd a"
    and pr: "present (memory s1) pd (unat (PDX a))"
    and pte: "pte = slot (pt_page (memory s1) pd (unat (PDX a))) (unat (PTX a))"
    by auto
  show "load32 (memory s1) pte AND PTE_P = 0"
    using free pr same [of a] by (simp add: pte pte_at_def)
  note upd = pte_at_update [OF ok1(1) pr refl, of v]
  from upd(1) ok1(2) show "\<exists>qs. vm_ok s2 qs pd \<and> length ps \<le> Suc (length qs)"
    by (auto simp: s2_def pte)
  from upd(2) [of x] same show "pte_at (memory s2) pd x =
    (if PGROUNDDOWN x = PGROUNDDOWN a then v else pte_at (memory s) pd x)" by (simp add: s2_def pte)
qed

text \<open>The pages \<open>a\<close>, \<open>a + PGSIZE\<close>, \dots: \<open>n\<close> more after the first.\<close>

definition in_run :: "u32 \<Rightarrow> nat \<Rightarrow> u32 \<Rightarrow> bool" where
  "in_run a n x \<longleftrightarrow> PGROUNDDOWN x - a \<le> 4096 * word_of_nat n"

lemma in_run_0: "in_run a 0 x \<longleftrightarrow> PGROUNDDOWN x = a"
  by (auto simp: in_run_def)

lemma in_run_Suc:
  assumes "a mod 4096 = 0" "Suc n < 2 ^ 20"
  shows "in_run a (Suc n) x \<longleftrightarrow> PGROUNDDOWN x = a \<or> in_run (a + PGSIZE) n x"
    and "in_run (a + PGSIZE) n x \<Longrightarrow> PGROUNDDOWN x \<noteq> a"
proof -
  obtain k where k: "unat (PGROUNDDOWN x - a) = 4096 * k"
    using aligned_diff [OF PGROUNDDOWN_aligned assms(1), of x]
    by (auto simp: unat_aligned mod_eq_0_iff_dvd elim: dvdE)
  have "unat (PGROUNDDOWN x - a) < 2 ^ 32"
    using unsigned_less [of "PGROUNDDOWN x - a", where ?'a = nat] by simp
  then have lt: "k < 2 ^ 20" using k by simp
  have n: "unat (4096 * word_of_nat n :: u32) = 4096 * n"
    "unat (4096 * word_of_nat (Suc n) :: u32) = 4096 * Suc n"
    using assms(2) by (simp_all add: unat_word_ariths unat_of_nat)
  have d: "PGROUNDDOWN x - (a + PGSIZE) = (PGROUNDDOWN x - a) - 4096"
    by (simp add: PGSIZE_def)
  have u: "unat ((PGROUNDDOWN x - a) - 4096) = (if k = 0 then 2 ^ 32 - 4096 else 4096 * (k - 1))"
    using k lt by (auto simp: unat_sub_if_size word_size diff_mult_distrib2)
  have z: "PGROUNDDOWN x = a \<longleftrightarrow> k = 0"
    using k by (metis eq_iff_diff_eq_0 mult_is_0 unat_eq_zero zero_neq_numeral)
  show "in_run a (Suc n) x \<longleftrightarrow> PGROUNDDOWN x = a \<or> in_run (a + PGSIZE) n x"
    unfolding in_run_def d word_le_nat_alt n u k z using assms(2) by (cases k) auto
  show "in_run (a + PGSIZE) n x \<Longrightarrow> PGROUNDDOWN x \<noteq> a"
    unfolding in_run_def d word_le_nat_alt n u z using assms(2) by (auto split: if_splits)
qed

lemma mappages_loop_spec:
  assumes "vm_ok s ps pd" "a mod 4096 = 0" "n < 2 ^ 20"
    and "\<And>x. in_run a n x \<Longrightarrow> pte_at (memory s) pd x AND PTE_P = 0"
  shows "\<exists>r s' ps'. mappages_loop n pd a pa perm s = Ok (r, s') \<and> vm_ok s' ps' pd \<and>
    (r = 0 \<or> r = -1 \<and> ps' = [] \<and> length ps \<le> n) \<and>
    (\<forall>x. \<not> in_run a n x \<longrightarrow> pte_at (memory s') pd x = pte_at (memory s) pd x) \<and>
    (r = 0 \<longrightarrow> (\<forall>x. in_run a n x \<longrightarrow>
       pte_at (memory s') pd x = (pa + (PGROUNDDOWN x - a)) OR perm OR PTE_P))"
  using assms
proof (induction n arbitrary: s ps a pa)
  case 0
  have ra: "PGROUNDDOWN a = a" using page_offset(1) [of a] 0(2) by simp
  obtain pte s1 qs where w: "walkpgdir s pd a True = (pte, s1)" "vm_ok s1 qs pd"
    "\<And>x. pte_at (memory s1) pd x = pte_at (memory s) pd x" "pte = 0 \<longrightarrow> ps = [] \<and> qs = []"
    using walkpgdir_alloc [OF 0(1), of a] by auto
  show ?case
  proof (cases "pte = 0")
    case False
    note round = mappages_round [OF 0(1) 0(4) w(1) False refl]
    from round(2) [of "pa OR perm OR PTE_P"] obtain rs where
      "vm_ok (s1\<lparr>memory := store32 (memory s1) pte (pa OR perm OR PTE_P)\<rparr>) rs pd" by (auto simp: in_run_0 ra)
    with 0(4) [of a] round(1,3) w(1) False ra show ?thesis by (auto simp: in_run_0)
  qed (use w in auto)
next
  case (Suc n)
  have ra: "PGROUNDDOWN a = a" using page_offset(1) [of a] Suc.prems(2) by simp
  note run = in_run_Suc [OF Suc.prems(2,3)]
  obtain pte s1 qs where w: "walkpgdir s pd a True = (pte, s1)" "vm_ok s1 qs pd"
    "\<And>x. pte_at (memory s1) pd x = pte_at (memory s) pd x" "pte = 0 \<longrightarrow> ps = [] \<and> qs = []"
    using walkpgdir_alloc [OF Suc.prems(1), of a] by auto
  show ?case
  proof (cases "pte = 0")
    case False
    have free: "pte_at (memory s) pd a AND PTE_P = 0" using Suc.prems(4) run(1) ra by blast
    define s2 where "s2 = s1\<lparr>memory := store32 (memory s1) pte (pa OR perm OR PTE_P)\<rparr>"
    note round = mappages_round [OF Suc.prems(1) free w(1) False s2_def, unfolded ra]
    from round(2) obtain rs where rs: "vm_ok s2 rs pd" "length ps \<le> Suc (length rs)" by blast
    have al: "(a + PGSIZE) mod 4096 = 0"
      using aligned_diff [OF Suc.prems(2), of "- 4096"] by (simp add: PGSIZE_def)
    have "pte_at (memory s2) pd x AND PTE_P = 0" if "in_run (a + PGSIZE) n x" for x
      using that run round(3) [of x] Suc.prems(4) by auto
    from Suc.IH [OF rs(1) al _ this, of "pa + PGSIZE"] Suc.prems(3)
    obtain r s' ps' where IH: "mappages_loop n pd (a + PGSIZE) (pa + PGSIZE) perm s2 = Ok (r, s')"
      "vm_ok s' ps' pd" "r = 0 \<or> r = -1 \<and> ps' = [] \<and> length rs \<le> n"
      "\<And>x. \<not> in_run (a + PGSIZE) n x \<Longrightarrow> pte_at (memory s') pd x = pte_at (memory s2) pd x"
      "\<And>x. r = 0 \<Longrightarrow> in_run (a + PGSIZE) n x \<Longrightarrow> pte_at (memory s') pd x =
         (pa + PGSIZE + (PGROUNDDOWN x - (a + PGSIZE))) OR perm OR PTE_P"
      by auto
    have "mappages_loop (Suc n) pd a pa perm s = Ok (r, s')"
      using w(1) False round(1) IH(1) by (simp add: s2_def)
    moreover have "pte_at (memory s') pd x = pte_at (memory s) pd x" if "\<not> in_run a (Suc n) x" for x
      using that run(1) IH(4) round(3) by auto
    moreover have "pte_at (memory s') pd x = (pa + (PGROUNDDOWN x - a)) OR perm OR PTE_P"
      if "r = 0" "in_run a (Suc n) x" for x
      using that run(1) [of x] IH(4) [of x] IH(5) [of x] round(3) [of x]
      by (cases "in_run (a + PGSIZE) n x") auto
    moreover have "r = 0 \<or> r = -1 \<and> ps' = [] \<and> length ps \<le> Suc n" using IH(3) rs(2) by auto
    ultimately show ?thesis using IH(2) by blast
  qed (use w in auto)
qed

text \<open>The pages that hold the \<open>len\<close> bytes at \<open>va\<close>, counted from the first.\<close>

definition in_range :: "u32 \<Rightarrow> u32 \<Rightarrow> u32 \<Rightarrow> bool" where
  "in_range va len x \<longleftrightarrow>
     PGROUNDDOWN x - PGROUNDDOWN va \<le> PGROUNDDOWN (va + len - 1) - PGROUNDDOWN va"

text \<open>
  C10.  \<open>mappages\<close> on a well-formed page table and a range none of whose pages is mapped does
  not panic.  It keeps the table well formed and every translation outside the range; when
  it returns 0, every page of the range is mapped, with the permissions, to the physical
  pages that start at \<open>pa\<close>.  It returns -1 only when the free pages run out, which cannot
  happen when there is one free page for every page of the range.
\<close>

theorem mappages_maps_range:
  assumes ok: "vm_ok s ps pd"
    and free: "\<And>x. in_range va len x \<Longrightarrow> pte_at (memory s) pd x AND PTE_P = 0"
  shows "\<exists>r s' ps'. mappages s pd va len pa perm = Ok (r, s') \<and> vm_ok s' ps' pd \<and>
    (\<forall>x. pte_at (memory s') pd x \<noteq> pte_at (memory s) pd x \<longrightarrow> in_range va len x) \<and>
    (if r = 0 then \<forall>x. in_range va len x \<longrightarrow>
       pte_at (memory s') pd x = (pa + (PGROUNDDOWN x - PGROUNDDOWN va)) OR perm OR PTE_P
     else r = -1 \<and> ps' = [] \<and>
       length ps \<le> unat ((PGROUNDDOWN (va + len - 1) - PGROUNDDOWN va) div PGSIZE))"
proof -
  let ?d = "PGROUNDDOWN (va + len - 1) - PGROUNDDOWN va"
  let ?n = "unat (?d div PGSIZE)"
  have al: "?d mod 4096 = 0" by (intro aligned_diff PGROUNDDOWN_aligned)
  have "unat ?d < 2 ^ 32" using unsigned_less [of ?d, where ?'a = nat] by simp
  then have n: "?n < 2 ^ 20" by (simp add: PGSIZE_def unat_div_distrib)
  have "4096 * (?d div 4096) = ?d" using al mult_div_mod_eq [of 4096 ?d] by (metis add.right_neutral)
  then have run: "in_run (PGROUNDDOWN va) ?n x = in_range va len x" for x
    unfolding in_run_def in_range_def by (simp add: PGSIZE_def)
  from mappages_loop_spec [OF ok PGROUNDDOWN_aligned n, of va pa perm, unfolded run, OF free]
  obtain r s' ps' where "mappages s pd va len pa perm = Ok (r, s')" "vm_ok s' ps' pd"
    "r = 0 \<or> r = -1 \<and> ps' = [] \<and> length ps \<le> ?n"
    "\<forall>x. \<not> in_range va len x \<longrightarrow> pte_at (memory s') pd x = pte_at (memory s) pd x"
    "r = 0 \<longrightarrow> (\<forall>x. in_range va len x \<longrightarrow>
       pte_at (memory s') pd x = (pa + (PGROUNDDOWN x - PGROUNDDOWN va)) OR perm OR PTE_P)"
    unfolding mappages_def Let_def by blast
  then show ?thesis by (intro exI [of _ r] exI [of _ s'] exI [of _ ps']) auto
qed

lemma two_pages_empty:
  assumes "k < 1024"
  shows "\<not> present (memory two_pages) 0x80202000 k"
proof -
  have conf: "memory two_pages x = 0" if "\<not> x - 0x80200000 < 4096" for x
    using store_slot_confined [of "0x80200000" 0 x "\<lambda>_. 0"] that
    by (simp add: slot_def two_pages_def)
  have "load32 (memory two_pages) (slot 0x80202000 k) = load32 (\<lambda>_. 0) (slot 0x80202000 k)"
    using assms conf by (intro load_slot_other_page [of "0x80200000"]) simp_all
  then show ?thesis by (simp add: present_def pde_def load32_def)
qed

lemma two_pages_vm: "vm_ok two_pages [0x80200000, 0x80201000] 0x80202000"
proof -
  have "page_ok two_pages 0x80202000"
    by (simp add: page_ok_def two_pages_def PGSIZE_def V2P_def KERNBASE_def PHYSTOP_def)
  then show ?thesis using two_pages_inv two_pages_empty by (simp add: vm_ok_def)
qed

theorem mappages_maps_range_witness:
  "\<exists>s'. mappages two_pages 0x80202000 0x1000 0x1000 0x300000 6 = Ok (0, s') \<and>
    pte_at (memory s') 0x80202000 0x1234 = 0x300007"
proof -
  have "pte_at (memory two_pages) 0x80202000 x AND PTE_P = 0" for x
    using two_pages_empty by (simp add: pte_at_def PDX_less)
  with mappages_maps_range [OF two_pages_vm, of "0x1000" "0x1000" "0x300000" 6]
  obtain r s' where "mappages two_pages 0x80202000 0x1000 0x1000 0x300000 6 = Ok (r, s')"
    and "if r = 0 then \<forall>x. in_range 0x1000 0x1000 x \<longrightarrow> pte_at (memory s') 0x80202000 x =
       (0x300000 + (PGROUNDDOWN x - PGROUNDDOWN 0x1000)) OR 6 OR PTE_P
     else length [0x80200000, 0x80201000 :: u32] \<le>
       unat ((PGROUNDDOWN (0x1000 + 0x1000 - 1) - PGROUNDDOWN 0x1000) div PGSIZE)"
    by (auto split: if_splits)
  moreover have "PGROUNDDOWN 0x1000 = 0x1000" "PGROUNDDOWN 0x1234 = 0x1000" "PGROUNDDOWN 0x1FFF = 0x1000"
    by (simp_all add: PGROUNDDOWN_def PGSIZE_def)
  ultimately show ?thesis
    by (auto simp: in_range_def PTE_P_def split: if_splits)
qed

end
