(* ===== verification/Proc.thy ===== *)
theory Proc
  imports Vm
begin

text \<open>
  The process table of \<^verbatim>\<open>proc.c\<close> and \<^verbatim>\<open>proc.h\<close>: \<open>struct proc\<close>, \<open>allocproc\<close>, the scheduler and
  the operations that change only the table (\<open>sched\<close>, \<open>yield\<close>, \<open>sleep\<close>, \<open>wakeup\<close>, \<open>kill\<close>,
  the MLFQ and stride bookkeeping).  Processes are named by their index in \<open>ptable.proc\<close>.
  The state is that of one CPU: \<open>cur\<close> is \<open>mycpu()->proc\<close>, and \<open>ptable_held\<close> says whether
  the running code holds \<open>ptable.lock\<close> (taking it twice panics, as in \<open>acquire\<close>).  Trap frames
  and saved contexts live in \<open>memory\<close>, on the kernel stack, as in the source.

  The floats \<open>pass\<close> and \<open>stride\<close> only ever hold differences and integer quotients, and are
  modelled as integers.
\<close>

section \<open>Processes\<close>

datatype procstate = UNUSED | EMBRYO | SLEEPING | RUNNABLE | RUNNING | ZOMBIE

definition NPROC :: nat where "NPROC = 64"
definition NOFILE :: nat where "NOFILE = 16"

record proc =
  p_sz :: u32
  p_pgdir :: u32
  p_kstack :: u32
  p_state :: procstate
  p_pid :: int
  p_parent :: "nat option"
  p_tf :: u32                    \<comment> \<open>address of the trap frame\<close>
  p_context :: u32               \<comment> \<open>address of the saved context\<close>
  p_chan :: "chan option"
  p_killed :: bool
  p_ofile :: "nat option list"   \<comment> \<open>indices of the file table\<close>
  p_cwd :: "nat option"          \<comment> \<open>index of the inode cache\<close>
  p_name :: "byte list"
  qLevel :: int
  runTime :: nat
  round :: int
  quantumtick :: int
  checkMLFQ :: int
  pass :: int
  stride :: int
  myPortion :: int
  havet :: int
  main_thread :: "nat option"
  t_flag :: int
  tid :: int
  retval :: u32
  ptid :: int
  p_start :: u32
  p_end :: u32
  thread_count :: int
  check_count :: int
  indexing :: int

record proc_st = vm_st +
  ptable :: "proc list"
  ptable_held :: bool
  cur :: "nat option"
  sched_pos :: nat               \<comment> \<open>the loop variable of \<open>scheduler\<close>\<close>
  initproc :: "nat option"
  nextpid :: int
  nexttid :: int
  totPortion :: u32
  passOfMlfq :: int
  strideOfMlfq :: int
  pcount :: int
  numStride :: int
  forkret_addr :: u32            \<comment> \<open>the addresses of \<open>forkret\<close> and \<open>trapret\<close>\<close>
  trapret_addr :: u32

text \<open>Offsets in \<open>struct trapframe\<close> and \<open>struct context\<close>.\<close>

definition TF_SIZE :: u32 where "TF_SIZE = 76"
definition TF_EAX :: u32 where "TF_EAX = 28"
definition TF_ES :: u32 where "TF_ES = 40"
definition TF_DS :: u32 where "TF_DS = 44"
definition TF_TRAPNO :: u32 where "TF_TRAPNO = 48"
definition TF_EIP :: u32 where "TF_EIP = 56"
definition TF_CS :: u32 where "TF_CS = 60"
definition TF_EFLAGS :: u32 where "TF_EFLAGS = 64"
definition TF_ESP :: u32 where "TF_ESP = 68"
definition TF_SS :: u32 where "TF_SS = 72"
definition CONTEXT_SIZE :: u32 where "CONTEXT_SIZE = 20"
definition CONTEXT_EBP :: u32 where "CONTEXT_EBP = 12"
definition CONTEXT_EIP :: u32 where "CONTEXT_EIP = 16"

definition upd_proc :: "nat \<Rightarrow> (proc \<Rightarrow> proc) \<Rightarrow> 'z proc_st_scheme \<Rightarrow> 'z proc_st_scheme" where
  "upd_proc i f s = s\<lparr>ptable := (ptable s)[i := f (ptable s ! i)]\<rparr>"

definition upd_all :: "(nat \<Rightarrow> proc \<Rightarrow> proc) \<Rightarrow> 'z proc_st_scheme \<Rightarrow> 'z proc_st_scheme" where
  "upd_all f s = s\<lparr>ptable := map2 f [0..<length (ptable s)] (ptable s)\<rparr>"

definition acquire_ptable :: "'z proc_st_scheme \<Rightarrow> 'z proc_st_scheme res" where
  "acquire_ptable s =
     (if ptable_held s then Panic ''acquire'' else Ok (s\<lparr>ptable_held := True\<rparr>))"

definition release_ptable :: "'z proc_st_scheme \<Rightarrow> 'z proc_st_scheme res" where
  "release_ptable s =
     (if \<not> ptable_held s then Panic ''release'' else Ok (s\<lparr>ptable_held := False\<rparr>))"

text \<open>The current process; a use of the null pointer is a \<open>Fault\<close>.\<close>

definition curproc :: "'z proc_st_scheme \<Rightarrow> nat res" where
  "curproc s = (case cur s of Some i \<Rightarrow> Ok i | None \<Rightarrow> Fault ''myproc: null'')"

definition pinit :: "'z proc_st_scheme \<Rightarrow> 'z proc_st_scheme" where
  "pinit s = s\<lparr>ptable_held := False\<rparr>"

section \<open>Allocating a process\<close>

definition init_proc :: "int \<Rightarrow> proc \<Rightarrow> proc" where
  "init_proc n p = p\<lparr>p_state := EMBRYO, p_pid := n, qLevel := 0, runTime := 0, checkMLFQ := 0,
     pass := 0, stride := 0, myPortion := 0, round := 0, quantumtick := 0, t_flag := 0,
     ptid := n, havet := 0, thread_count := 0, check_count := 0, indexing := 0\<rparr>"

definition allocproc :: "'z proc_st_scheme \<Rightarrow> (nat option \<times> 'z proc_st_scheme) res" where
  "allocproc s =
     bnd (acquire_ptable s) (\<lambda>s.
     case find_idx (\<lambda>p. p_state p = UNUSED) (ptable s) of
       None \<Rightarrow> bnd (release_ptable s) (\<lambda>s. Ok (None, s))
     | Some i \<Rightarrow>
         let s = upd_proc i (init_proc (nextpid s)) s;
             s = s\<lparr>nextpid := nextpid s + 1, pcount := pcount s + 1\<rparr>
         in bnd (release_ptable s) (\<lambda>s.
            let (kst, s) = kalloc s;
                s = upd_proc i (\<lambda>p. p\<lparr>p_kstack := kst\<rparr>) s
            in if kst = 0 then Ok (None, upd_proc i (\<lambda>p. p\<lparr>p_state := UNUSED\<rparr>) s)
               else let sp = kst + KSTACKSIZE;
                        sp = sp - TF_SIZE;
                        s = upd_proc i (\<lambda>p. p\<lparr>p_tf := sp\<rparr>) s;
                        sp = sp - 4;
                        s = s\<lparr>memory := store32 (memory s) sp (trapret_addr s)\<rparr>;
                        sp = sp - CONTEXT_SIZE;
                        s = upd_proc i (\<lambda>p. p\<lparr>p_context := sp\<rparr>) s;
                        s = s\<lparr>memory := memset (memory s) sp 0 CONTEXT_SIZE\<rparr>;
                        s = s\<lparr>memory := store32 (memory s) (sp + CONTEXT_EIP) (forkret_addr s)\<rparr>
                    in Ok (Some i, s)))"

section \<open>The scheduler\<close>

text \<open>
  \<open>scheduler\<close> scans the table from \<open>sched_pos\<close>, holding \<open>ptable.lock\<close>.  \<open>scheduler_run\<close> is
  the switch to the process at \<open>i\<close>; \<open>scheduler_back\<close> what happens when that process comes back
  through \<open>swtch\<close>.  \<open>scheduler_step\<close> goes on with the scan: to the next runnable process, or
  over the end of the table to the start of the next scan.
\<close>

definition scheduler_run :: "nat \<Rightarrow> 'z proc_st_scheme \<Rightarrow> 'z proc_st_scheme res" where
  "scheduler_run i s =
     (let s = s\<lparr>cur := Some i\<rparr>
      in bnd (switchuvm s (Some (p_kstack (ptable s ! i), p_pgdir (ptable s ! i)))) (\<lambda>s.
         Ok (upd_proc i (\<lambda>p. p\<lparr>p_state := RUNNING\<rparr>) (s\<lparr>sched_pos := i + 1\<rparr>))))"

definition scheduler_back :: "'z proc_st_scheme \<Rightarrow> 'z proc_st_scheme" where
  "scheduler_back s = (switchkvm s)\<lparr>cur := None\<rparr>"

definition next_runnable :: "'z proc_st_scheme \<Rightarrow> nat \<Rightarrow> nat option" where
  "next_runnable s from =
     map_option (\<lambda>k. from + k) (find_idx (\<lambda>p. p_state p = RUNNABLE) (drop from (ptable s)))"

definition scheduler_step :: "'z proc_st_scheme \<Rightarrow> 'z proc_st_scheme res" where
  "scheduler_step s =
     (case next_runnable s (sched_pos s) of
        Some i \<Rightarrow> scheduler_run i s
      | None \<Rightarrow>
          bnd (release_ptable s) (\<lambda>s. acquire_ptable (s\<lparr>sched_pos := 0\<rparr>)))"

text \<open>
  \<open>sched\<close>: the checks, then the switch to the scheduler.  The nesting depth and the
  interrupt flag that it also checks are those of \<open>Spinlock\<close>.
\<close>

definition sched :: "'z proc_st_scheme \<Rightarrow> 'z proc_st_scheme res" where
  "sched s =
     bnd (curproc s) (\<lambda>i.
     if \<not> ptable_held s then Panic ''sched ptable.lock''
     else if p_state (ptable s ! i) = RUNNING then Panic ''sched running''
     else Ok (scheduler_back s))"

text \<open>\<open>yield\<close> up to the switch; when the process runs again it releases the lock and returns 0.\<close>

definition yield :: "'z proc_st_scheme \<Rightarrow> 'z proc_st_scheme res" where
  "yield s =
     bnd (acquire_ptable s) (\<lambda>s.
     bnd (curproc s) (\<lambda>i. sched (upd_proc i (\<lambda>p. p\<lparr>p_state := RUNNABLE\<rparr>) s)))"

definition thread_yield :: "'z proc_st_scheme \<Rightarrow> (int \<times> 'z proc_st_scheme) res" where
  "thread_yield s =
     bnd (acquire_ptable s) (\<lambda>s.
     bnd (curproc s) (\<lambda>i.
     bnd (release_ptable (upd_proc i (\<lambda>p. p\<lparr>p_state := RUNNABLE\<rparr>) s)) (\<lambda>s. Ok (0, s))))"

section \<open>Sleep, wakeup, kill\<close>

text \<open>
  \<open>sleep\<close> up to the switch, and what it does when the process runs again; \<open>on_ptable\<close> says
  that the lock given to it is \<open>ptable.lock\<close>.
\<close>

definition sleep_enter :: "chan \<Rightarrow> bool \<Rightarrow> 'z proc_st_scheme \<Rightarrow> 'z proc_st_scheme res" where
  "sleep_enter c on_ptable s =
     (case cur s of None \<Rightarrow> Panic ''sleep''
      | Some i \<Rightarrow>
          bnd (if on_ptable then Ok s else acquire_ptable s) (\<lambda>s.
          sched (upd_proc i (\<lambda>p. p\<lparr>p_chan := Some c, p_state := SLEEPING\<rparr>) s)))"

definition sleep_leave :: "bool \<Rightarrow> 'z proc_st_scheme \<Rightarrow> 'z proc_st_scheme res" where
  "sleep_leave on_ptable s =
     bnd (curproc s) (\<lambda>i.
     let s = upd_proc i (\<lambda>p. p\<lparr>p_chan := None\<rparr>) s
     in if on_ptable then Ok s else release_ptable s)"

definition wakeup1 :: "chan \<Rightarrow> 'z proc_st_scheme \<Rightarrow> 'z proc_st_scheme" where
  "wakeup1 c = upd_all (\<lambda>_ p. if p_state p = SLEEPING \<and> p_chan p = Some c
     then p\<lparr>p_state := RUNNABLE\<rparr> else p)"

definition wakeup :: "chan \<Rightarrow> 'z proc_st_scheme \<Rightarrow> 'z proc_st_scheme res" where
  "wakeup c s = bnd (acquire_ptable s) (\<lambda>s. release_ptable (wakeup1 c s))"

definition kill :: "int \<Rightarrow> 'z proc_st_scheme \<Rightarrow> (int \<times> 'z proc_st_scheme) res" where
  "kill n s =
     bnd (acquire_ptable s) (\<lambda>s.
     case find_idx (\<lambda>p. p_pid p = n) (ptable s) of
       Some i \<Rightarrow>
         let s = upd_proc i (\<lambda>p. p\<lparr>p_killed := True\<rparr>) s;
             s = (if p_state (ptable s ! i) = SLEEPING
                  then upd_proc i (\<lambda>p. p\<lparr>p_state := RUNNABLE\<rparr>) s else s)
         in bnd (release_ptable s) (\<lambda>s. Ok (0, s))
     | None \<Rightarrow> bnd (release_ptable s) (\<lambda>s. Ok (-1, s)))"

section \<open>MLFQ and stride bookkeeping\<close>

definition priorityBoost :: "'z proc_st_scheme \<Rightarrow> 'z proc_st_scheme res" where
  "priorityBoost s =
     bnd (acquire_ptable s) (\<lambda>s.
     release_ptable (upd_all (\<lambda>_ p. if checkMLFQ p = 0
       then p\<lparr>qLevel := 0, runTime := 0, round := 0, quantumtick := 0\<rparr> else p) s))"

definition getlev :: "'z proc_st_scheme \<Rightarrow> int" where
  "getlev s = (case cur s of None \<Rightarrow> -1 | Some i \<Rightarrow> qLevel (ptable s ! i))"

text \<open>
  \<open>set_stride_value\<close>: C division truncates; dividing by zero is a \<open>Fault\<close>.  The quotient for
  the MLFQ is unsigned.
\<close>

definition cdiv :: "int \<Rightarrow> int \<Rightarrow> int res" where
  "cdiv a b = (if b = 0 then Fault ''division by zero'' else Ok (sgn a * sgn b * (\<bar>a\<bar> div \<bar>b\<bar>)))"

definition set_stride_value :: "'z proc_st_scheme \<Rightarrow> 'z proc_st_scheme res" where
  "set_stride_value = (\<lambda>s. for_each [0..<length (ptable s)] (\<lambda>i s.
     bnd (if checkMLFQ (ptable s ! i) = 1
          then bnd (cdiv 100 (myPortion (ptable s ! i))) (\<lambda>q. Ok (upd_proc i (\<lambda>p. p\<lparr>stride := q\<rparr>) s))
          else Ok s) (\<lambda>s.
     if 100 - totPortion s = 0 then Fault ''division by zero''
     else Ok (s\<lparr>strideOfMlfq := uint (100 div (100 - totPortion s))\<rparr>))) s)"

definition set_pass_value :: "'z proc_st_scheme \<Rightarrow> 'z proc_st_scheme" where
  "set_pass_value s =
     (let mn = foldl (\<lambda>mn p. if checkMLFQ p = 1 \<and> mn > pass p then pass p else mn)
                 (passOfMlfq s) (ptable s);
          s = s\<lparr>passOfMlfq := passOfMlfq s - mn\<rparr>
      in upd_all (\<lambda>_ p. if checkMLFQ p = 1 then p\<lparr>pass := pass p - mn\<rparr> else p) s)"

text \<open>\<open>totPortion + portion\<close> is computed in \<open>uint\<close>: the portion is converted.\<close>

definition set_cpu_share :: "int \<Rightarrow> 'z proc_st_scheme \<Rightarrow> (int \<times> 'z proc_st_scheme) res" where
  "set_cpu_share portion s =
     (if totPortion s + word_of_int portion > 80 then Ok (-1, s)
      else bnd (acquire_ptable s) (\<lambda>s.
           let s = s\<lparr>numStride := numStride s + 1, pcount := pcount s - 1\<rparr>
           in bnd (curproc s) (\<lambda>i.
              let s = upd_proc i (\<lambda>p. p\<lparr>checkMLFQ := 1, qLevel := -1, quantumtick := 0,
                        myPortion := portion\<rparr>) s;
                  s = s\<lparr>totPortion := totPortion s + word_of_int portion\<rparr>
              in bnd (set_stride_value s) (\<lambda>s.
                 bnd (release_ptable (set_pass_value s)) (\<lambda>s. Ok (0, s))))))"

section \<open>Basic facts\<close>

lemma length_upd [simp]:
  "length (ptable (upd_proc i f s)) = length (ptable s)"
  "length (ptable (upd_all g s)) = length (ptable s)"
  by (simp_all add: upd_proc_def upd_all_def)

lemma nth_upd_proc:
  "i < length (ptable s) \<Longrightarrow>
   ptable (upd_proc i f s) ! j = (if j = i then f (ptable s ! i) else ptable s ! j)"
  by (simp add: upd_proc_def nth_list_update)

lemma nth_upd_all:
  "j < length (ptable s) \<Longrightarrow> ptable (upd_all f s) ! j = f j (ptable s ! j)"
  by (simp add: upd_all_def)

lemma upd_sels [simp]:
  "memory (upd_proc i f s) = memory s" "freelist (upd_proc i f s) = freelist s"
  "kernel_end (upd_proc i f s) = kernel_end s"
  "nextpid (upd_proc i f s) = nextpid s" "cur (upd_proc i f s) = cur s"
  "ptable_held (upd_proc i f s) = ptable_held s" "sched_pos (upd_proc i f s) = sched_pos s"
  "totPortion (upd_proc i f s) = totPortion s" "initproc (upd_proc i f s) = initproc s"
  "forkret_addr (upd_proc i f s) = forkret_addr s" "trapret_addr (upd_proc i f s) = trapret_addr s"
  "nextpid (upd_all g s) = nextpid s" "cur (upd_all g s) = cur s"
  "ptable_held (upd_all g s) = ptable_held s" "totPortion (upd_all g s) = totPortion s"
  "sched_pos (upd_all g s) = sched_pos s" "initproc (upd_all g s) = initproc s"
  by (simp_all add: upd_proc_def upd_all_def)

lemma acquire_ptable_iff [res_iff]:
  "acquire_ptable s = Ok t \<longleftrightarrow> \<not> ptable_held s \<and> t = s\<lparr>ptable_held := True\<rparr>"
  by (auto simp: acquire_ptable_def)

lemma release_ptable_iff [res_iff]:
  "release_ptable s = Ok t \<longleftrightarrow> ptable_held s \<and> t = s\<lparr>ptable_held := False\<rparr>"
  by (auto simp: release_ptable_def)

lemma curproc_iff [res_iff]: "curproc s = Ok i \<longleftrightarrow> cur s = Some i"
  by (auto simp: curproc_def split: option.splits)

lemma kmem_inv_upd [simp]:
  "kmem_inv (upd_proc i f s) ps = kmem_inv s ps" "kmem_inv (s\<lparr>ptable_held := b\<rparr>) ps = kmem_inv s ps"
  "kmem_inv (s\<lparr>nextpid := n\<rparr>) ps = kmem_inv s ps" "kmem_inv (s\<lparr>pcount := m\<rparr>) ps = kmem_inv s ps"
  by (simp_all add: kmem_inv_def upd_proc_def page_ok_def)

text \<open>A small process table, for the witnesses: the first process runs, the second sleeps.\<close>

definition no_proc :: proc where
  "no_proc = \<lparr>p_sz = 0, p_pgdir = 0, p_kstack = 0, p_state = UNUSED, p_pid = 0, p_parent = None,
     p_tf = 0, p_context = 0, p_chan = None, p_killed = False, p_ofile = replicate NOFILE None,
     p_cwd = None, p_name = replicate 16 0, qLevel = 0, runTime = 0, round = 0, quantumtick = 0,
     checkMLFQ = 0, pass = 0, stride = 0, myPortion = 0, havet = 0, main_thread = None, t_flag = 0,
     tid = 0, retval = 0, ptid = 0, p_start = 0, p_end = 0, thread_count = 0, check_count = 0,
     indexing = 0\<rparr>"

definition sample :: proc_st where
  "sample = \<lparr>memory = memory two_pages, freelist = freelist two_pages, use_lock = True,
     kernel_end = kernel_end two_pages, kernel_data = kernel_data two_pages,
     kpgdir = 0x80110000, cr3 = 0x110000, esp0 = 0x80104000,
     ptable = [no_proc\<lparr>p_state := RUNNING, p_pid := 1, p_kstack := 0x80103000, p_pgdir := 0x80202000\<rparr>,
        no_proc\<lparr>p_state := SLEEPING, p_pid := 2, p_chan := Some TicksChan\<rparr>] @ replicate 62 no_proc,
     ptable_held = False, cur = Some 0, sched_pos = 1, initproc = Some 0, nextpid = 3, nexttid = 0,
     totPortion = 0, passOfMlfq = 0, strideOfMlfq = 0, pcount = 2, numStride = 0,
     forkret_addr = 0x80105000, trapret_addr = 0x80106000\<rparr>"

lemma sample_sels [simp]:
  "\<not> ptable_held sample" "cur sample = Some 0" "nextpid sample = 3" "totPortion sample = 0"
  "length (ptable sample) = 64"
  by (simp_all add: sample_def)

lemma sample_inv: "kmem_inv sample [0x80200000, 0x80201000]"
  using two_pages_inv by (simp add: kmem_inv_def page_ok_def sample_def)

section \<open>Sleeping and waking\<close>

text \<open>
  \<open>wakeup\<close> makes exactly the processes that sleep on the channel runnable and changes
  nothing else in the table; it does not take effect on processes that sleep elsewhere.
\<close>

lemma wakeup_wakes_exactly:
  assumes "\<not> ptable_held s"
  shows "\<exists>t. wakeup c s = Ok t \<and> \<not> ptable_held t \<and> length (ptable t) = length (ptable s) \<and>
    (\<forall>i. i < length (ptable s) \<longrightarrow> ptable t ! i =
       (if p_state (ptable s ! i) = SLEEPING \<and> p_chan (ptable s ! i) = Some c
        then (ptable s ! i)\<lparr>p_state := RUNNABLE\<rparr> else ptable s ! i))"
  using assms by (simp add: wakeup_def acquire_ptable_def release_ptable_def wakeup1_def nth_upd_all)

theorem wakeup_wakes_exactly_witness:
  "\<exists>t. wakeup TicksChan sample = Ok t \<and> p_state (ptable t ! 1) = RUNNABLE \<and>
     p_state (ptable t ! 0) = RUNNING"
proof -
  obtain t where "wakeup TicksChan sample = Ok t"
    and "\<And>i. i < 64 \<Longrightarrow> ptable t ! i =
       (if p_state (ptable sample ! i) = SLEEPING \<and> p_chan (ptable sample ! i) = Some TicksChan
        then (ptable sample ! i)\<lparr>p_state := RUNNABLE\<rparr> else ptable sample ! i)"
    using wakeup_wakes_exactly [of sample TicksChan] by auto
  then show ?thesis by (auto simp: sample_def)
qed

text \<open>
  \<open>kill\<close> marks the first process with that pid as killed, makes it runnable if it
  sleeps, leaves every other process alone and returns 0; it returns -1 and changes nothing
  when no process has the pid.
\<close>

lemma kill_marks_process:
  assumes "\<not> ptable_held s"
  shows "(case find_idx (\<lambda>p. p_pid p = n) (ptable s) of
      None \<Rightarrow> kill n s = Ok (-1, s)
    | Some i \<Rightarrow> \<exists>t. kill n s = Ok (0, t) \<and> \<not> ptable_held t \<and> p_killed (ptable t ! i) \<and>
        p_pid (ptable t ! i) = n \<and>
        p_state (ptable t ! i) = (if p_state (ptable s ! i) = SLEEPING then RUNNABLE
                                  else p_state (ptable s ! i)) \<and>
        (\<forall>j. j \<noteq> i \<longrightarrow> ptable t ! j = ptable s ! j))"
proof (cases "find_idx (\<lambda>p. p_pid p = n) (ptable s)")
  case None
  then show ?thesis
    using assms by (simp add: kill_def acquire_ptable_def release_ptable_def)
next
  case (Some i)
  then have "i < length (ptable s)" "p_pid (ptable s ! i) = n"
    by (auto simp: find_idx_Some)
  with Some assms show ?thesis
    by (auto simp: kill_def acquire_ptable_def release_ptable_def nth_upd_proc Let_def)
qed

lemma kill_marks_process_witness:
  "\<exists>t. kill 2 sample = Ok (0, t) \<and> p_killed (ptable t ! 1) \<and> p_state (ptable t ! 1) = RUNNABLE"
proof -
  have "find_idx (\<lambda>p. p_pid p = 2) (ptable sample) = Some 1" by (simp add: sample_def)
  with kill_marks_process [of sample 2] show ?thesis by (auto simp: sample_def)
qed

section \<open>Allocation of a process\<close>

lemma frame_sp:
  "k + KSTACKSIZE - TF_SIZE = slot k 1005" "slot k 1005 - 4 = slot k 1004"
  "slot k 1004 - CONTEXT_SIZE = slot k 999" "slot k 999 + CONTEXT_EIP = slot k 1003"
  by (simp_all add: slot_def KSTACKSIZE_def TF_SIZE_def CONTEXT_SIZE_def CONTEXT_EIP_def)

lemma memset_in_page:
  assumes "p mod 4096 = 0" "i + n \<le> 4096" "\<not> x - p < 4096"
  shows "memset m (p + word_of_nat i) c (word_of_nat n) x = m x"
proof -
  have "\<not> x - (p + word_of_nat i) < word_of_nat n"
  proof
    define d where "d = x - (p + word_of_nat i)"
    assume "x - (p + word_of_nat i) < word_of_nat n"
    then have "unat d < n" using assms(2) by (simp add: d_def word_less_nat_alt unat_of_nat)
    then have "i + unat d < 4096" using assms(2) by linarith
    moreover have "x = p + word_of_nat (i + unat d)" by (simp add: d_def)
    ultimately have "unat x div 4096 = unat p div 4096"
      using aligned_word_page [OF assms(1)] by blast
    with in_page_iff [OF assms(1), of x] assms(3) show False by simp
  qed
  then show ?thesis by (simp add: memset_apply)
qed

lemma kalloc_ptable: "ptable (snd (kalloc s)) = ptable s"
  by (simp add: kalloc_def Let_def)

text \<open>The kernel stack that \<open>allocproc\<close> sets up, in a page \<open>k\<close>.\<close>

definition new_stack :: "mem \<Rightarrow> u32 \<Rightarrow> u32 \<Rightarrow> u32 \<Rightarrow> mem" where
  "new_stack m k tr fr =
     store32 (memset (store32 m (slot k 1004) tr) (slot k 999) 0 CONTEXT_SIZE) (slot k 1003) fr"

lemma new_stack:
  assumes "k mod 4096 = 0"
  shows "\<not> x - k < 4096 \<Longrightarrow> new_stack m k tr fr x = m x"
    "load32 (new_stack m k tr fr) (slot k 1003) = fr"
    "load32 (new_stack m k tr fr) (slot k 1004) = tr"
proof -
  show "new_stack m k tr fr x = m x" if "\<not> x - k < 4096"
  proof -
    have "memset m' (slot k 999) 0 CONTEXT_SIZE x = m' x" for m'
      using memset_in_page [OF assms, of 3996 20, OF _ that] by (simp add: slot_def CONTEXT_SIZE_def)
    then show ?thesis by (simp add: new_stack_def store_slot_confined [OF assms _ that])
  qed
  show "load32 (new_stack m k tr fr) (slot k 1003) = fr" by (simp add: new_stack_def)
  have "slot k 1004 + word_of_nat i - slot k 999 = word_of_nat (20 + i)" for i
    by (simp add: slot_def)
  then have "\<not> slot k 1004 + word_of_nat i - slot k 999 < CONTEXT_SIZE" if "i < 4" for i
    using that by (simp add: word_less_nat_alt CONTEXT_SIZE_def unat_of_nat del: of_nat_add)
  from this [of 0] this [of 1] this [of 2] this [of 3]
  have "load32 (memset m' (slot k 999) 0 CONTEXT_SIZE) (slot k 1004) = load32 m' (slot k 1004)" for m'
    by (simp add: load32_def memset_apply)
  then show "load32 (new_stack m k tr fr) (slot k 1004) = tr"
    using load_slot_other [OF assms, of 1003 1004] by (simp add: new_stack_def)
qed

text \<open>
  C12.  \<open>allocproc\<close>, called without \<open>ptable.lock\<close>.  With no unused slot it returns null and
  changes nothing.  Otherwise it takes the first unused slot and gives it the next pid; when a
  page is free, the process is an embryo whose kernel stack is that page, set up so that the
  first switch to it enters \<open>forkret\<close> with \<open>trapret\<close> as return address, and the rest of the
  table is unchanged; when no page is free the slot is unused again and null is returned.
\<close>

theorem allocproc_result:
  assumes "\<not> ptable_held s" "kmem_inv s ps"
  shows "case find_idx (\<lambda>p. p_state p = UNUSED) (ptable s) of
      None \<Rightarrow> allocproc s = Ok (None, s)
    | Some i \<Rightarrow> \<exists>r t. allocproc s = Ok (r, t) \<and> \<not> ptable_held t \<and> nextpid t = nextpid s + 1 \<and>
        (\<forall>j. j \<noteq> i \<longrightarrow> ptable t ! j = ptable s ! j) \<and>
        (case ps of
           [] \<Rightarrow> r = None \<and> p_state (ptable t ! i) = UNUSED \<and> kmem_inv t []
         | k # qs \<Rightarrow> r = Some i \<and> p_state (ptable t ! i) = EMBRYO \<and>
             p_pid (ptable t ! i) = nextpid s \<and> p_kstack (ptable t ! i) = k \<and>
             p_tf (ptable t ! i) = k + KSTACKSIZE - TF_SIZE \<and>
             load32 (memory t) (p_context (ptable t ! i) + CONTEXT_EIP) = forkret_addr s \<and>
             load32 (memory t) (p_context (ptable t ! i) + CONTEXT_SIZE) = trapret_addr s \<and>
             kmem_inv t qs)"
proof (cases "find_idx (\<lambda>p. p_state p = UNUSED) (ptable s)")
  case None
  then show ?thesis
    using assms(1) by (simp add: allocproc_def acquire_ptable_def release_ptable_def)
next
  case (Some i)
  then have i: "i < length (ptable s)" by (rule find_idx_less)
  define s1 where "s1 = (upd_proc i (init_proc (nextpid s)) (s\<lparr>ptable_held := True\<rparr>))
    \<lparr>nextpid := nextpid s + 1, pcount := pcount s + 1, ptable_held := False\<rparr>"
  have run: "allocproc s = (let (kst, s) = kalloc s1; s = upd_proc i (\<lambda>p. p\<lparr>p_kstack := kst\<rparr>) s
      in if kst = 0 then Ok (None, upd_proc i (\<lambda>p. p\<lparr>p_state := UNUSED\<rparr>) s)
         else Ok (Some i, (upd_proc i (\<lambda>p. p\<lparr>p_tf := slot kst 1005, p_context := slot kst 999\<rparr>) s)
           \<lparr>memory := new_stack (memory s) kst (trapret_addr s) (forkret_addr s)\<rparr>))"
  proof -
    obtain kst s2 where k: "kalloc s1 = (kst, s2)" by (cases "kalloc s1")
    then have "length (ptable s2) = length (ptable s)"
      using kalloc_ptable [of s1] by (simp add: s1_def)
    with k Some assms(1) i show ?thesis
      by (simp add: allocproc_def acquire_ptable_def release_ptable_def frame_sp new_stack_def
          s1_def upd_proc_def Let_def)
  qed
  have inv1: "kmem_inv s1 ps" using assms(2) by (simp add: s1_def)
  show ?thesis
  proof (cases ps)
    case Nil
    with inv1 have "kalloc s1 = (0, s1)" by (simp add: kalloc_empty)
    with run Some i Nil inv1 show ?thesis by (simp add: s1_def nth_upd_proc)
  next
    case (Cons k qs)
    obtain s2 where s2: "kalloc s1 = (k, s2)" "kmem_inv s2 qs" "memory s2 = memory s1"
      using kalloc_pops [of s1 k qs] inv1 Cons by (cases "kalloc s1") auto
    have s2': "s2 = s1\<lparr>freelist := freelist s2\<rparr>"
      using s2(1) by (auto simp: kalloc_def Let_def split: if_splits)
    have k: "k mod 4096 = 0" "k \<noteq> 0" "k \<notin> set qs"
      using inv1 Cons by (auto simp: kmem_inv_def page_ok_aligned page_ok_nonzero)
    define t where "t = (upd_proc i (\<lambda>p. p\<lparr>p_tf := slot k 1005, p_context := slot k 999\<rparr>)
      (upd_proc i (\<lambda>p. p\<lparr>p_kstack := k\<rparr>) s2))
        \<lparr>memory := new_stack (memory s2) k (trapret_addr s2) (forkret_addr s2)\<rparr>"
    have "allocproc s = Ok (Some i, t)" using run s2(1) k(2) by (simp add: t_def Let_def)
    moreover have "kmem_inv t qs"
      unfolding t_def using s2 k new_stack(1) [OF k(1)]
      by (intro kmem_inv_frame [of _ qs k]) auto
    moreover have "forkret_addr s2 = forkret_addr s" "trapret_addr s2 = trapret_addr s"
      "\<not> ptable_held s2" "nextpid s2 = nextpid s + 1" "length (ptable s2) = length (ptable s)"
      "\<And>j. ptable s2 ! j = (if j = i then init_proc (nextpid s) (ptable s ! i) else ptable s ! j)"
      using i by (subst s2', simp add: s1_def upd_proc_def)+
    moreover have "slot k 999 + CONTEXT_SIZE = slot k 1004" "slot k 1005 = k + KSTACKSIZE - TF_SIZE"
      by (simp_all add: slot_def CONTEXT_SIZE_def KSTACKSIZE_def TF_SIZE_def)
    ultimately show ?thesis
      using Some i Cons new_stack [OF k(1)]
      by (simp add: t_def nth_upd_proc init_proc_def frame_sp(4))
  qed
qed

theorem allocproc_result_witness:
  "\<exists>t. allocproc sample = Ok (Some 2, t) \<and> p_state (ptable t ! 2) = EMBRYO \<and>
     p_pid (ptable t ! 2) = 3 \<and> p_kstack (ptable t ! 2) = 0x80200000"
proof -
  have "find_idx (\<lambda>p. p_state p = UNUSED) (ptable sample) = Some 2"
    by (simp add: sample_def no_proc_def numeral_eq_Suc)
  with allocproc_result [of sample, OF _ sample_inv] show ?thesis by auto
qed

section \<open>Round robin\<close>

lemma shift_all: "(\<forall>j<k. P (p + j)) \<longleftrightarrow> (\<forall>j. p \<le> j \<and> j < p + k \<longrightarrow> P j)" for p k :: nat
  by (metis add_less_cancel_left le_add1 le_iff_add)

lemma next_runnable_Some:
  "next_runnable s p = Some i \<longleftrightarrow> p \<le> i \<and> i < length (ptable s) \<and>
     p_state (ptable s ! i) = RUNNABLE \<and> (\<forall>j. p \<le> j \<and> j < i \<longrightarrow> p_state (ptable s ! j) \<noteq> RUNNABLE)"
proof -
  have "next_runnable s p = Some i \<longleftrightarrow> (\<exists>k. i = p + k \<and> p + k < length (ptable s) \<and>
      p_state (ptable s ! (p + k)) = RUNNABLE \<and> (\<forall>j<k. p_state (ptable s ! (p + j)) \<noteq> RUNNABLE))"
    by (auto simp: next_runnable_def find_idx_Some)
  also have "\<dots> \<longleftrightarrow> p \<le> i \<and> i < length (ptable s) \<and>
     p_state (ptable s ! i) = RUNNABLE \<and> (\<forall>j. p \<le> j \<and> j < i \<longrightarrow> p_state (ptable s ! j) \<noteq> RUNNABLE)"
    unfolding shift_all [of _ "\<lambda>j. p_state (ptable s ! j) \<noteq> RUNNABLE"] by (auto simp: le_iff_add)
  finally show ?thesis .
qed

lemma next_runnable_None:
  assumes "next_runnable s p = None" "p \<le> j" "j < length (ptable s)"
  shows "p_state (ptable s ! j) \<noteq> RUNNABLE"
proof -
  have "ptable s ! j = drop p (ptable s) ! (j - p)" "j - p < length (drop p (ptable s))"
    using assms(2,3) by auto
  then have "ptable s ! j \<in> set (drop p (ptable s))" using nth_mem by metis
  with assms(1) show ?thesis by (auto simp: next_runnable_def find_idx_None)
qed

text \<open>
  One turn of the scheduler as the waiting process \<open>k\<close> sees it: a step of the scheduler, then
  whatever the chosen process and the other CPUs do to the table.  The scheduler's position is
  its own; \<open>k\<close> stays runnable unless it is chosen.
\<close>

definition turn :: "nat \<Rightarrow> 'z proc_st_scheme \<Rightarrow> 'z proc_st_scheme \<Rightarrow> bool" where
  "turn k s t \<longleftrightarrow> (\<exists>s1. scheduler_step s = Ok s1 \<and> sched_pos t = sched_pos s1 \<and>
     length (ptable t) = length (ptable s) \<and>
     (next_runnable s (sched_pos s) = Some k \<or> p_state (ptable t ! k) = RUNNABLE))"

text \<open>How far the scan is from \<open>k\<close>.\<close>

definition scan_distance :: "nat \<Rightarrow> 'z proc_st_scheme \<Rightarrow> nat" where
  "scan_distance k s = (if sched_pos s \<le> k then k - sched_pos s
     else length (ptable s) - sched_pos s + 1 + k)"

lemma scheduler_step_pos:
  "scheduler_step s = Ok t \<Longrightarrow> sched_pos t =
     (case next_runnable s (sched_pos s) of Some i \<Rightarrow> i + 1 | None \<Rightarrow> 0)"
  by (auto simp: scheduler_step_def scheduler_run_def switchuvm_def upd_proc_def Let_def res_iff
      split: option.splits if_splits)

lemma turn_progress:
  assumes t: "turn k s t" and k: "p_state (ptable s ! k) = RUNNABLE" "k < length (ptable s)"
    and pos: "sched_pos s \<le> length (ptable s)"
    and no: "next_runnable s (sched_pos s) \<noteq> Some k"
  shows "p_state (ptable t ! k) = RUNNABLE" "k < length (ptable t)"
    "sched_pos t \<le> length (ptable t)" "scan_distance k t < scan_distance k s"
    "length (ptable t) = length (ptable s)"
proof -
  from t no obtain s1 where st: "scheduler_step s = Ok s1" and p: "sched_pos t = sched_pos s1"
    and len: "length (ptable t) = length (ptable s)" and run: "p_state (ptable t ! k) = RUNNABLE"
    by (auto simp: turn_def)
  note q = p [unfolded scheduler_step_pos [OF st]]
  show "p_state (ptable t ! k) = RUNNABLE" "k < length (ptable t)"
    "length (ptable t) = length (ptable s)"
    using run len k by auto
  show "sched_pos t \<le> length (ptable t)"
    using q len by (auto simp: next_runnable_Some split: option.splits)
  show "scan_distance k t < scan_distance k s"
  proof (cases "next_runnable s (sched_pos s)")
    case None
    then have "k < sched_pos s" using k next_runnable_None [OF None, of k] not_le by blast
    then show ?thesis using None q by (simp add: scan_distance_def)
  next
    case (Some i)
    note i = Some [unfolded next_runnable_Some]
    from i k(1) have "sched_pos s \<le> k \<longrightarrow> i \<le> k" using not_le by blast
    moreover from Some no have "i \<noteq> k" by simp
    moreover from i have "sched_pos s \<le> i" "i < length (ptable s)" by simp_all
    ultimately show ?thesis using Some q len by (auto simp: scan_distance_def)
  qed
qed


text \<open>A machine with one process that always yields.\<close>

definition one_proc :: "nat \<Rightarrow> proc_st" where
  "one_proc n = sample\<lparr>ptable := [no_proc\<lparr>p_state := RUNNABLE, p_kstack := 0x80103000,
     p_pgdir := 0x80202000\<rparr>], ptable_held := True, cur := None, sched_pos := n mod 2\<rparr>"

lemma one_proc_turn: "turn 0 (one_proc n) (one_proc (Suc n))"
proof (cases "n mod 2 = 0")
  case True
  then have "next_runnable (one_proc n) (sched_pos (one_proc n)) = Some 0" "Suc n mod 2 = 1"
    by (simp_all add: next_runnable_def one_proc_def) presburger
  then show ?thesis
    by (simp add: turn_def scheduler_step_def scheduler_run_def switchuvm_def)
      (simp add: one_proc_def upd_proc_def)
next
  case False
  then have n: "n mod 2 = 1" "Suc n mod 2 = 0" by presburger+
  then show ?thesis
    by (simp add: turn_def scheduler_step_def next_runnable_def one_proc_def
        release_ptable_def acquire_ptable_def)
qed


section \<open>Shares\<close>

lemma cdiv_pos: "0 < b \<Longrightarrow> cdiv 100 b = Ok (100 div b)"
  by (simp add: cdiv_def)

definition with_stride :: "proc \<Rightarrow> proc" where
  "with_stride p = (if checkMLFQ p = 1 then p\<lparr>stride := 100 div myPortion p\<rparr> else p)"

lemma set_stride_value_spec:
  assumes "\<And>p. p \<in> set (ptable s) \<Longrightarrow> checkMLFQ p = 1 \<Longrightarrow> 0 < myPortion p"
    and "totPortion s \<noteq> 100" "ptable s \<noteq> []"
  shows "set_stride_value s =
    Ok (s\<lparr>ptable := map with_stride (ptable s), strideOfMlfq := uint (100 div (100 - totPortion s))\<rparr>)"
proof -
  define v where "v = uint (100 div (100 - totPortion s))"
  define body where "body = (\<lambda>i (s :: 'a proc_st_scheme).
     bnd (if checkMLFQ (ptable s ! i) = 1
          then bnd (cdiv 100 (myPortion (ptable s ! i))) (\<lambda>q. Ok (upd_proc i (\<lambda>p. p\<lparr>stride := q\<rparr>) s))
          else Ok s) (\<lambda>s.
     if 100 - totPortion s = 0 then Fault ''division by zero''
     else Ok (s\<lparr>strideOfMlfq := uint (100 div (100 - totPortion s))\<rparr>)))"
  have "for_each [0..<n] body s = Ok (s\<lparr>ptable := map with_stride (take n (ptable s)) @ drop n (ptable s),
      strideOfMlfq := if n = 0 then strideOfMlfq s else v\<rparr>)" if "n \<le> length (ptable s)" for n
    using that
  proof (induction n)
    case (Suc n)
    let ?p = "ptable s ! n"
    have "?p \<in> set (ptable s)" using Suc.prems by simp
    with assms(1) have pos: "checkMLFQ ?p = 1 \<Longrightarrow> 0 < myPortion ?p" by blast
    have nth: "(map with_stride (take n (ptable s)) @ drop n (ptable s)) ! n = ?p"
      using Suc.prems by (simp add: nth_append)
    have upd: "(map with_stride (take n (ptable s)) @ drop n (ptable s))[n := x] =
        map with_stride (take n (ptable s)) @ x # drop (Suc n) (ptable s)" for x
      using Suc.prems by (simp add: list_update_append Cons_nth_drop_Suc [symmetric])
    have "body n (s\<lparr>ptable := map with_stride (take n (ptable s)) @ drop n (ptable s), strideOfMlfq := w\<rparr>) =
        Ok (s\<lparr>ptable := map with_stride (take n (ptable s)) @ with_stride ?p # drop (Suc n) (ptable s),
          strideOfMlfq := v\<rparr>)" for w
      using pos assms(2) Suc.prems
      by (cases "checkMLFQ ?p = 1")
        (simp_all add: body_def nth upd upd_proc_def cdiv_pos v_def with_stride_def Cons_nth_drop_Suc)
    with for_each_Suc [of n body s] Suc show ?case
      by (simp add: take_Suc_conv_app_nth)
  qed simp
  from this [of "length (ptable s)"] assms(3) show ?thesis
    by (simp add: set_stride_value_def body_def v_def)
qed

text \<open>The minimum that \<open>set_pass_value\<close> subtracts.\<close>

definition min_pass :: "int \<Rightarrow> proc list \<Rightarrow> int" where
  "min_pass a ps = foldl (\<lambda>mn p. if checkMLFQ p = 1 \<and> mn > pass p then pass p else mn) a ps"

lemma min_pass_le:
  "min_pass a ps \<le> a" "p \<in> set ps \<Longrightarrow> checkMLFQ p = 1 \<Longrightarrow> min_pass a ps \<le> pass p"
proof (induction ps arbitrary: a)
  case (Cons q ps)
  { case 1 show ?case
      using Cons.IH(1) [of "if checkMLFQ q = 1 \<and> a > pass q then pass q else a"]
      by (auto simp: min_pass_def split: if_splits) }
  { case 2 then show ?case
      using Cons.IH(1) [of "if checkMLFQ q = 1 \<and> a > pass q then pass q else a"]
        Cons.IH(2) [of "if checkMLFQ q = 1 \<and> a > pass q then pass q else a"]
      by (auto simp: min_pass_def split: if_splits) }
qed (simp_all add: min_pass_def)

lemma min_pass_attained:
  "min_pass a ps = a \<or> (\<exists>p\<in>set ps. checkMLFQ p = 1 \<and> min_pass a ps = pass p)"
proof (induction ps arbitrary: a)
  case (Cons q ps)
  show ?case
    using Cons.IH [of "if checkMLFQ q = 1 \<and> a > pass q then pass q else a"]
    by (auto simp: min_pass_def split: if_splits)
qed (simp add: min_pass_def)

lemma upd_all_map: "upd_all (\<lambda>_. f) s = s\<lparr>ptable := map f (ptable s)\<rparr>"
proof -
  have "map2 (\<lambda>_. f) [0..<length (ptable s)] (ptable s) = map f (ptable s)"
    by (rule nth_equalityI) simp_all
  then show ?thesis by (simp add: upd_all_def)
qed

definition shift_pass :: "int \<Rightarrow> proc \<Rightarrow> proc" where
  "shift_pass d p = (if checkMLFQ p = 1 then p\<lparr>pass := pass p - d\<rparr> else p)"

lemma set_pass_value_spec:
  "set_pass_value s = (let d = min_pass (passOfMlfq s) (ptable s)
     in s\<lparr>ptable := map (shift_pass d) (ptable s), passOfMlfq := passOfMlfq s - d\<rparr>)"
  unfolding set_pass_value_def min_pass_def [symmetric] shift_pass_def [symmetric]
  by (simp add: Let_def upd_all_map)

definition shares_ok :: "'z proc_st_scheme \<Rightarrow> bool" where
  "shares_ok s \<longleftrightarrow> (\<forall>p\<in>set (ptable s). checkMLFQ p = 1 \<longrightarrow> 0 < myPortion p) \<and> totPortion s \<le> 80"

lemma share_test:
  assumes "totPortion s \<le> 80" "0 \<le> portion" "portion < 2 ^ 31"
  shows "totPortion s + word_of_int portion > 80 \<longleftrightarrow> uint (totPortion s) + portion > 80"
    and "uint (totPortion s) + portion \<le> 80 \<Longrightarrow>
      uint (totPortion s + word_of_int portion) = uint (totPortion s) + portion"
proof -
  have u: "uint (totPortion s) \<le> 80" "0 \<le> uint (totPortion s)"
    using assms(1) by (simp_all add: word_le_def)
  then have "uint (totPortion s + word_of_int portion) = uint (totPortion s) + portion"
    using assms by (simp add: uint_word_ariths uint_word_of_int)
  then show "totPortion s + word_of_int portion > 80 \<longleftrightarrow> uint (totPortion s) + portion > 80"
    "uint (totPortion s) + portion \<le> 80 \<Longrightarrow>
      uint (totPortion s + word_of_int portion) = uint (totPortion s) + portion"
    by (simp_all add: word_less_def)
qed

text \<open>The table after a successful \<open>set_cpu_share\<close>, before the pass values are shifted.\<close>

definition share_table :: "nat \<Rightarrow> int \<Rightarrow> proc list \<Rightarrow> proc list" where
  "share_table i portion ps = map with_stride (ps[i := (ps ! i)\<lparr>checkMLFQ := 1, qLevel := -1,
     quantumtick := 0, myPortion := portion\<rparr>])"

lemma share_table_nth:
  assumes "i < length ps" "j < length ps"
  shows "pass (share_table i portion ps ! j) = pass (ps ! j)"
    "checkMLFQ (share_table i portion ps ! j) = (if j = i then 1 else checkMLFQ (ps ! j))"
    "myPortion (share_table i portion ps ! j) = (if j = i then portion else myPortion (ps ! j))"
    "j = i \<Longrightarrow> qLevel (share_table i portion ps ! j) = -1 \<and>
       stride (share_table i portion ps ! j) = 100 div portion"
  using assms by (auto simp: share_table_def with_stride_def nth_list_update)

lemma shift_pass_sels [simp]:
  "checkMLFQ (shift_pass d p) = checkMLFQ p" "qLevel (shift_pass d p) = qLevel p"
  "stride (shift_pass d p) = stride p" "myPortion (shift_pass d p) = myPortion p"
  "checkMLFQ p = 1 \<Longrightarrow> pass (shift_pass d p) = pass p - d"
  by (simp_all add: shift_pass_def)

lemma set_cpu_share_run:
  assumes "shares_ok s" "\<not> ptable_held s" "cur s = Some i" "i < length (ptable s)"
    and "0 < portion" "portion < 2 ^ 31" "uint (totPortion s) + portion \<le> 80"
  defines "ps \<equiv> share_table i portion (ptable s)"
  defines "d \<equiv> min_pass (passOfMlfq s) ps"
  shows "\<exists>t. set_cpu_share portion s = Ok (0, t) \<and> ptable t = map (shift_pass d) ps \<and>
    passOfMlfq t = passOfMlfq s - d \<and> uint (totPortion t) = uint (totPortion s) + portion"
proof -
  note tot = share_test [of s portion]
  define s1 where "s1 = (upd_proc i (\<lambda>p :: proc. p\<lparr>checkMLFQ := 1, qLevel := -1, quantumtick := 0,
      myPortion := portion\<rparr>) (s\<lparr>ptable_held := True, numStride := numStride s + 1,
      pcount := pcount s - 1\<rparr>))\<lparr>totPortion := totPortion s + word_of_int portion\<rparr>"
  have tot1: "uint (totPortion s1) = uint (totPortion s) + portion"
    using tot(2) assms by (simp_all add: s1_def shares_ok_def)
  have pos: "0 < myPortion p" if "p \<in> set (ptable s1)" "checkMLFQ p = 1" for p
    using that assms by (auto simp: s1_def upd_proc_def shares_ok_def
        dest!: set_update_subset_insert [THEN subsetD])
  have ps1: "ps = map with_stride (ptable s1)"
    by (simp add: ps_def share_table_def s1_def upd_proc_def)
  have "ptable s1 \<noteq> []" using assms(4) by (auto simp: s1_def upd_proc_def)
  moreover have "totPortion s1 \<noteq> 100" using tot1 assms by (auto simp: word_uint_eq_iff)
  ultimately have "set_stride_value s1 = Ok (s1\<lparr>ptable := ps,
      strideOfMlfq := uint (100 div (100 - totPortion s1))\<rparr>)"
    using set_stride_value_spec [of s1, OF pos] ps1 by simp
  moreover have "set_cpu_share portion s = bnd (set_stride_value s1) (\<lambda>s.
      bnd (release_ptable (set_pass_value s)) (\<lambda>s. Ok (0, s)))"
    using assms tot(1)
    by (simp add: set_cpu_share_def acquire_ptable_def curproc_def shares_ok_def s1_def upd_proc_def)
  moreover have "passOfMlfq s1 = passOfMlfq s" "ptable_held s1"
    by (simp_all add: s1_def upd_proc_def)
  ultimately show ?thesis
    using tot1 by (simp add: set_pass_value_spec release_ptable_def d_def Let_def)
qed

text \<open>
  C23.  \<open>set_cpu_share\<close> with a positive portion.  When the shares would exceed 80 percent it
  returns -1 and changes nothing; otherwise it returns 0, the shares stay at most 80 percent,
  the process leaves the MLFQ and gets the stride \<open>100 / portion\<close>, and the pass values
  are shifted so that they are not negative, one of them is 0 and their differences are kept.
\<close>

theorem set_cpu_share_grants:
  assumes "shares_ok s" "\<not> ptable_held s" "cur s = Some i" "i < length (ptable s)"
    and "0 < portion" "portion < 2 ^ 31"
  shows "if uint (totPortion s) + portion > 80 then set_cpu_share portion s = Ok (-1, s)
    else \<exists>t d. set_cpu_share portion s = Ok (0, t) \<and> shares_ok t \<and>
      uint (totPortion t) = uint (totPortion s) + portion \<and>
      checkMLFQ (ptable t ! i) = 1 \<and> qLevel (ptable t ! i) = -1 \<and>
      stride (ptable t ! i) = 100 div portion \<and>
      passOfMlfq t = passOfMlfq s - d \<and> 0 \<le> passOfMlfq t \<and>
      (\<forall>j. j < length (ptable t) \<and> checkMLFQ (ptable t ! j) = 1 \<longrightarrow>
         pass (ptable t ! j) = pass (ptable s ! j) - d \<and> 0 \<le> pass (ptable t ! j)) \<and>
      (passOfMlfq t = 0 \<or> (\<exists>j < length (ptable t). checkMLFQ (ptable t ! j) = 1 \<and> pass (ptable t ! j) = 0))"
proof (cases "uint (totPortion s) + portion > 80")
  case True
  with share_test(1) [of s portion] assms show ?thesis by (simp add: set_cpu_share_def shares_ok_def)
next
  case False
  define ps where "ps = share_table i portion (ptable s)"
  define d where "d = min_pass (passOfMlfq s) ps"
  obtain t where t: "set_cpu_share portion s = Ok (0, t)" "ptable t = map (shift_pass d) ps"
    "passOfMlfq t = passOfMlfq s - d" "uint (totPortion t) = uint (totPortion s) + portion"
    using set_cpu_share_run [OF assms] False by (auto simp: ps_def d_def)
  have len: "length ps = length (ptable s)" by (simp add: ps_def share_table_def)
  note nth = share_table_nth [OF assms(4), of _ portion, folded ps_def]
  have old: "0 < myPortion (ptable s ! j)" if "j < length (ptable s)" "checkMLFQ (ptable s ! j) = 1" for j
    using assms(1) that by (simp add: shares_ok_def)
  have "shares_ok t"
    using assms(5) t(2,4) False nth(2,3) len old
    by (auto simp: shares_ok_def in_set_conv_nth word_le_def)
  moreover have "\<forall>j. j < length (ptable t) \<and> checkMLFQ (ptable t ! j) = 1 \<longrightarrow>
      pass (ptable t ! j) = pass (ptable s ! j) - d \<and> 0 \<le> pass (ptable t ! j)"
  proof (intro allI impI)
    fix j assume j: "j < length (ptable t) \<and> checkMLFQ (ptable t ! j) = 1"
    then have "ps ! j \<in> set ps" "checkMLFQ (ps ! j) = 1" using t(2) by (auto simp: nth_map)
    from min_pass_le(2) [OF this, of "passOfMlfq s"] j t(2) len nth(1) [of j] this(2)
    show "pass (ptable t ! j) = pass (ptable s ! j) - d \<and> 0 \<le> pass (ptable t ! j)"
      by (simp add: d_def)
  qed
  moreover have "passOfMlfq t = 0 \<or> (\<exists>j < length (ptable t). checkMLFQ (ptable t ! j) = 1 \<and> pass (ptable t ! j) = 0)"
  proof (cases "d = passOfMlfq s")
    case False
    then obtain j where "j < length ps" "checkMLFQ (ps ! j) = 1" "d = pass (ps ! j)"
      using min_pass_attained [of "passOfMlfq s" ps] by (auto simp: d_def in_set_conv_nth)
    then have "j < length (ptable t)" "checkMLFQ (ptable t ! j) = 1" "pass (ptable t ! j) = 0"
      using t(2) by simp_all
    then show ?thesis by blast
  qed (use t(3) in simp)
  moreover have "0 \<le> passOfMlfq t" using min_pass_le(1) [of "passOfMlfq s" ps] t(3) by (simp add: d_def)
  moreover have "checkMLFQ (ptable t ! i) = 1 \<and> qLevel (ptable t ! i) = -1 \<and>
      stride (ptable t ! i) = 100 div portion"
    using t(2) len assms(4) nth(2,4) [of i] by simp
  ultimately show ?thesis using False t by auto
qed

theorem set_cpu_share_grants_witness:
  "\<exists>t. set_cpu_share 20 sample = Ok (0, t) \<and> stride (ptable t ! 0) = 5 \<and> totPortion t = 20"
proof -
  have "shares_ok sample" by (simp add: shares_ok_def sample_def no_proc_def)
  from set_cpu_share_grants [OF this, of 0 20] show ?thesis
    by (auto simp: word_uint_eq_iff)
qed

text \<open>A portion of 0 passes the test on the total and reaches the division.\<close>

lemma for_each_fault:
  assumes "\<And>i s. P s \<Longrightarrow> f i s = Fault m \<or> (\<exists>t. f i s = Ok t \<and> P t)"
    and "P s" "k \<in> set is" "\<And>s. P s \<Longrightarrow> f k s = Fault m"
  shows "for_each is f s = Fault m"
  using assms(2,3)
proof (induction "is" arbitrary: s)
  case (Cons j js)
  from assms(1) [OF Cons.prems(1), of j] assms(4) [OF Cons.prems(1)] Cons.IH Cons.prems
  show ?case by fastforce
qed simp

text \<open>
  C24.  \<open>set_cpu_share(0)\<close> divides by zero whenever the shares are in order: the portion 0 is
  accepted and \<open>set_stride_value\<close> computes \<open>100 / myPortion\<close> with it.
\<close>

theorem set_cpu_share_zero_faults:
  assumes "totPortion s \<le> 80" "\<not> ptable_held s" "cur s = Some i" "i < length (ptable s)"
  shows "set_cpu_share 0 s = Fault ''division by zero''"
proof -
  define s1 where "s1 = (upd_proc i (\<lambda>p. p\<lparr>checkMLFQ := 1, qLevel := -1, quantumtick := 0,
      myPortion := 0\<rparr>) (s\<lparr>ptable_held := True, numStride := numStride s + 1,
      pcount := pcount s - 1\<rparr>))"
  define P where "P = (\<lambda>t :: 'a proc_st_scheme. length (ptable t) = length (ptable s) \<and>
     checkMLFQ (ptable t ! i) = 1 \<and> myPortion (ptable t ! i) = 0)"
  have "set_stride_value s1 = Fault ''division by zero''"
    unfolding set_stride_value_def
    by (rule for_each_fault [where P = P and k = i])
      (use assms in \<open>auto simp: P_def s1_def upd_proc_def cdiv_def split: if_splits\<close>,
        (metis nth_list_update_neq)+)
  then show ?thesis
    using assms by (simp add: set_cpu_share_def acquire_ptable_def curproc_def s1_def upd_proc_def)
qed

theorem set_cpu_share_zero_faults_witness:
  "set_cpu_share 0 sample = Fault ''division by zero''"
  using set_cpu_share_zero_faults [of sample 0] by simp

end
