(* ===== verification/Bio.thy ===== *)
theory Bio
  imports Proc
begin

text \<open>
  Sleep locks (\<^verbatim>\<open>sleeplock.c\<close>), the IDE driver (\<^verbatim>\<open>ide.c\<close>, \<^verbatim>\<open>memide.c\<close> being its stand-in) and
  the buffer cache (\<^verbatim>\<open>bio.c\<close>, \<^verbatim>\<open>buf.h\<close>).

  Buffers are named by their index in \<open>bcache.buf\<close>; the doubly linked list is the list \<open>mru\<close>
  of indices from \<open>head.next\<close> on, and \<open>idequeue\<close> the list of queued buffers.  \<open>disk d b\<close> is
  block \<open>b\<close> of drive \<open>d\<close>; \<open>wtrace\<close> records the writes in the order in which the drive
  receives them, the latest first, so that a crash can be described as a prefix of it.
  \<open>ide_err\<close> is the error bit that the drive reports.

  A routine that would wait for another process is \<open>Sleeps\<close>; waiting for the disk is not: \<open>iderw\<close>
  takes the interrupts of the requests in the queue until its own is done.
\<close>

section \<open>Sleep locks\<close>

record sleeplock =
  sl_locked :: bool
  sl_pid :: int

definition initsleeplock :: "sleeplock \<Rightarrow> sleeplock" where
  "initsleeplock lk = lk\<lparr>sl_locked := False, sl_pid := 0\<rparr>"

text \<open>The channel is the address of the lock.\<close>

definition acquiresleep :: "chan \<Rightarrow> sleeplock \<Rightarrow> 'z proc_st_scheme \<Rightarrow> sleeplock res" where
  "acquiresleep c lk s =
     (if sl_locked lk then Sleeps c
      else bnd (curproc s) (\<lambda>p. Ok (lk\<lparr>sl_locked := True, sl_pid := p_pid (ptable s ! p)\<rparr>)))"

definition releasesleep :: "chan \<Rightarrow> sleeplock \<Rightarrow> 'z proc_st_scheme \<Rightarrow>
    (sleeplock \<times> 'z proc_st_scheme) res" where
  "releasesleep c lk s =
     (let lk = lk\<lparr>sl_locked := False, sl_pid := 0\<rparr> in bnd (wakeup c s) (\<lambda>s. Ok (lk, s)))"

definition holdingsleep :: "sleeplock \<Rightarrow> 'z proc_st_scheme \<Rightarrow> bool res" where
  "holdingsleep lk s =
     (if sl_locked lk then bnd (curproc s) (\<lambda>p. Ok (sl_pid lk = p_pid (ptable s ! p)))
      else Ok False)"

section \<open>Buffers and the disk\<close>

definition BSIZE :: nat where "BSIZE = 512"
definition FSSIZE :: nat where "FSSIZE = 40000"
definition NBUF :: nat where "NBUF = 30"

record buf =
  b_valid :: bool      \<comment> \<open>\<open>B_VALID\<close> in \<open>flags\<close>\<close>
  b_dirty :: bool      \<comment> \<open>\<open>B_DIRTY\<close> in \<open>flags\<close>\<close>
  b_dev :: nat
  b_blockno :: nat
  b_lock :: sleeplock
  b_refcnt :: nat
  b_data :: "byte list"

record bio_st = proc_st +
  bufs :: "buf list"
  mru :: "nat list"
  idequeue :: "nat list"
  havedisk1 :: bool
  disk :: "nat \<Rightarrow> nat \<Rightarrow> byte list"
  ide_err :: bool
  wtrace :: "(nat \<times> nat \<times> byte list) list"

definition upd_buf :: "nat \<Rightarrow> (buf \<Rightarrow> buf) \<Rightarrow> 'z bio_st_scheme \<Rightarrow> 'z bio_st_scheme" where
  "upd_buf i f s = s\<lparr>bufs := (bufs s)[i := f (bufs s ! i)]\<rparr>"

text \<open>
  \<open>idestart\<close> sends the command and, for a write, the data; the data of a read arrive with
  the interrupt.
\<close>

definition idestart :: "nat option \<Rightarrow> 'z bio_st_scheme \<Rightarrow> 'z bio_st_scheme res" where
  "idestart ob s =
     (case ob of None \<Rightarrow> Panic ''idestart''
      | Some i \<Rightarrow>
          let b = bufs s ! i; drive = b_dev b mod 2
          in if b_blockno b \<ge> FSSIZE then Panic ''incorrect blockno''
             else if b_dirty b
             then Ok (s\<lparr>disk := (disk s)(drive := (disk s drive)(b_blockno b := b_data b)),
                        wtrace := (drive, b_blockno b, b_data b) # wtrace s\<rparr>)
             else Ok s)"

definition ideintr :: "'z bio_st_scheme \<Rightarrow> 'z bio_st_scheme res" where
  "ideintr s =
     (case idequeue s of [] \<Rightarrow> Ok s
      | i # q \<Rightarrow>
          let s = s\<lparr>idequeue := q\<rparr>;
              b = bufs s ! i;
              s = (if \<not> b_dirty b \<and> \<not> ide_err s
                   then upd_buf i (\<lambda>b. b\<lparr>b_data := disk s (b_dev b mod 2) (b_blockno b)\<rparr>) s else s);
              s = upd_buf i (\<lambda>b. b\<lparr>b_valid := True, b_dirty := False\<rparr>) s
          in bnd (wakeup (BufChan i) s) (\<lambda>s.
             if q \<noteq> [] then idestart (Some (hd q)) s else Ok s))"

lemma wakeup_bio: "wakeup c s = Ok t \<Longrightarrow> idequeue t = idequeue s"
  by (auto simp: wakeup_def wakeup1_def upd_all_def res_iff)

lemma idestart_queue: "idestart ob s = Ok t \<Longrightarrow> idequeue t = idequeue s"
  by (auto simp: idestart_def Let_def res_iff split: option.splits)

lemma ideintr_queue: "ideintr s = Ok t \<Longrightarrow> idequeue t = tl (idequeue s)"
  by (auto simp: ideintr_def Let_def res_iff upd_buf_def dest!: wakeup_bio idestart_queue
      split: list.splits if_splits)

function ide_wait :: "nat \<Rightarrow> 'z bio_st_scheme \<Rightarrow> 'z bio_st_scheme res" where
  "ide_wait i s =
     (if b_valid (bufs s ! i) \<and> \<not> b_dirty (bufs s ! i) then Ok s
      else if idequeue s = [] then Sleeps (BufChan i)
      else bnd (ideintr s) (ide_wait i))"
  by pat_completeness auto
termination
  by (relation "measure (\<lambda>(i, s). length (idequeue s))")
    (auto dest!: ideintr_queue simp: diff_less neq_Nil_conv)

declare ide_wait.simps [simp del]

definition iderw :: "nat \<Rightarrow> 'z bio_st_scheme \<Rightarrow> 'z bio_st_scheme res" where
  "iderw i s =
     bnd (holdingsleep (b_lock (bufs s ! i)) s) (\<lambda>h.
     if \<not> h then Panic ''iderw: buf not locked''
     else if b_valid (bufs s ! i) \<and> \<not> b_dirty (bufs s ! i) then Panic ''iderw: nothing to do''
     else if b_dev (bufs s ! i) \<noteq> 0 \<and> \<not> havedisk1 s then Panic ''iderw: ide disk 1 not present''
     else let s = s\<lparr>idequeue := idequeue s @ [i]\<rparr>
          in bnd (if hd (idequeue s) = i then idestart (Some i) s else Ok s) (ide_wait i))"

section \<open>The buffer cache\<close>

definition binit :: "'z bio_st_scheme \<Rightarrow> 'z bio_st_scheme" where
  "binit s = foldl (\<lambda>s i. (upd_buf i (\<lambda>b. b\<lparr>b_lock := initsleeplock (b_lock b)\<rparr>) s)
     \<lparr>mru := i # mru s\<rparr>) (s\<lparr>mru := []\<rparr>) [0..<NBUF]"

definition lock_buf :: "nat \<Rightarrow> 'z bio_st_scheme \<Rightarrow> (nat \<times> 'z bio_st_scheme) res" where
  "lock_buf i s =
     bnd (acquiresleep (BufLockChan i) (b_lock (bufs s ! i)) s) (\<lambda>lk.
     Ok (i, upd_buf i (\<lambda>b. b\<lparr>b_lock := lk\<rparr>) s))"

definition bget :: "nat \<Rightarrow> nat \<Rightarrow> 'z bio_st_scheme \<Rightarrow> (nat \<times> 'z bio_st_scheme) res" where
  "bget dev blockno s =
     (case find (\<lambda>i. b_dev (bufs s ! i) = dev \<and> b_blockno (bufs s ! i) = blockno) (mru s) of
        Some i \<Rightarrow> lock_buf i (upd_buf i (\<lambda>b. b\<lparr>b_refcnt := inc32 (b_refcnt b)\<rparr>) s)
      | None \<Rightarrow>
          (case find (\<lambda>i. b_refcnt (bufs s ! i) = 0 \<and> \<not> b_dirty (bufs s ! i)) (rev (mru s)) of
             Some i \<Rightarrow> lock_buf i (upd_buf i (\<lambda>b. b\<lparr>b_dev := dev, b_blockno := blockno,
                         b_valid := False, b_dirty := False, b_refcnt := 1\<rparr>) s)
           | None \<Rightarrow> Panic ''bget: no buffers''))"

definition bread :: "nat \<Rightarrow> nat \<Rightarrow> 'z bio_st_scheme \<Rightarrow> (nat \<times> 'z bio_st_scheme) res" where
  "bread dev blockno s =
     bnd (bget dev blockno s) (\<lambda>(i, s).
     if \<not> b_valid (bufs s ! i) then bnd (iderw i s) (\<lambda>s. Ok (i, s)) else Ok (i, s))"

definition bwrite :: "nat \<Rightarrow> 'z bio_st_scheme \<Rightarrow> 'z bio_st_scheme res" where
  "bwrite i s =
     bnd (holdingsleep (b_lock (bufs s ! i)) s) (\<lambda>h.
     if \<not> h then Panic ''bwrite''
     else iderw i (upd_buf i (\<lambda>b. b\<lparr>b_dirty := True\<rparr>) s))"

definition brelse :: "nat \<Rightarrow> 'z bio_st_scheme \<Rightarrow> 'z bio_st_scheme res" where
  "brelse i s =
     bnd (holdingsleep (b_lock (bufs s ! i)) s) (\<lambda>h.
     if \<not> h then Panic ''brelse''
     else bnd (releasesleep (BufLockChan i) (b_lock (bufs s ! i)) s) (\<lambda>(lk, s).
          let s = upd_buf i (\<lambda>b. b\<lparr>b_lock := lk\<rparr>) s;
              s = upd_buf i (\<lambda>b. b\<lparr>b_refcnt := dec32 (b_refcnt b)\<rparr>) s
          in if b_refcnt (bufs s ! i) = 0 then Ok (s\<lparr>mru := i # remove1 i (mru s)\<rparr>)
             else Ok s))"

section \<open>What the cache holds\<close>

definition ROOTDEV :: nat where "ROOTDEV = 1"

definition holds :: "'z bio_st_scheme \<Rightarrow> nat \<Rightarrow> nat \<Rightarrow> bool" where
  "holds s i b \<longleftrightarrow> i < length (bufs s) \<and> b_dev (bufs s ! i) = ROOTDEV \<and> b_blockno (bufs s ! i) = b"

text \<open>The content of a block of the root device: its buffer if it has one, else the disk.\<close>

definition lookup :: "'z bio_st_scheme \<Rightarrow> nat \<Rightarrow> nat option" where
  "lookup s b = find_idx (\<lambda>x. b_dev x = ROOTDEV \<and> b_blockno x = b) (bufs s)"

definition content :: "'z bio_st_scheme \<Rightarrow> nat \<Rightarrow> byte list" where
  "content s b = (case lookup s b of Some i \<Rightarrow> b_data (bufs s ! i) | None \<Rightarrow> disk s ROOTDEV b)"

definition my_pid :: "'z proc_st_scheme \<Rightarrow> int" where
  "my_pid s = p_pid (ptable s ! the (cur s))"

definition env_ok :: "'z bio_st_scheme \<Rightarrow> bool" where
  "env_ok s \<longleftrightarrow> \<not> ptable_held s \<and> cur s \<noteq> None \<and> the (cur s) < length (ptable s) \<and>
     idequeue s = [] \<and> havedisk1 s \<and> \<not> ide_err s \<and> length (bufs s) = NBUF \<and>
     set (mru s) = {..<NBUF} \<and> (\<forall>b. length (disk s ROOTDEV b) = BSIZE)"

text \<open>
  The state of one buffer, when the current process holds the blocks \<open>H\<close>: a held buffer is
  locked by this process, every other one is free, and it is dirty or agrees with the disk.
\<close>

definition buf_ok :: "'z bio_st_scheme \<Rightarrow> nat set \<Rightarrow> buf \<Rightarrow> bool" where
  "buf_ok s H x \<longleftrightarrow>
     (if b_dev x = ROOTDEV then
        b_valid x \<and> b_blockno x < FSSIZE \<and> length (b_data x) = BSIZE \<and>
        (if b_blockno x \<in> H
         then sl_locked (b_lock x) \<and> sl_pid (b_lock x) = my_pid s \<and> b_refcnt x = 1
         else \<not> sl_locked (b_lock x) \<and> b_refcnt x = 0 \<and>
              (b_dirty x \<or> b_data x = disk s ROOTDEV (b_blockno x)))
      else \<not> sl_locked (b_lock x) \<and> b_refcnt x = 0 \<and> \<not> b_dirty x)"

definition bio_inv :: "'z bio_st_scheme \<Rightarrow> nat set \<Rightarrow> bool" where
  "bio_inv s H \<longleftrightarrow> env_ok s \<and> (\<forall>x \<in> set (bufs s). buf_ok s H x) \<and>
     (\<forall>b\<in>H. \<exists>i. holds s i b) \<and>
     (\<forall>i j b. holds s i b \<and> holds s j b \<longrightarrow> i = j)"

text \<open>The dirty blocks: those whose buffer must not be reused.\<close>

definition dirty :: "'z bio_st_scheme \<Rightarrow> nat set" where
  "dirty s = {b. \<exists>i. holds s i b \<and> b_dirty (bufs s ! i)}"

text \<open>The cache depends on these fields only.\<close>

lemma bio_same:
  assumes "ptable t = ptable s" "ptable_held t = ptable_held s" "cur t = cur s" "idequeue t = idequeue s"
    "havedisk1 t = havedisk1 s" "ide_err t = ide_err s" "bufs t = bufs s" "mru t = mru s" "disk t = disk s"
  shows "bio_inv t H = bio_inv s H" "content t = content s" "dirty t = dirty s" "holds t = holds s"
proof -
  show h: "holds t = holds s" by (intro ext) (simp add: holds_def assms)
  show "dirty t = dirty s" by (simp add: dirty_def h assms)
  show "content t = content s" by (intro ext) (simp add: content_def lookup_def assms split: option.split)
  have "buf_ok t H = buf_ok s H" by (intro ext) (simp add: buf_ok_def my_pid_def assms)
  then show "bio_inv t H = bio_inv s H" by (simp add: bio_inv_def env_ok_def h assms)
qed

text \<open>
  What operations on buffers leave alone: everything but the buffers and the disk; wakeups
  change the states in the process table but no pid.
\<close>

definition bio_frame :: "'z bio_st_scheme \<Rightarrow> 'z bio_st_scheme \<Rightarrow> bool" where
  "bio_frame s t \<longleftrightarrow> (\<exists>pt bs m d w. t = s\<lparr>ptable := pt, bufs := bs, mru := m, disk := d, wtrace := w\<rparr> \<and>
     map p_pid pt = map p_pid (ptable s))"

lemma bio_frame_refl [simp]: "bio_frame s s"
  by (cases s) (auto simp: bio_frame_def)

lemma bio_frameI:
  "map p_pid pt = map p_pid (ptable s) \<Longrightarrow>
   bio_frame s (s\<lparr>ptable := pt, bufs := bs, mru := m, disk := d, wtrace := w\<rparr>)"
  unfolding bio_frame_def by blast

text \<open>An update of other fields commutes with the operations on buffers.\<close>

lemma bio_frame_map:
  assumes "bio_frame s t" "ptable (f s) = ptable s"
    and "\<And>pt bs m d w. f (s\<lparr>ptable := pt, bufs := bs, mru := m, disk := d, wtrace := w\<rparr>) =
      (f s)\<lparr>ptable := pt, bufs := bs, mru := m, disk := d, wtrace := w\<rparr>"
  shows "bio_frame (f s) (f t)"
proof -
  from assms(1) obtain pt bs m d w where
    "t = s\<lparr>ptable := pt, bufs := bs, mru := m, disk := d, wtrace := w\<rparr>" "map p_pid pt = map p_pid (ptable s)"
    unfolding bio_frame_def by blast
  with assms(2,3) show ?thesis by (simp add: bio_frameI)
qed

lemma bio_frame_trans [trans]:
  assumes "bio_frame s t" "bio_frame t u"
  shows "bio_frame s u"
proof -
  from assms obtain pt bs m d w pt' bs' m' d' w' where
    t: "t = s\<lparr>ptable := pt, bufs := bs, mru := m, disk := d, wtrace := w\<rparr>"
      "map p_pid pt = map p_pid (ptable s)" and
    u: "u = t\<lparr>ptable := pt', bufs := bs', mru := m', disk := d', wtrace := w'\<rparr>"
      "map p_pid pt' = map p_pid (ptable t)" unfolding bio_frame_def by blast
  then have "u = s\<lparr>ptable := pt', bufs := bs', mru := m', disk := d', wtrace := w'\<rparr>" by simp
  with t u show ?thesis by (simp add: bio_frameI)
qed

lemma bio_frameD:
  assumes "bio_frame s t"
  shows "cur t = cur s" "ptable_held t = ptable_held s" "idequeue t = idequeue s"
    "havedisk1 t = havedisk1 s" "ide_err t = ide_err s" "length (ptable t) = length (ptable s)"
    "memory t = memory s" "freelist t = freelist s" "bio_st.more t = bio_st.more s"
    "map p_pid (ptable t) = map p_pid (ptable s)"
  using assms by (auto simp: bio_frame_def dest: map_eq_imp_length_eq)

lemma my_pid_frame:
  assumes "bio_frame s t" "the (cur s) < length (ptable s)"
  shows "my_pid t = my_pid s"
  using bio_frameD [OF assms(1)] assms(2) by (metis my_pid_def nth_map)

lemma lookup_iff:
  assumes "\<And>i j b. holds s i b \<Longrightarrow> holds s j b \<Longrightarrow> i = j"
  shows "lookup s b = Some i \<longleftrightarrow> holds s i b"
  using assms by (auto simp: lookup_def holds_def find_idx_Some) (metis order.strict_trans nat_neq_iff)+

lemma lookup_None: "lookup s b = None \<longleftrightarrow> (\<forall>i. \<not> holds s i b)"
  by (simp add: lookup_def holds_def find_idx_None all_set_conv_all_nth) blast

lemma bio_inv_uniq: "bio_inv s H \<Longrightarrow> holds s i b \<Longrightarrow> holds s j b \<Longrightarrow> i = j"
  unfolding bio_inv_def by blast

lemma lookup_inv: "bio_inv s H \<Longrightarrow> lookup s b = Some i \<longleftrightarrow> holds s i b"
  using lookup_iff bio_inv_uniq by blast

lemma content_holds: "bio_inv s H \<Longrightarrow> holds s i b \<Longrightarrow> content s b = b_data (bufs s ! i)"
  by (simp add: content_def lookup_inv [THEN iffD2])

lemma wakeup_frame:
  assumes "\<not> ptable_held s"
  shows "\<exists>pt. wakeup c s = Ok (s\<lparr>ptable := pt\<rparr>) \<and> map p_pid pt = map p_pid (ptable s)"
proof -
  let ?f = "\<lambda>p. if p_state p = SLEEPING \<and> p_chan p = Some c then p\<lparr>p_state := RUNNABLE\<rparr> else p"
  have "wakeup c s = Ok (s\<lparr>ptable := map ?f (ptable s)\<rparr>)"
    using assms by (cases s) (simp add: wakeup_def wakeup1_def upd_all_map acquire_ptable_def release_ptable_def)
  moreover have "map p_pid (map ?f (ptable s)) = map p_pid (ptable s)" by simp
  ultimately show ?thesis by blast
qed

section \<open>Changing one buffer\<close>

lemma env_ok_frame:
  assumes "env_ok s" "bio_frame s t" "length (bufs t) = NBUF" "set (mru t) = {..<NBUF}"
    "\<And>b. length (disk t ROOTDEV b) = BSIZE"
  shows "env_ok t"
  using assms bio_frameD [OF assms(2)] by (simp add: env_ok_def)

lemma holds_block: "holds s i b \<Longrightarrow> holds s i c \<Longrightarrow> c = b"
  by (simp add: holds_def)

lemma holds_change:
  assumes "bufs t = (bufs s)[i := x]" "i < length (bufs s)"
  shows "holds t j b \<longleftrightarrow> (if j = i then b_dev x = ROOTDEV \<and> b_blockno x = b else holds s j b)"
  using assms by (auto simp: holds_def)

text \<open>
  \<open>buf_change s t H H' i x\<close>: \<open>t\<close> is \<open>s\<close> with buffer \<open>i\<close> replaced by \<open>x\<close>, the blocks \<open>H'\<close> held
  instead of \<open>H\<close>, and every buffer in order with respect to \<open>H'\<close>.
\<close>

definition buf_change ::
  "'z bio_st_scheme \<Rightarrow> 'z bio_st_scheme \<Rightarrow> nat set \<Rightarrow> nat set \<Rightarrow> nat \<Rightarrow> buf \<Rightarrow> bool" where
  "buf_change s t H H' i x \<longleftrightarrow> bio_inv s H \<and> i < NBUF \<and> bio_frame s t \<and>
     bufs t = (bufs s)[i := x] \<and> set (mru t) = {..<NBUF} \<and>
     (\<forall>b. length (disk t ROOTDEV b) = BSIZE) \<and> buf_ok t H' x \<and>
     (\<forall>j. j < NBUF \<and> j \<noteq> i \<longrightarrow> buf_ok t H' (bufs s ! j)) \<and>
     (\<forall>j. b_dev x = ROOTDEV \<and> holds s j (b_blockno x) \<longrightarrow> j = i) \<and>
     (\<forall>b\<in>H'. (b_dev x = ROOTDEV \<and> b = b_blockno x) \<or> (\<exists>j. j \<noteq> i \<and> holds s j b)) \<and>
     (\<forall>b. b \<noteq> b_blockno x \<or> b_dev x \<noteq> ROOTDEV \<longrightarrow> disk t ROOTDEV b = disk s ROOTDEV b)"

lemma bio_inv_len: "bio_inv s H \<Longrightarrow> length (bufs s) = NBUF"
  by (simp add: bio_inv_def env_ok_def)

lemma buf_changeD:
  assumes "buf_change s t H H' i x"
  shows "bio_inv s H" "i < NBUF" "i < length (bufs s)" "length (bufs s) = NBUF" "bio_frame s t"
    "bufs t = (bufs s)[i := x]" "set (mru t) = {..<NBUF}" "length (disk t ROOTDEV b) = BSIZE"
    "buf_ok t H' x" "j < NBUF \<Longrightarrow> j \<noteq> i \<Longrightarrow> buf_ok t H' (bufs s ! j)"
    "b_dev x = ROOTDEV \<Longrightarrow> holds s j (b_blockno x) \<Longrightarrow> j = i"
    "b \<in> H' \<Longrightarrow> (b_dev x = ROOTDEV \<and> b = b_blockno x) \<or> (\<exists>j. j \<noteq> i \<and> holds s j b)"
    "b \<noteq> b_blockno x \<or> b_dev x \<noteq> ROOTDEV \<Longrightarrow> disk t ROOTDEV b = disk s ROOTDEV b"
  using assms bio_inv_len [of s H] unfolding buf_change_def by simp_all

lemma buf_change_holds:
  assumes "buf_change s t H H' i x"
  shows "holds t j b \<longleftrightarrow> (if j = i then b_dev x = ROOTDEV \<and> b_blockno x = b else holds s j b)"
  by (rule holds_change [OF buf_changeD(6,3) [OF assms]])

lemma buf_change_inv:
  assumes c: "buf_change s t H H' i x"
  shows "bio_inv t H'"
  unfolding bio_inv_def
proof (intro conjI ballI allI impI)
  have env: "env_ok s" using buf_changeD(1) [OF c] by (simp add: bio_inv_def)
  have len: "length (bufs t) = NBUF" using buf_changeD(4,6) [OF c] by simp
  show "env_ok t"
    by (rule env_ok_frame [OF env buf_changeD(5) [OF c] len buf_changeD(7,8) [OF c]])
  fix y assume "y \<in> set (bufs t)"
  then obtain j where j: "j < NBUF" "y = bufs t ! j" unfolding in_set_conv_nth len by blast
  show "buf_ok t H' y"
  proof (cases "j = i")
    case True
    with j buf_changeD(3,6,9) [OF c] show ?thesis by simp
  next
    case False
    with j buf_changeD(6) [OF c] have "y = bufs s ! j" by simp
    with buf_changeD(10) [OF c j(1) False] show ?thesis by simp
  qed
next
  fix b assume "b \<in> H'"
  from buf_changeD(12) [OF c this] show "\<exists>j. holds t j b" by (auto simp: buf_change_holds [OF c])
next
  fix j k b assume "holds t j b \<and> holds t k b"
  then have jk: "holds t j b" "holds t k b" by simp_all
  show "j = k"
  proof (cases "j = i \<or> k = i")
    case True
    with jk show ?thesis
      using buf_changeD(11) [OF c] unfolding buf_change_holds [OF c] by metis
  next
    case False
    with jk have "holds s j b" "holds s k b" by (simp_all add: buf_change_holds [OF c])
    then show ?thesis by (rule bio_inv_uniq [OF buf_changeD(1) [OF c]])
  qed
qed

lemma content_None: "\<forall>i. \<not> holds s i b \<Longrightarrow> content s b = disk s ROOTDEV b"
  unfolding lookup_None [symmetric] by (simp add: content_def)

lemma buf_change_content:
  assumes c: "buf_change s t H H' i x"
  shows "content t b = (if b_dev x = ROOTDEV \<and> b = b_blockno x then b_data x
    else if holds s i b then disk s ROOTDEV b else content s b)"
proof (cases "b_dev x = ROOTDEV \<and> b = b_blockno x")
  case True
  then have "holds t i b" by (simp add: buf_change_holds [OF c])
  from content_holds [OF buf_change_inv [OF c] this] True show ?thesis
    using buf_changeD(3,6) [OF c] by simp
next
  case no: False
  have d: "disk t ROOTDEV b = disk s ROOTDEV b" using buf_changeD(13) [OF c] no by blast
  note inv = buf_changeD(1) [OF c]
  show ?thesis
  proof (cases "\<exists>j. j \<noteq> i \<and> holds s j b")
    case True
    then obtain j where j: "j \<noteq> i" "holds s j b" by blast
    then have "holds t j b" by (simp add: buf_change_holds [OF c])
    from content_holds [OF buf_change_inv [OF c] this] content_holds [OF inv j(2)]
      bio_inv_uniq [OF inv j(2), of i] j no buf_changeD(6) [OF c] show ?thesis by auto
  next
    case False
    then have "\<forall>j. \<not> holds t j b" using no by (auto simp: buf_change_holds [OF c])
    from content_None [OF this] d have "content t b = disk s ROOTDEV b" by simp
    moreover have "content s b = disk s ROOTDEV b" if "\<not> holds s i b"
      using content_None [of s b] False that by metis
    ultimately show ?thesis using no by auto
  qed
qed

lemma bio_inv_my_pid: "bio_inv s H \<Longrightarrow> bio_frame s t \<Longrightarrow> my_pid t = my_pid s"
  by (rule my_pid_frame) (auto simp: bio_inv_def env_ok_def)

lemma bio_inv_buf: "bio_inv s H \<Longrightarrow> j < NBUF \<Longrightarrow> buf_ok s H (bufs s ! j)"
  using bio_inv_len [of s H] by (simp add: bio_inv_def)

lemma buf_ok_other:
  assumes "bio_inv s H" "j < NBUF" "bio_frame s t"
    and "b_dev (bufs s ! j) = ROOTDEV \<Longrightarrow>
      disk t ROOTDEV (b_blockno (bufs s ! j)) = disk s ROOTDEV (b_blockno (bufs s ! j)) \<and>
      (b_blockno (bufs s ! j) \<in> H' \<longleftrightarrow> b_blockno (bufs s ! j) \<in> H)"
  shows "buf_ok t H' (bufs s ! j)"
  using bio_inv_buf [OF assms(1,2)] bio_inv_my_pid [OF assms(1,3)] assms(4)
  by (simp add: buf_ok_def)

lemma holds_less: "bio_inv s H \<Longrightarrow> holds s i b \<Longrightarrow> i < NBUF"
  using bio_inv_len [of s H] by (auto simp: holds_def)

lemma other_block:
  assumes "bio_inv s H" "holds s i b" "j < NBUF" "j \<noteq> i" "b_dev (bufs s ! j) = ROOTDEV"
  shows "b_blockno (bufs s ! j) \<noteq> b"
  using bio_inv_uniq [OF assms(1,2), of j] assms bio_inv_len [OF assms(1)] by (auto simp: holds_def)

text \<open>A request on an idle drive is served at once.\<close>

lemma iderw_spec:
  assumes env: "env_ok s" and i: "i < NBUF"
    and lk: "sl_locked (b_lock (bufs s ! i))" "sl_pid (b_lock (bufs s ! i)) = my_pid s"
    and x: "b_dev (bufs s ! i) = ROOTDEV" "b_blockno (bufs s ! i) < FSSIZE"
      "\<not> b_valid (bufs s ! i) \<or> b_dirty (bufs s ! i)"
  shows "\<exists>pt. map p_pid pt = map p_pid (ptable s) \<and> iderw i s = Ok
    (let x = bufs s ! i; b = b_blockno x in
     if b_dirty x
     then s\<lparr>ptable := pt, bufs := (bufs s)[i := x\<lparr>b_valid := True, b_dirty := False\<rparr>],
        disk := (disk s)(ROOTDEV := (disk s ROOTDEV)(b := b_data x)),
        wtrace := (ROOTDEV, b, b_data x) # wtrace s\<rparr>
     else s\<lparr>ptable := pt, bufs := (bufs s)[i := x\<lparr>b_data := disk s ROOTDEV b, b_valid := True,
        b_dirty := False\<rparr>]\<rparr>)"
proof -
  define x where "x = bufs s ! i"
  define s1 where "s1 = (if b_dirty x then s\<lparr>disk := (disk s)(ROOTDEV := (disk s ROOTDEV)(b_blockno x := b_data x)),
      wtrace := (ROOTDEV, b_blockno x, b_data x) # wtrace s\<rparr> else s)"
  define x' where "x' = (if b_dirty x then x\<lparr>b_valid := True, b_dirty := False\<rparr>
      else x\<lparr>b_data := disk s ROOTDEV (b_blockno x), b_valid := True, b_dirty := False\<rparr>)"
  have len: "length (bufs s) = NBUF" and q: "idequeue s = []"
    and e: "havedisk1 s" "\<not> ide_err s" "\<not> ptable_held s" and c: "\<exists>p. cur s = Some p"
    using env by (auto simp: env_ok_def)
  have s1: "bufs s1 = bufs s" "ide_err s1 = ide_err s" "ptable_held s1 = ptable_held s"
    "ptable s1 = ptable s" "disk s1 = disk s \<or> b_dirty x" by (simp_all add: s1_def)
  have "holdingsleep (b_lock x) s = Ok True"
    using lk c by (auto simp: holdingsleep_def curproc_def my_pid_def x_def)
  moreover have "idestart (Some i) (s\<lparr>idequeue := [i]\<rparr>) = Ok (s1\<lparr>idequeue := [i]\<rparr>)"
    using x by (simp add: idestart_def s1_def x_def ROOTDEV_def Let_def)
  ultimately have start: "iderw i s = ide_wait i (s1\<lparr>idequeue := [i]\<rparr>)"
    using x e q by (auto simp: iderw_def x_def)
  obtain pt where pt: "wakeup (BufChan i) (s1\<lparr>idequeue := [], bufs := (bufs s)[i := x']\<rparr>) =
      Ok (s1\<lparr>idequeue := [], bufs := (bufs s)[i := x'], ptable := pt\<rparr>)"
    "map p_pid pt = map p_pid (ptable s)"
    using wakeup_frame [of "s1\<lparr>idequeue := [], bufs := (bufs s)[i := x']\<rparr>" "BufChan i"] e s1 by auto
  have "ideintr (s1\<lparr>idequeue := [i]\<rparr>) = Ok (s1\<lparr>idequeue := [], bufs := (bufs s)[i := x'], ptable := pt\<rparr>)"
    using pt(1) s1 e i len x(1)
    by (cases "b_dirty x") (simp_all add: ideintr_def upd_buf_def x_def [symmetric] x'_def ROOTDEV_def)
  moreover have "ide_wait i (s1\<lparr>idequeue := [], bufs := (bufs s)[i := x'], ptable := pt\<rparr>) =
      Ok (s1\<lparr>idequeue := [], bufs := (bufs s)[i := x'], ptable := pt\<rparr>)"
    using i len by (subst ide_wait.simps) (simp add: x'_def)
  ultimately have "iderw i s = Ok (s1\<lparr>idequeue := [], bufs := (bufs s)[i := x'], ptable := pt\<rparr>)"
    unfolding start using x(3) s1
    by (auto simp: ide_wait.simps [of i "s1\<lparr>idequeue := [i]\<rparr>"])
  moreover have "s\<lparr>idequeue := []\<rparr> = s" using q by (cases s) simp
  ultimately show ?thesis
    using pt(2) unfolding s1_def x'_def x_def by (intro exI [of _ pt]) (cases s, simp add: Let_def)
qed

lemma iderw_write:
  assumes "env_ok s" "i < NBUF" "bufs s ! i = x" "sl_locked (b_lock x)" "sl_pid (b_lock x) = my_pid s"
    and "b_dev x = ROOTDEV" "b_blockno x = b" "b < FSSIZE" "b_dirty x" "b_data x = dat"
  shows "\<exists>pt. map p_pid pt = map p_pid (ptable s) \<and> iderw i s =
    Ok (s\<lparr>ptable := pt, bufs := (bufs s)[i := x\<lparr>b_valid := True, b_dirty := False\<rparr>],
      disk := (disk s)(ROOTDEV := (disk s ROOTDEV)(b := dat)), wtrace := (ROOTDEV, b, dat) # wtrace s\<rparr>)"
  using iderw_spec [OF assms(1,2)] assms(3-10) by (simp add: Let_def)

lemma bio_inv_frame_facts:
  assumes "bio_inv s H"
  shows "\<exists>p. cur s = Some p \<and> p_pid (ptable s ! p) = my_pid s" "\<not> ptable_held s"
    "set (mru s) = {..<NBUF}" "length (disk s ROOTDEV b) = BSIZE" "env_ok s"
  using assms by (auto simp: bio_inv_def env_ok_def my_pid_def)

lemma acquiresleep_free:
  assumes "bio_inv s H" "\<not> sl_locked lk"
  shows "acquiresleep c lk s = Ok (lk\<lparr>sl_locked := True, sl_pid := my_pid s\<rparr>)"
  using bio_inv_frame_facts(1) [OF assms(1)] assms(2) by (auto simp: acquiresleep_def curproc_def)

lemma upd_buf_sels [simp]:
  "ptable (upd_buf i f s) = ptable s" "cur (upd_buf i f s) = cur s" "mru (upd_buf i f s) = mru s"
  "disk (upd_buf i f s) = disk s" "wtrace (upd_buf i f s) = wtrace s"
  "ptable_held (upd_buf i f s) = ptable_held s" "length (bufs (upd_buf i f s)) = length (bufs s)"
  "idequeue (upd_buf i f s) = idequeue s" "havedisk1 (upd_buf i f s) = havedisk1 s"
  "ide_err (upd_buf i f s) = ide_err s" "my_pid (upd_buf i f s) = my_pid s"
  "i < length (bufs s) \<Longrightarrow> bufs (upd_buf i f s) ! i = f (bufs s ! i)"
  "bufs (upd_buf i f s) = (bufs s)[i := f (bufs s ! i)]"
  by (simp_all add: upd_buf_def my_pid_def)

lemma lock_buf_free:
  assumes inv: "bio_inv s H" and t: "t = upd_buf i f s" and "i < NBUF"
    and "b_lock (f (bufs s ! i)) = b_lock (bufs s ! i)" "\<not> sl_locked (b_lock (bufs s ! i))"
  shows "lock_buf i t = Ok (i, upd_buf i (\<lambda>x. (f x)\<lparr>b_lock := (b_lock x)\<lparr>sl_locked := True,
    sl_pid := my_pid s\<rparr>\<rparr>) s)"
proof -
  have l: "i < length (bufs s)" using assms(3) bio_inv_len [OF inv] by simp
  have "acquiresleep (BufLockChan i) (b_lock (bufs s ! i)) t =
      Ok ((b_lock (bufs s ! i))\<lparr>sl_locked := True, sl_pid := my_pid s\<rparr>)"
    using bio_inv_frame_facts(1) [OF inv] assms(5) by (auto simp: acquiresleep_def curproc_def t)
  then show ?thesis using assms(4) l by (simp add: lock_buf_def t) (simp add: upd_buf_def)
qed

lemma bio_frame_bufs: "bio_frame s (upd_buf i f s)"
proof -
  have "upd_buf i f s = s\<lparr>ptable := ptable s, bufs := (bufs s)[i := f (bufs s ! i)], mru := mru s,
      disk := disk s, wtrace := wtrace s\<rparr>"
    by (simp add: upd_buf_def)
  then show ?thesis by (simp only: bio_frameI [OF refl])
qed

lemma buf_change_dirty:
  assumes c: "buf_change s t H H' i x"
  shows "dirty t = {b. (\<exists>j. j \<noteq> i \<and> holds s j b \<and> b_dirty (bufs s ! j)) \<or>
    (b_dev x = ROOTDEV \<and> b = b_blockno x \<and> b_dirty x)}" (is "_ = ?R")
proof (intro set_eqI)
  fix b
  have "b \<in> dirty t \<longleftrightarrow> (\<exists>j. holds t j b \<and> b_dirty (bufs t ! j))" by (simp add: dirty_def)
  also have "\<dots> \<longleftrightarrow> b \<in> ?R"
    unfolding buf_change_holds [OF c] using buf_changeD(3,6) [OF c] by auto
  finally show "b \<in> dirty t \<longleftrightarrow> b \<in> ?R" .
qed

lemma find_cached:
  assumes "bio_inv s H" "holds s i b"
  shows "find (\<lambda>i. b_dev (bufs s ! i) = ROOTDEV \<and> b_blockno (bufs s ! i) = b) (mru s) = Some i"
proof -
  have i: "i \<in> set (mru s)" using holds_less [OF assms] bio_inv_frame_facts(3) [OF assms(1)] by simp
  have p: "b_dev (bufs s ! i) = ROOTDEV \<and> b_blockno (bufs s ! i) = b" using assms(2) by (simp add: holds_def)
  then obtain j where j: "find (\<lambda>i. b_dev (bufs s ! i) = ROOTDEV \<and> b_blockno (bufs s ! i) = b) (mru s) = Some j"
    using i by (metis (mono_tags, lifting) find_None_iff not_None_eq)
  then have "b_dev (bufs s ! j) = ROOTDEV \<and> b_blockno (bufs s ! j) = b" "j \<in> set (mru s)"
    by (auto simp: find_Some_iff)
  then have "holds s j b"
    using bio_inv_frame_facts(3) [OF assms(1)] bio_inv_len [OF assms(1)] by (auto simp: holds_def)
  with bio_inv_uniq [OF assms] j show ?thesis by simp
qed

text \<open>\<open>bread\<close> of a block that is cached: its buffer is locked and counted, nothing else changes.\<close>

lemma bread_cached:
  assumes inv: "bio_inv s H" and h: "holds s i b" and b: "b \<notin> H"
  shows "\<exists>t x. bread ROOTDEV b s = Ok (i, t) \<and> buf_change s t H (insert b H) i x \<and>
    disk t = disk s \<and> wtrace t = wtrace s \<and> b_dev x = ROOTDEV \<and> b_blockno x = b \<and>
    b_data x = b_data (bufs s ! i) \<and> b_dirty x = b_dirty (bufs s ! i)"
proof -
  define f where "f = (\<lambda>x :: buf. x\<lparr>b_refcnt := inc32 (b_refcnt x), b_lock := (b_lock x)\<lparr>sl_locked := True,
    sl_pid := my_pid s\<rparr>\<rparr>)"
  define t where "t = upd_buf i f s"
  have i: "i < NBUF" "i < length (bufs s)" using holds_less [OF inv h] bio_inv_len [OF inv] by simp_all
  have x: "b_dev (bufs s ! i) = ROOTDEV" "b_blockno (bufs s ! i) = b" using h by (auto simp: holds_def)
  then have ok: "b_valid (bufs s ! i)" "b < FSSIZE" "length (b_data (bufs s ! i)) = BSIZE"
    "\<not> sl_locked (b_lock (bufs s ! i))" "b_refcnt (bufs s ! i) = 0"
    using bio_inv_buf [OF inv i(1)] b by (simp_all add: buf_ok_def)
  have "bget ROOTDEV b s = Ok (i, t)"
    using lock_buf_free [OF inv refl i(1), of "\<lambda>x. x\<lparr>b_refcnt := inc32 (b_refcnt x)\<rparr>"] ok
    by (simp add: bget_def find_cached [OF inv h] t_def f_def del: upd_buf_sels)
  then have run: "bread ROOTDEV b s = Ok (i, t)" using ok i by (simp add: bread_def t_def f_def)
  have fr: "bio_frame s t" unfolding t_def by (rule bio_frame_bufs)
  have others: "buf_ok t (insert b H) (bufs s ! j)" if "j < NBUF" "j \<noteq> i" for j
    using other_block [OF inv h that] by (intro buf_ok_other [OF inv that(1) fr]) (auto simp: t_def)
  have xok: "buf_ok t (insert b H) (f (bufs s ! i))"
    using ok x bio_inv_my_pid [OF inv fr] by (simp add: buf_ok_def f_def inc32_def)
  have "buf_change s t H (insert b H) i (f (bufs s ! i))"
    unfolding buf_change_def
  proof (intro conjI allI ballI impI)
    show "(b_dev (f (bufs s ! i)) = ROOTDEV \<and> c = b_blockno (f (bufs s ! i))) \<or> (\<exists>j. j \<noteq> i \<and> holds s j c)"
      if "c \<in> insert b H" for c
    proof (cases "c = b")
      case False
      with that obtain j where "holds s j c" using inv by (auto simp: bio_inv_def)
      with False x show ?thesis by (auto simp: holds_def)
    qed (simp add: f_def x)
    show "j = i" if "b_dev (f (bufs s ! i)) = ROOTDEV \<and> holds s j (b_blockno (f (bufs s ! i)))" for j
      using that bio_inv_uniq [OF inv h] x by (simp add: f_def)
  qed (use inv i fr xok others bio_inv_frame_facts [OF inv] in \<open>simp_all add: t_def\<close>)
  with run x show ?thesis
    by (intro exI [of _ t] exI [of _ "f (bufs s ! i)"]) (simp add: t_def f_def)
qed

lemma find_unused:
  assumes inv: "bio_inv s H" and k: "k < NBUF" "b_refcnt (bufs s ! k) = 0" "\<not> b_dirty (bufs s ! k)"
  shows "\<exists>i < NBUF. find (\<lambda>i. b_refcnt (bufs s ! i) = 0 \<and> \<not> b_dirty (bufs s ! i)) (rev (mru s)) = Some i \<and>
    b_refcnt (bufs s ! i) = 0 \<and> \<not> b_dirty (bufs s ! i)"
proof -
  let ?P = "\<lambda>i. b_refcnt (bufs s ! i) = 0 \<and> \<not> b_dirty (bufs s ! i)"
  have "k \<in> set (rev (mru s))" using k(1) bio_inv_frame_facts(3) [OF inv] by simp
  with k have "find ?P (rev (mru s)) \<noteq> None" unfolding find_None_iff by blast
  then obtain i where i: "find ?P (rev (mru s)) = Some i" by blast
  then obtain n where "n < length (rev (mru s))" "?P (rev (mru s) ! n)" "i = rev (mru s) ! n"
    unfolding find_Some_iff by blast
  then have "?P i" "i \<in> set (rev (mru s))" using nth_mem [of n "rev (mru s)"] by simp_all
  with i bio_inv_frame_facts(3) [OF inv] show ?thesis by auto
qed

text \<open>
  \<open>bread\<close> of a block that is not cached recycles a buffer that is neither used nor dirty and
  reads the block.
\<close>

lemma bget_unused:
  assumes inv: "bio_inv s H" and no: "\<And>i. \<not> holds s i b" and i: "i < NBUF"
    and f: "find (\<lambda>i. b_refcnt (bufs s ! i) = 0 \<and> \<not> b_dirty (bufs s ! i)) (rev (mru s)) = Some i"
    and r: "b_refcnt (bufs s ! i) = 0"
  shows "bget ROOTDEV b s = Ok (i, upd_buf i (\<lambda>x. x\<lparr>b_dev := ROOTDEV, b_blockno := b, b_valid := False,
    b_dirty := False, b_refcnt := 1, b_lock := (b_lock x)\<lparr>sl_locked := True, sl_pid := my_pid s\<rparr>\<rparr>) s)"
proof -
  have "find (\<lambda>i. b_dev (bufs s ! i) = ROOTDEV \<and> b_blockno (bufs s ! i) = b) (mru s) = None"
    using no bio_inv_frame_facts(3) [OF inv] bio_inv_len [OF inv] by (auto simp: find_None_iff holds_def)
  moreover have "\<not> sl_locked (b_lock (bufs s ! i))"
    using bio_inv_buf [OF inv i] r by (auto simp: buf_ok_def split: if_splits)
  ultimately show ?thesis
    using f lock_buf_free [OF inv refl i, of "\<lambda>x. x\<lparr>b_dev := ROOTDEV, b_blockno := b, b_valid := False,
      b_dirty := False, b_refcnt := 1\<rparr>"]
    by (simp add: bget_def del: upd_buf_sels)
qed

lemma bread_uncached:
  assumes inv: "bio_inv s H" and no: "\<And>i. \<not> holds s i b" and b: "b < FSSIZE"
    and k: "k < NBUF" "b_refcnt (bufs s ! k) = 0" "\<not> b_dirty (bufs s ! k)"
  shows "\<exists>i t x. bread ROOTDEV b s = Ok (i, t) \<and> buf_change s t H (insert b H) i x \<and>
    disk t = disk s \<and> wtrace t = wtrace s \<and> b_dev x = ROOTDEV \<and> b_blockno x = b \<and>
    b_data x = disk s ROOTDEV b \<and> \<not> b_dirty x \<and>
    b_refcnt (bufs s ! i) = 0 \<and> \<not> b_dirty (bufs s ! i)"
proof -
  obtain i where i: "i < NBUF" "b_refcnt (bufs s ! i) = 0" "\<not> b_dirty (bufs s ! i)"
    and fi: "find (\<lambda>i. b_refcnt (bufs s ! i) = 0 \<and> \<not> b_dirty (bufs s ! i)) (rev (mru s)) = Some i"
    using find_unused [OF inv k] by blast
  have len: "i < length (bufs s)" "length (bufs s) = NBUF" using i bio_inv_len [OF inv] by simp_all
  define x1 where "x1 = (bufs s ! i)\<lparr>b_dev := ROOTDEV, b_blockno := b, b_valid := False, b_dirty := False,
    b_refcnt := 1, b_lock := (b_lock (bufs s ! i))\<lparr>sl_locked := True, sl_pid := my_pid s\<rparr>\<rparr>"
  define x where "x = x1\<lparr>b_data := disk s ROOTDEV b, b_valid := True, b_dirty := False\<rparr>"
  define s1 where "s1 = s\<lparr>bufs := (bufs s)[i := x1]\<rparr>"
  have bg: "bget ROOTDEV b s = Ok (i, s1)"
    using bget_unused [OF inv no i(1) fi i(2)] by (simp add: s1_def x1_def upd_buf_def)
  have s1i: "bufs s1 ! i = x1" using len by (simp add: s1_def)
  have "env_ok s1" "my_pid s1 = my_pid s"
    using bio_inv_frame_facts(5) [OF inv] by (simp_all add: env_ok_def s1_def my_pid_def)
  with iderw_spec [of s1 i] i(1) b obtain pt where pt: "map p_pid pt = map p_pid (ptable s)"
    "iderw i s1 = Ok (s\<lparr>ptable := pt, bufs := (bufs s)[i := x]\<rparr>)"
    unfolding s1i by (auto simp: x1_def x_def s1_def Let_def)
  define t where "t = s\<lparr>ptable := pt, bufs := (bufs s)[i := x]\<rparr>"
  have run: "bread ROOTDEV b s = Ok (i, t)"
    using bg pt(2) s1i by (simp add: bread_def t_def x1_def)
  have "t = s\<lparr>ptable := pt, bufs := (bufs s)[i := x], mru := mru s, disk := disk s, wtrace := wtrace s\<rparr>"
    by (simp add: t_def)
  then have fr: "bio_frame s t" using pt(1) by (simp only: bio_frameI)
  have others: "buf_ok t (insert b H) (bufs s ! j)" if "j < NBUF" "j \<noteq> i" for j
    using no [of j] that len by (intro buf_ok_other [OF inv that(1) fr]) (auto simp: t_def holds_def)
  have xok: "buf_ok t (insert b H) x"
    using b bio_inv_my_pid [OF inv fr] bio_inv_frame_facts(4) [OF inv]
    by (simp add: buf_ok_def x_def x1_def)
  have "buf_change s t H (insert b H) i x"
    unfolding buf_change_def
  proof (intro conjI allI ballI impI)
    show "(b_dev x = ROOTDEV \<and> c = b_blockno x) \<or> (\<exists>j. j \<noteq> i \<and> holds s j c)"
      if "c \<in> insert b H" for c
    proof (cases "c = b")
      case False
      with that obtain j where j: "holds s j c" "c \<in> H" using inv by (auto simp: bio_inv_def)
      with bio_inv_buf [OF inv i(1)] i(2) have "j \<noteq> i" by (auto simp: holds_def buf_ok_def)
      with j show ?thesis by blast
    qed (simp add: x_def x1_def)
    show "j = i" if "b_dev x = ROOTDEV \<and> holds s j (b_blockno x)" for j
      using that no by (simp add: x_def x1_def)
  qed (use inv i fr xok others bio_inv_frame_facts [OF inv] in \<open>simp_all add: t_def\<close>)
  with run i show ?thesis
    by (intro exI [of _ i] exI [of _ t] exI [of _ x]) (simp add: t_def x_def x1_def)
qed

lemma bread_spec:
  assumes inv: "bio_inv s H" and b: "b \<notin> H" "b < FSSIZE"
    and room: "(\<exists>i. holds s i b) \<or> (\<exists>k < NBUF. b_refcnt (bufs s ! k) = 0 \<and> \<not> b_dirty (bufs s ! k))"
  shows "\<exists>i t. bread ROOTDEV b s = Ok (i, t) \<and> bio_inv t (insert b H) \<and> holds t i b \<and>
    content t = content s \<and> dirty t = dirty s \<and> bio_frame s t \<and> disk t = disk s \<and> wtrace t = wtrace s \<and>
    (\<forall>j c. holds s j c \<and> c \<in> H \<longrightarrow> holds t j c)"
proof (cases "\<exists>i. holds s i b")
  case True
  then obtain i where h: "holds s i b" by blast
  from bread_cached [OF inv h b(1)] obtain t x where t: "bread ROOTDEV b s = Ok (i, t)"
    "disk t = disk s" "wtrace t = wtrace s" and c: "buf_change s t H (insert b H) i x"
    and x: "b_dev x = ROOTDEV" "b_blockno x = b" "b_data x = b_data (bufs s ! i)"
      "b_dirty x = b_dirty (bufs s ! i)" by blast
  have "content t = content s"
    using content_holds [OF inv h] h x by (auto simp: buf_change_content [OF c] fun_eq_iff holds_def)
  moreover have "dirty t = dirty s"
    unfolding buf_change_dirty [OF c] using h x by (auto simp: dirty_def holds_def)
  moreover have "holds t i b" using x by (simp add: buf_change_holds [OF c])
  moreover have "holds t j a" if "holds s j a" "a \<in> H" for j a
    using that b(1) holds_block [OF h, of a] by (cases "j = i") (auto simp: buf_change_holds [OF c])
  ultimately show ?thesis using t buf_change_inv [OF c] buf_changeD(5) [OF c] by blast
next
  case False
  with room obtain k where "k < NBUF" "b_refcnt (bufs s ! k) = 0" "\<not> b_dirty (bufs s ! k)" by blast
  with bread_uncached [OF inv _ b(2), of k] False obtain i t x where t: "bread ROOTDEV b s = Ok (i, t)"
    "disk t = disk s" "wtrace t = wtrace s" and c: "buf_change s t H (insert b H) i x"
    and x: "b_dev x = ROOTDEV" "b_blockno x = b" "b_data x = disk s ROOTDEV b" "\<not> b_dirty x"
    and i: "b_refcnt (bufs s ! i) = 0" "\<not> b_dirty (bufs s ! i)" by blast
  have old: "content s b' = disk s ROOTDEV b'" if "holds s i b'" for b'
    using content_holds [OF inv that] bio_inv_buf [OF inv buf_changeD(2) [OF c]] i that
    by (auto simp: buf_ok_def holds_def split: if_splits)
  have "content t = content s"
    using old content_None [of s b] False x by (auto simp: buf_change_content [OF c] fun_eq_iff)
  moreover have "dirty t = dirty s"
    unfolding buf_change_dirty [OF c] using i x by (auto simp: dirty_def)
  moreover have "holds t i b" using x by (simp add: buf_change_holds [OF c])
  moreover have "holds t j a" if "holds s j a" "a \<in> H" for j a
  proof -
    have "b_refcnt (bufs s ! j) = 1"
      using bio_inv_buf [OF inv holds_less [OF inv that(1)]] that by (auto simp: buf_ok_def holds_def)
    with i that(1) show ?thesis by (auto simp: buf_change_holds [OF c])
  qed
  ultimately show ?thesis using t buf_change_inv [OF c] buf_changeD(5) [OF c] by blast
qed

text \<open>Changing the data of a held buffer, and marking it dirty.\<close>

lemma held_change:
  assumes inv: "bio_inv s H" and h: "holds s i b" "b \<in> H"
    and t: "bio_frame s t" "bufs t = (bufs s)[i := x]" "mru t = mru s"
    and x: "b_dev x = ROOTDEV" "b_blockno x = b" "b_valid x" "b_lock x = b_lock (bufs s ! i)"
      "b_refcnt x = b_refcnt (bufs s ! i)" "length (b_data x) = BSIZE"
    and d: "\<And>c. c \<noteq> b \<Longrightarrow> disk t ROOTDEV c = disk s ROOTDEV c" "length (disk t ROOTDEV b) = BSIZE"
  shows "buf_change s t H H i x"
proof -
  have i: "i < NBUF" using holds_less [OF inv h(1)] .
  have old: "b_dev (bufs s ! i) = ROOTDEV" "b_blockno (bufs s ! i) = b" using h by (auto simp: holds_def)
  have others: "buf_ok t H (bufs s ! j)" if "j < NBUF" "j \<noteq> i" for j
    using other_block [OF inv h(1) that] d(1) by (intro buf_ok_other [OF inv that(1) t(1)]) auto
  have xok: "buf_ok t H x"
    using bio_inv_buf [OF inv i] old h(2) x bio_inv_my_pid [OF inv t(1)] by (simp add: buf_ok_def)
  show ?thesis
    unfolding buf_change_def
  proof (intro conjI allI ballI impI)
    show "(b_dev x = ROOTDEV \<and> c = b_blockno x) \<or> (\<exists>j. j \<noteq> i \<and> holds s j c)" if "c \<in> H" for c
    proof (cases "c = b")
      case False
      with that obtain j where "holds s j c" using inv by (auto simp: bio_inv_def)
      with False old show ?thesis by (auto simp: holds_def)
    qed (simp add: x)
    show "j = i" if "b_dev x = ROOTDEV \<and> holds s j (b_blockno x)" for j
      using that bio_inv_uniq [OF inv h(1)] x by simp
    show "length (disk t ROOTDEV c) = BSIZE" for c
      using d bio_inv_frame_facts(4) [OF inv] by (cases "c = b") simp_all
    show "disk t ROOTDEV c = disk s ROOTDEV c" if "c \<noteq> b_blockno x \<or> b_dev x \<noteq> ROOTDEV" for c
      using that d(1) x by auto
  qed (use inv i t xok others bio_inv_frame_facts [OF inv] in simp_all)
qed

lemma dirty_holds:
  assumes "bio_inv s H" "holds s i b"
  shows "b \<in> dirty s \<longleftrightarrow> b_dirty (bufs s ! i)"
proof -
  have "j = i" if "holds s j b" for j using bio_inv_uniq [OF assms(1) that assms(2)] .
  with assms(2) show ?thesis unfolding dirty_def by blast
qed

lemma held_change_results:
  assumes "buf_change s t H H' i x" "bio_inv s H" "holds s i b" "b_dev x = ROOTDEV" "b_blockno x = b"
  shows "bio_inv t H'" "holds t i b" "content t = (content s)(b := b_data x)"
    "dirty t = (if b_dirty x then insert b (dirty s) else dirty s - {b})" "bio_frame s t"
    "holds t j a = holds s j a"
proof -
  note c = assms(1)
  show "holds t j a = holds s j a" for j a
    using assms(3-5) holds_block [OF assms(3), of a] by (cases "j = i") (auto simp: buf_change_holds [OF c])
  show "bio_inv t H'" "bio_frame s t" using buf_change_inv [OF c] buf_changeD(5) [OF c] by simp_all
  show "holds t i b" using assms by (simp add: buf_change_holds [OF c])
  show "content t = (content s)(b := b_data x)"
    using assms by (auto simp: buf_change_content [OF c] fun_eq_iff holds_def)
  have "(\<exists>j. j \<noteq> i \<and> holds s j c \<and> b_dirty (bufs s ! j)) \<longleftrightarrow> c \<in> dirty s - {b}" for c
  proof
    assume "\<exists>j. j \<noteq> i \<and> holds s j c \<and> b_dirty (bufs s ! j)"
    then obtain j where j: "j \<noteq> i" "holds s j c" "b_dirty (bufs s ! j)" by blast
    with bio_inv_uniq [OF assms(2) j(2), of i] assms(3) show "c \<in> dirty s - {b}"
      by (auto simp: dirty_def)
  next
    assume "c \<in> dirty s - {b}"
    then obtain j where j: "holds s j c" "b_dirty (bufs s ! j)" "c \<noteq> b" by (auto simp: dirty_def)
    moreover have "j \<noteq> i" using j assms(3) by (auto simp: holds_def)
    ultimately show "\<exists>j. j \<noteq> i \<and> holds s j c \<and> b_dirty (bufs s ! j)" by blast
  qed
  then show "dirty t = (if b_dirty x then insert b (dirty s) else dirty s - {b})"
    using assms(4,5) unfolding buf_change_dirty [OF c] by auto
qed

lemma bio_inv_held:
  assumes "bio_inv s H" "holds s i b" "b \<in> H"
  shows "b_valid (bufs s ! i)" "b < FSSIZE" "length (b_data (bufs s ! i)) = BSIZE"
    "sl_locked (b_lock (bufs s ! i))" "sl_pid (b_lock (bufs s ! i)) = my_pid s"
    "b_refcnt (bufs s ! i) = 1" "holdingsleep (b_lock (bufs s ! i)) s = Ok True"
proof -
  have "buf_ok s H (bufs s ! i)" using bio_inv_buf [OF assms(1) holds_less [OF assms(1,2)]] .
  then show f: "b_valid (bufs s ! i)" "b < FSSIZE" "length (b_data (bufs s ! i)) = BSIZE"
    "sl_locked (b_lock (bufs s ! i))" "sl_pid (b_lock (bufs s ! i)) = my_pid s"
    "b_refcnt (bufs s ! i) = 1"
    using assms by (auto simp: buf_ok_def holds_def)
  then show "holdingsleep (b_lock (bufs s ! i)) s = Ok True"
    using bio_inv_frame_facts(1) [OF assms(1)] by (auto simp: holdingsleep_def curproc_def)
qed

lemma write_held:
  assumes inv: "bio_inv s H" and h: "holds s i b" "b \<in> H" and d: "length d = BSIZE"
    and t: "t = upd_buf i (\<lambda>x. x\<lparr>b_data := d\<rparr>) s"
  shows "bio_inv t H" "holds t i b" "content t = (content s)(b := d)" "dirty t = dirty s" "bio_frame s t"
    "holds t j c = holds s j c"
proof -
  define x where "x = (bufs s ! i)\<lparr>b_data := d\<rparr>"
  have "buf_change s t H H i x"
    using bio_inv_held [OF inv h] h d bio_inv_frame_facts(4) [OF inv] bio_frame_bufs [of s i]
    by (intro held_change [OF inv h]) (auto simp: t x_def holds_def)
  note r = held_change_results [OF this inv h(1)]
  have x: "b_dev x = ROOTDEV" "b_blockno x = b" "b_data x = d" "b_dirty x = b_dirty (bufs s ! i)"
    using h by (auto simp: x_def holds_def)
  have "b \<in> dirty s \<longleftrightarrow> b_dirty (bufs s ! i)" by (rule dirty_holds [OF inv h(1)])
  with r [OF x(1,2)] x show "bio_inv t H" "holds t i b" "content t = (content s)(b := d)"
    "dirty t = dirty s" "bio_frame s t" "holds t j c = holds s j c" by auto
qed

lemma mark_held:
  assumes inv: "bio_inv s H" and h: "holds s i b" "b \<in> H"
    and t: "t = upd_buf i (\<lambda>x. x\<lparr>b_dirty := True\<rparr>) s"
  shows "bio_inv t H" "holds t i b" "content t = content s" "dirty t = insert b (dirty s)" "bio_frame s t"
    "holds t j c = holds s j c"
proof -
  define x where "x = (bufs s ! i)\<lparr>b_dirty := True\<rparr>"
  have "buf_change s t H H i x"
    using bio_inv_held [OF inv h] h bio_inv_frame_facts(4) [OF inv] bio_frame_bufs [of s i]
    by (intro held_change [OF inv h]) (auto simp: t x_def holds_def)
  note r = held_change_results [OF this inv h(1)]
  have x: "b_dev x = ROOTDEV" "b_blockno x = b" "b_data x = content s b" "b_dirty x"
    using h content_holds [OF inv h(1)] by (auto simp: x_def holds_def)
  with r [OF x(1,2)] show "bio_inv t H" "holds t i b" "content t = content s"
    "dirty t = insert b (dirty s)" "bio_frame s t" "holds t j c = holds s j c" by auto
qed

text \<open>\<open>bwrite\<close> writes a held buffer through to the disk.\<close>

lemma bwrite_spec:
  assumes inv: "bio_inv s H" and h: "holds s i b" "b \<in> H"
  shows "\<exists>t. bwrite i s = Ok t \<and> bio_inv t H \<and> holds t i b \<and> content t = content s \<and>
    dirty t = dirty s - {b} \<and> bio_frame s t \<and>
    disk t = (disk s)(ROOTDEV := (disk s ROOTDEV)(b := content s b)) \<and>
    wtrace t = (ROOTDEV, b, content s b) # wtrace s \<and> (\<forall>j c. holds t j c = holds s j c)"
proof -
  note held = bio_inv_held [OF inv h]
  have i: "i < NBUF" "i < length (bufs s)" using holds_less [OF inv h(1)] bio_inv_len [OF inv] by simp_all
  have old: "b_dev (bufs s ! i) = ROOTDEV" "b_blockno (bufs s ! i) = b"
    "b_data (bufs s ! i) = content s b"
    using h content_holds [OF inv h(1)] by (auto simp: holds_def)
  define s1 where "s1 = upd_buf i (\<lambda>x. x\<lparr>b_dirty := True\<rparr>) s"
  have s1: "env_ok s1" "my_pid s1 = my_pid s" "bufs s1 ! i = (bufs s ! i)\<lparr>b_dirty := True\<rparr>"
    using bio_inv_frame_facts(5) [OF inv] i by (simp_all add: s1_def env_ok_def)
  define x where "x = (bufs s ! i)\<lparr>b_valid := True, b_dirty := False\<rparr>"
  define d where "d = (disk s)(ROOTDEV := (disk s ROOTDEV)(b := content s b))"
  define w where "w = (ROOTDEV, b, content s b) # wtrace s"
  have s1': "disk s1 = disk s" "wtrace s1 = wtrace s" "ptable s1 = ptable s" by (simp_all add: s1_def)
  have "((bufs s ! i)\<lparr>b_dirty := True\<rparr>)\<lparr>b_valid := True, b_dirty := False\<rparr> = x" by (simp add: x_def)
  with iderw_write [OF s1(1) i(1) s1(3), of b "content s b"] s1' s1(2) held(2,4,5) old
  obtain pt where pt: "map p_pid pt = map p_pid (ptable s)"
    "iderw i s1 = Ok (s1\<lparr>ptable := pt, bufs := (bufs s1)[i := x], disk := d, wtrace := w\<rparr>)"
    unfolding d_def w_def by force
  define t where "t = s\<lparr>ptable := pt, bufs := (bufs s)[i := x], mru := mru s, disk := d, wtrace := w\<rparr>"
  have "s1\<lparr>ptable := pt, bufs := (bufs s1)[i := x], disk := d, wtrace := w\<rparr> = t"
    by (simp add: t_def s1_def upd_buf_def)
  then have run: "bwrite i s = Ok t"
    using held(7) pt(2) by (simp add: bwrite_def s1_def)
  have fr: "bio_frame s t" unfolding t_def using pt(1) by (rule bio_frameI)
  have c: "buf_change s t H H i x"
    using held old bio_inv_frame_facts(4) [OF inv]
    by (intro held_change [OF inv h fr]) (auto simp: t_def x_def d_def)
  have x: "b_dev x = ROOTDEV" "b_blockno x = b" "b_data x = content s b" "\<not> b_dirty x"
    using old by (simp_all add: x_def)
  note r = held_change_results [OF c inv h(1) x(1,2)]
  have "disk t = d" "wtrace t = w" by (simp_all add: t_def)
  with r x run show ?thesis unfolding d_def w_def by (intro exI [of _ t]) auto
qed

text \<open>\<open>brelse\<close> of a held buffer that is dirty or unchanged.\<close>

lemma brelse_run:
  assumes inv: "bio_inv s H" and h: "holds s i b" "b \<in> H"
  shows "\<exists>pt. map p_pid pt = map p_pid (ptable s) \<and>
    brelse i s = Ok (s\<lparr>ptable := pt, bufs := (bufs s)[i := (bufs s ! i)\<lparr>
      b_lock := (b_lock (bufs s ! i))\<lparr>sl_locked := False, sl_pid := 0\<rparr>, b_refcnt := 0\<rparr>],
      mru := i # remove1 i (mru s)\<rparr>)"
proof -
  note held = bio_inv_held [OF inv h]
  have i: "i < length (bufs s)" using holds_less [OF inv h(1)] bio_inv_len [OF inv] by simp
  obtain pt where pt: "wakeup (BufLockChan i) s = Ok (s\<lparr>ptable := pt\<rparr>)"
    "map p_pid pt = map p_pid (ptable s)"
    using wakeup_frame [OF bio_inv_frame_facts(2) [OF inv]] by blast
  have "dec32 1 = 0" by (simp add: dec32_def)
  with pt held i show ?thesis
    by (intro exI [of _ pt])
      (simp add: brelse_def releasesleep_def Let_def upd_buf_def)
qed

lemma brelse_spec:
  assumes inv: "bio_inv s H" and h: "holds s i b" "b \<in> H"
    and clean: "b \<in> dirty s \<or> content s b = disk s ROOTDEV b"
  shows "\<exists>t. brelse i s = Ok t \<and> bio_inv t (H - {b}) \<and> content t = content s \<and>
    dirty t = dirty s \<and> bio_frame s t \<and> disk t = disk s \<and> wtrace t = wtrace s \<and>
    (\<forall>j c. holds t j c = holds s j c)"
proof -
  note held = bio_inv_held [OF inv h]
  have i: "i < NBUF" "i < length (bufs s)" using holds_less [OF inv h(1)] bio_inv_len [OF inv] by simp_all
  have old: "b_dev (bufs s ! i) = ROOTDEV" "b_blockno (bufs s ! i) = b"
    "b_data (bufs s ! i) = content s b" "b \<in> dirty s \<longleftrightarrow> b_dirty (bufs s ! i)"
    using h content_holds [OF inv h(1)] dirty_holds [OF inv h(1)] by (auto simp: holds_def)
  define x where "x = (bufs s ! i)\<lparr>
      b_lock := (b_lock (bufs s ! i))\<lparr>sl_locked := False, sl_pid := 0\<rparr>, b_refcnt := 0\<rparr>"
  from brelse_run [OF inv h] obtain pt where pt: "map p_pid pt = map p_pid (ptable s)"
    "brelse i s = Ok (s\<lparr>ptable := pt, bufs := (bufs s)[i := x], mru := i # remove1 i (mru s)\<rparr>)"
    unfolding x_def by blast
  define t where "t = s\<lparr>ptable := pt, bufs := (bufs s)[i := x], mru := i # remove1 i (mru s)\<rparr>"
  have "t = s\<lparr>ptable := pt, bufs := (bufs s)[i := x], mru := i # remove1 i (mru s),
      disk := disk s, wtrace := wtrace s\<rparr>" by (simp add: t_def)
  then have fr: "bio_frame s t" using pt(1) by (simp only: bio_frameI)
  have x: "b_dev x = ROOTDEV" "b_blockno x = b" "b_data x = content s b" "b_dirty x \<longleftrightarrow> b \<in> dirty s"
    using old by (simp_all add: x_def)
  have others: "buf_ok t (H - {b}) (bufs s ! j)" if "j < NBUF" "j \<noteq> i" for j
    using other_block [OF inv h(1) that] by (intro buf_ok_other [OF inv that(1) fr]) (auto simp: t_def)
  have xok: "buf_ok t (H - {b}) x"
    using x held clean by (simp add: buf_ok_def) (simp add: x_def t_def)
  have "y \<in> set (i # remove1 i (mru s)) \<longleftrightarrow> y < NBUF" for y
    using i(1) bio_inv_frame_facts(3) [OF inv] in_set_remove1 [of y i "mru s"] by (cases "y = i") auto
  then have "set (i # remove1 i (mru s)) = {..<NBUF}" by blast
  then have c: "buf_change s t H (H - {b}) i x"
    unfolding buf_change_def
  proof (intro conjI allI ballI impI)
    show "(b_dev x = ROOTDEV \<and> c = b_blockno x) \<or> (\<exists>j. j \<noteq> i \<and> holds s j c)" if "c \<in> H - {b}" for c
    proof -
      from that obtain j where "holds s j c" using inv by (auto simp: bio_inv_def)
      with that old show ?thesis by (auto simp: holds_def)
    qed
    show "j = i" if "b_dev x = ROOTDEV \<and> holds s j (b_blockno x)" for j
      using that bio_inv_uniq [OF inv h(1)] x by simp
  qed (use inv i fr xok others bio_inv_frame_facts [OF inv] in \<open>simp_all add: t_def\<close>)
  note r = held_change_results [OF c inv h(1) x(1,2)]
  have "content t = content s" "dirty t = dirty s" "disk t = disk s" "wtrace t = wtrace s"
    using r(3,4) x(3,4) by (auto simp: t_def)
  with pt(2) r(1,6) fr show ?thesis unfolding t_def [symmetric] by blast
qed

text \<open>While fewer blocks than buffers are held or dirty, some buffer can be recycled.\<close>

lemma dirty_finite: "finite (dirty s)"
proof (rule finite_subset)
  show "dirty s \<subseteq> (\<lambda>i. b_blockno (bufs s ! i)) ` {..<length (bufs s)}"
    by (auto simp: dirty_def holds_def)
qed simp

lemma used_buf:
  assumes inv: "bio_inv s H" and k: "k < NBUF" and used: "b_refcnt (bufs s ! k) \<noteq> 0 \<or> b_dirty (bufs s ! k)"
  shows "holds s k (b_blockno (bufs s ! k))" "b_blockno (bufs s ! k) \<in> H \<union> dirty s"
proof -
  note ok = bio_inv_buf [OF inv k]
  show h: "holds s k (b_blockno (bufs s ! k))"
    using ok used k bio_inv_len [OF inv] by (simp add: buf_ok_def holds_def split: if_splits)
  have "b_blockno (bufs s ! k) \<in> H" if "\<not> b_dirty (bufs s ! k)"
    using ok used h that by (simp add: buf_ok_def holds_def split: if_splits)
  moreover have "b_blockno (bufs s ! k) \<in> dirty s" if "b_dirty (bufs s ! k)"
    using h that unfolding dirty_def by blast
  ultimately show "b_blockno (bufs s ! k) \<in> H \<union> dirty s" by blast
qed

lemma room_exists:
  assumes inv: "bio_inv s H" and fin: "finite H" and card: "card (H \<union> dirty s) < NBUF"
  shows "\<exists>k < NBUF. b_refcnt (bufs s ! k) = 0 \<and> \<not> b_dirty (bufs s ! k)"
proof (rule ccontr)
  assume "\<not> ?thesis"
  then have used: "b_refcnt (bufs s ! k) \<noteq> 0 \<or> b_dirty (bufs s ! k)" if "k < NBUF" for k
    using that by auto
  let ?f = "\<lambda>i. b_blockno (bufs s ! i)"
  have "?f ` {..<NBUF} \<subseteq> H \<union> dirty s" using used_buf(2) [OF inv _ used] by blast
  moreover have "inj_on ?f {..<NBUF}"
  proof (rule inj_onI)
    fix j k assume "j \<in> {..<NBUF}" "k \<in> {..<NBUF}" and eq: "?f j = ?f k"
    then have "holds s j (?f j)" "holds s k (?f k)" using used_buf(1) [OF inv _ used] by blast+
    then show "j = k" unfolding eq by (rule bio_inv_uniq [OF inv])
  qed
  ultimately have "card {..<NBUF} \<le> card (H \<union> dirty s)"
    using card_inj_on_le [of ?f] fin dirty_finite [of s] by blast
  with card show False by simp
qed

section \<open>The interface of the cache\<close>

text \<open>
  What the log relies on.  \<open>inv s H\<close>: the cache is consistent and the caller holds the blocks
  \<open>H\<close>; \<open>at s i b\<close>: buffer \<open>i\<close> is that of block \<open>b\<close>; \<open>cont\<close> is the content of a block as the
  kernel sees it and \<open>dsk\<close> as the disk has it, \<open>dirt\<close> the blocks where the two may
  differ and \<open>tr\<close> the writes so far.
\<close>

locale buffer_cache =
  fixes rd :: "nat \<Rightarrow> 's \<Rightarrow> (nat \<times> 's) res" and wr :: "nat \<Rightarrow> 's \<Rightarrow> 's res" and rel :: "nat \<Rightarrow> 's \<Rightarrow> 's res"
    and set_data :: "nat \<Rightarrow> byte list \<Rightarrow> 's \<Rightarrow> 's"
    and data :: "'s \<Rightarrow> nat \<Rightarrow> byte list"
    and inv :: "'s \<Rightarrow> nat set \<Rightarrow> bool" and at :: "'s \<Rightarrow> nat \<Rightarrow> nat \<Rightarrow> bool"
    and cont :: "'s \<Rightarrow> nat \<Rightarrow> byte list" and dirt :: "'s \<Rightarrow> nat set" and dsk :: "'s \<Rightarrow> nat \<Rightarrow> byte list"
    and tr :: "'s \<Rightarrow> (nat \<times> nat \<times> byte list) list" and frame :: "'s \<Rightarrow> 's \<Rightarrow> bool"
  assumes rd_ok: "\<lbrakk>inv s H; finite H; b \<notin> H; b < FSSIZE; b \<in> dirt s \<or> card (H \<union> dirt s) < NBUF\<rbrakk> \<Longrightarrow>
      \<exists>i t. rd b s = Ok (i, t) \<and> inv t (insert b H) \<and> at t i b \<and> cont t = cont s \<and>
        dirt t = dirt s \<and> frame s t \<and> dsk t = dsk s \<and> tr t = tr s \<and>
        (\<forall>j c. at s j c \<and> c \<in> H \<longrightarrow> at t j c)"
    and at_data: "\<lbrakk>inv s H; at s i b\<rbrakk> \<Longrightarrow> data s i = cont s b"
    and cont_len: "\<lbrakk>inv s H; b \<in> H\<rbrakk> \<Longrightarrow> length (cont s b) = BSIZE"
    and set_ok: "\<lbrakk>inv s H; at s i b; b \<in> H; length d = BSIZE; t = set_data i d s\<rbrakk> \<Longrightarrow>
      inv t H \<and> cont t = (cont s)(b := d) \<and> dirt t = dirt s \<and> frame s t \<and> dsk t = dsk s \<and>
      tr t = tr s \<and> (\<forall>j c. at t j c = at s j c)"
    and wr_ok: "\<lbrakk>inv s H; at s i b; b \<in> H\<rbrakk> \<Longrightarrow>
      \<exists>t. wr i s = Ok t \<and> inv t H \<and> cont t = cont s \<and> dirt t = dirt s - {b} \<and> frame s t \<and>
        dsk t = (dsk s)(b := cont s b) \<and> tr t = (ROOTDEV, b, cont s b) # tr s \<and>
        (\<forall>j c. at t j c = at s j c)"
    and rel_ok: "\<lbrakk>inv s H; at s i b; b \<in> H; b \<in> dirt s \<or> cont s b = dsk s b\<rbrakk> \<Longrightarrow>
      \<exists>t. rel i s = Ok t \<and> inv t (H - {b}) \<and> cont t = cont s \<and> dirt t = dirt s \<and> frame s t \<and>
        dsk t = dsk s \<and> tr t = tr s \<and> (\<forall>j c. at t j c = at s j c)"
    and clean: "\<lbrakk>inv s H; b \<notin> H; b \<notin> dirt s\<rbrakk> \<Longrightarrow> cont s b = dsk s b"
    and frame_trans: "frame s t \<Longrightarrow> frame t u \<Longrightarrow> frame s u"
begin

lemma read_release:
  assumes "inv s H" "finite H" "b \<notin> H" "b < FSSIZE" "b \<in> dirt s \<or> card (H \<union> dirt s) < NBUF"
  shows "\<exists>i t u. rd b s = Ok (i, t) \<and> data t i = cont s b \<and> rel i t = Ok u \<and> inv u H \<and> cont u = cont s \<and>
    dirt u = dirt s \<and> frame s u \<and> dsk u = dsk s \<and> tr u = tr s"
proof -
  obtain i t where t: "rd b s = Ok (i, t)" "inv t (insert b H)" "at t i b" "cont t = cont s"
    "dirt t = dirt s" "frame s t" "dsk t = dsk s" "tr t = tr s"
    using rd_ok [OF assms] by blast
  have "b \<in> dirt t \<or> cont t b = dsk t b" using t clean [OF assms(1,3)] by auto
  with rel_ok [OF t(2,3)] obtain u where u: "rel i t = Ok u" "inv u (insert b H - {b})" "cont u = cont t"
    "dirt u = dirt t" "frame t u" "dsk u = dsk t" "tr u = tr t" by blast
  have "insert b H - {b} = H" using assms(3) by simp
  with t u at_data [OF t(2,3)] frame_trans [OF t(6) u(5)] show ?thesis
    by (intro exI [of _ i] exI [of _ t] exI [of _ u]) simp
qed

text \<open>Reading a block, replacing its data and writing it through.\<close>

lemma write_through:
  assumes "inv s {}" "b < FSSIZE" "b \<in> dirt s \<or> card (dirt s) < NBUF"
    and f: "\<And>x. length x = BSIZE \<Longrightarrow> length (f x) = BSIZE"
  shows "\<exists>i t u v. rd b s = Ok (i, t) \<and> data t i = cont s b \<and> wr i (set_data i (f (data t i)) t) = Ok u \<and>
    rel i u = Ok v \<and> inv v {} \<and> cont v = (cont s)(b := f (cont s b)) \<and> dirt v = dirt s - {b} \<and>
    frame s v \<and> dsk v = (dsk s)(b := f (cont s b)) \<and> tr v = (ROOTDEV, b, f (cont s b)) # tr s"
proof -
  obtain i t where t: "rd b s = Ok (i, t)" "inv t {b}" "at t i b" "cont t = cont s"
    "dirt t = dirt s" "frame s t" "dsk t = dsk s" "tr t = tr s"
    using rd_ok [OF assms(1), of b] assms(2,3) by auto
  have d: "data t i = cont s b" using at_data [OF t(2,3)] t(4) by simp
  have len: "length (f (data t i)) = BSIZE" using f cont_len [OF t(2)] t(4) d by simp
  note w = set_ok [OF t(2,3) _ len refl]
  define t1 where "t1 = set_data i (f (data t i)) t"
  have t1: "inv t1 {b}" "cont t1 = (cont s)(b := f (cont s b))" "dirt t1 = dirt s" "frame t t1"
    "dsk t1 = dsk s" "tr t1 = tr s" "at t1 i b"
    using w t d by (auto simp: t1_def)
  obtain u where u: "wr i t1 = Ok u" "inv u {b}" "cont u = cont t1" "dirt u = dirt t1 - {b}" "frame t1 u"
    "dsk u = (dsk t1)(b := cont t1 b)" "tr u = (ROOTDEV, b, cont t1 b) # tr t1" "at u i b"
    using wr_ok [OF t1(1,7)] t1(7) by auto
  obtain v where v: "rel i u = Ok v" "inv v ({b} - {b})" "cont v = cont u" "dirt v = dirt u" "frame u v"
    "dsk v = dsk u" "tr v = tr u"
    using rel_ok [OF u(2,8)] u(3,6) by auto
  have "frame s v" using t(6) t1(4) u(5) v(5) frame_trans by blast
  then show ?thesis
    using t(1) d u v t1 unfolding t1_def [symmetric]
    by (intro exI [of _ i] exI [of _ t] exI [of _ u] exI [of _ v]) (simp add: t1_def)
qed

text \<open>Copying the content of a held block \<open>a\<close> over the held block \<open>b\<close> and writing it through.\<close>

lemma copy_held:
  assumes inv: "inv s {a, b}" "a \<noteq> b" and at: "at s i a" "at s j b"
    and a: "a \<in> dirt s \<or> cont s a = dsk s a"
  shows "\<exists>u v w. wr j (set_data j (data s i) s) = Ok u \<and> rel i u = Ok v \<and> rel j v = Ok w \<and> inv w {} \<and>
    cont w = (cont s)(b := cont s a) \<and> dirt w = dirt s - {b} \<and> frame s w \<and>
    dsk w = (dsk s)(b := cont s a) \<and> tr w = (ROOTDEV, b, cont s a) # tr s"
proof -
  have d: "data s i = cont s a" using at_data [OF inv(1) at(1)] .
  have len: "length (data s i) = BSIZE" using cont_len [OF inv(1), of a] d by simp
  define t where "t = set_data j (data s i) s"
  have t: "inv t {a, b}" "cont t = (cont s)(b := cont s a)" "dirt t = dirt s" "frame s t"
    "dsk t = dsk s" "tr t = tr s" "at t i a" "at t j b"
    using set_ok [OF inv(1) at(2) _ len t_def] at d by auto
  obtain u where u: "wr j t = Ok u" "inv u {a, b}" "cont u = cont t" "dirt u = dirt t - {b}" "frame t u"
    "dsk u = (dsk t)(b := cont t b)" "tr u = (ROOTDEV, b, cont t b) # tr t" "at u i a" "at u j b"
    using wr_ok [OF t(1,8)] t(7,8) by auto
  have "a \<in> dirt u \<or> cont u a = dsk u a" using a inv(2) u t by auto
  then obtain v where v: "rel i u = Ok v" "inv v ({a, b} - {a})" "cont v = cont u" "dirt v = dirt u"
    "frame u v" "dsk v = dsk u" "tr v = tr u" "at v j b"
    using rel_ok [OF u(2,8)] u(9) by auto
  have "{a, b} - {a} = {b}" "cont v b = dsk v b" using inv(2) u t v by auto
  with rel_ok [of v "{b}" j b] v obtain w where w: "rel j v = Ok w" "inv w {}" "cont w = cont v"
    "dirt w = dirt v" "frame v w" "dsk w = dsk v" "tr w = tr v" by auto
  have "frame s w" using t(4) u(5) v(5) w(5) frame_trans by blast
  then show ?thesis
    using u v w t unfolding t_def [symmetric]
    by (intro exI [of _ u] exI [of _ v] exI [of _ w]) simp
qed

lemma read_two:
  assumes inv: "inv s {}" and ab: "a \<noteq> b" "a < FSSIZE" "b < FSSIZE"
    and room: "a \<in> dirt s \<or> card (dirt s) < NBUF" "b \<in> dirt s \<or> card (insert a (dirt s)) < NBUF"
  shows "\<exists>i t j u. rd a s = Ok (i, t) \<and> rd b t = Ok (j, u) \<and> inv u {a, b} \<and> at u i a \<and> at u j b \<and>
    cont u = cont s \<and> dirt u = dirt s \<and> frame s u \<and> dsk u = dsk s \<and> tr u = tr s"
proof -
  obtain i t where t: "rd a s = Ok (i, t)" "inv t {a}" "at t i a" "cont t = cont s"
    "dirt t = dirt s" "frame s t" "dsk t = dsk s" "tr t = tr s"
    using rd_ok [OF inv, of a] ab(2) room(1) by auto
  have "\<exists>j u. rd b t = Ok (j, u) \<and> inv u (insert b {a}) \<and> at u j b \<and> cont u = cont t \<and>
        dirt u = dirt t \<and> frame t u \<and> dsk u = dsk t \<and> tr u = tr t \<and>
        (\<forall>j c. at t j c \<and> c \<in> {a} \<longrightarrow> at u j c)"
    using rd_ok [OF t(2), of b] ab room(2) t(5) by simp
  then obtain j u where u: "rd b t = Ok (j, u)" "inv u {b, a}" "at u j b" "cont u = cont t"
    "dirt u = dirt t" "frame t u" "dsk u = dsk t" "tr u = tr t" "at u i a" using t(3) by blast
  have "inv u {a, b}" using u(2) by (simp add: insert_commute)
  with t u frame_trans [OF t(6) u(6)] show ?thesis
    by (intro exI [of _ i] exI [of _ t] exI [of _ j] exI [of _ u]) simp
qed

end

definition set_data :: "nat \<Rightarrow> byte list \<Rightarrow> 'z bio_st_scheme \<Rightarrow> 'z bio_st_scheme" where
  "set_data i d = upd_buf i (\<lambda>x. x\<lparr>b_data := d\<rparr>)"

definition buf_data :: "'z bio_st_scheme \<Rightarrow> nat \<Rightarrow> byte list" where
  "buf_data s i = b_data (bufs s ! i)"

lemma content_len: "bio_inv s H \<Longrightarrow> length (content s b) = BSIZE"
proof (cases "lookup s b")
  case None
  assume "bio_inv s H"
  with None show ?thesis by (simp add: content_def bio_inv_frame_facts(4))
next
  case (Some i)
  assume inv: "bio_inv s H"
  with Some have "holds s i b" using lookup_inv by blast
  with bio_inv_buf [OF inv holds_less [OF inv this]] content_holds [OF inv this] show ?thesis
    by (simp add: buf_ok_def holds_def)
qed

lemma content_clean:
  assumes inv: "bio_inv s H" and b: "b \<notin> H" "b \<notin> dirty s"
  shows "content s b = disk s ROOTDEV b"
proof (cases "lookup s b")
  case None
  then show ?thesis by (simp add: content_def)
next
  case (Some i)
  with inv have h: "holds s i b" using lookup_inv by blast
  with bio_inv_buf [OF inv holds_less [OF inv h]] content_holds [OF inv h] dirty_holds [OF inv h] b
  show ?thesis by (simp add: buf_ok_def holds_def)
qed

lemma bread_room:
  assumes "bio_inv s H" "finite H" "b \<notin> H" "b < FSSIZE" "b \<in> dirty s \<or> card (H \<union> dirty s) < NBUF"
  shows "\<exists>i t. bread ROOTDEV b s = Ok (i, t) \<and> bio_inv t (insert b H) \<and> holds t i b \<and> content t = content s \<and>
    dirty t = dirty s \<and> bio_frame s t \<and> disk t = disk s \<and> wtrace t = wtrace s \<and>
    (\<forall>j c. holds s j c \<and> c \<in> H \<longrightarrow> holds t j c)"
proof (rule bread_spec [OF assms(1,3,4)])
  show "(\<exists>i. holds s i b) \<or> (\<exists>k<NBUF. b_refcnt (bufs s ! k) = 0 \<and> \<not> b_dirty (bufs s ! k))"
    using assms(5) room_exists [OF assms(1,2)] by (auto simp: dirty_def)
qed

interpretation bc: buffer_cache "bread ROOTDEV" bwrite brelse set_data buf_data bio_inv holds content
  dirty "\<lambda>s. disk s ROOTDEV" wtrace bio_frame
proof (unfold_locales, goal_cases)
  case (1 s H b)
  from bread_room [OF this] show ?case by (elim exE conjE) (intro exI conjI; simp)
next
  case (2 s H i b)
  then show ?case by (simp add: buf_data_def content_holds)
next
  case (3 s H b)
  then show ?case by (simp add: content_len)
next
  case (4 s H i b d t)
  have t: "t = upd_buf i (\<lambda>x. x\<lparr>b_data := d\<rparr>) s" using 4(5) by (simp add: set_data_def)
  note w = write_held [OF 4(1-4) t]
  have "disk t = disk s" "wtrace t = wtrace s" by (simp_all add: t)
  with w show ?case by simp
next
  case (5 s H i b)
  from bwrite_spec [OF this] obtain t where t: "bwrite i s = Ok t" "bio_inv t H" "content t = content s"
    "dirty t = dirty s - {b}" "bio_frame s t"
    "disk t = (disk s)(ROOTDEV := (disk s ROOTDEV)(b := content s b))"
    "wtrace t = (ROOTDEV, b, content s b) # wtrace s" "\<forall>j c. holds t j c = holds s j c" by blast
  then show ?case by (intro exI [of _ t]) simp
next
  case (6 s H i b)
  from brelse_spec [OF this] obtain t where t: "brelse i s = Ok t" "bio_inv t (H - {b})"
    "content t = content s" "dirty t = dirty s" "bio_frame s t" "disk t = disk s"
    "wtrace t = wtrace s" "\<forall>j c. holds t j c = holds s j c" by blast
  then show ?case by (intro exI [of _ t]) simp
next
  case (7 s H b)
  then show ?case by (rule content_clean)
next
  case (8 s t u)
  then show ?case by (rule bio_frame_trans)
qed

text \<open>
  C8.  The buffer cache is coherent.  From a consistent cache with at least one buffer free for
  reuse, \<open>bread\<close> of a block that is not held returns a buffer with the current content of the
  block, \<open>brelse\<close> of that buffer succeeds, and the content of every block, the disk and the
  set of dirty blocks are unchanged.
\<close>

theorem bread_brelse_coherent:
  assumes "bio_inv s H" "finite H" "b \<notin> H" "b < FSSIZE" "b \<in> dirty s \<or> card (H \<union> dirty s) < NBUF"
  shows "\<exists>i t u. bread ROOTDEV b s = Ok (i, t) \<and> b_data (bufs t ! i) = content s b \<and>
    brelse i t = Ok u \<and> bio_inv u H \<and> content u = content s \<and> disk u ROOTDEV = disk s ROOTDEV \<and>
    dirty u = dirty s"
proof -
  from bc.read_release [OF assms] obtain i t u where "bread ROOTDEV b s = Ok (i, t)"
    "buf_data t i = content s b" "brelse i t = Ok u" "bio_inv u H" "content u = content s"
    "disk u ROOTDEV = disk s ROOTDEV" "dirty u = dirty s" by blast
  then show ?thesis unfolding buf_data_def by blast
qed

text \<open>
  C9.  Writing through: reading a block, replacing its data, \<open>bwrite\<close> and \<open>brelse\<close> leave the
  disk and the cache with the new data in that block and unchanged in all others, with one
  write sent to the drive.
\<close>

theorem bwrite_reaches_disk:
  assumes "bio_inv s {}" "b < FSSIZE" "b \<in> dirty s \<or> card (dirty s) < NBUF" "length d = BSIZE"
  shows "\<exists>i t u v. bread ROOTDEV b s = Ok (i, t) \<and> bwrite i (set_data i d t) = Ok u \<and> brelse i u = Ok v \<and>
    bio_inv v {} \<and> content v = (content s)(b := d) \<and> disk v ROOTDEV = (disk s ROOTDEV)(b := d) \<and>
    wtrace v = (ROOTDEV, b, d) # wtrace s"
  using bc.write_through [OF assms(1-3), of "\<lambda>_. d"] assms(4) by blast

text \<open>An initialised cache, for the witnesses.\<close>

definition empty_buf :: buf where
  "empty_buf = \<lparr>b_valid = False, b_dirty = False, b_dev = 0, b_blockno = 0,
     b_lock = \<lparr>sl_locked = False, sl_pid = 0\<rparr>, b_refcnt = 0, b_data = replicate BSIZE 0\<rparr>"

definition sample_bio :: "'z \<Rightarrow> 'z bio_st_scheme" where
  "sample_bio z = proc_st.extend sample \<lparr>bufs = replicate NBUF empty_buf, mru = rev [0..<NBUF],
     idequeue = [], havedisk1 = True, disk = (\<lambda>_ _. replicate BSIZE 0), ide_err = False, wtrace = [],
     \<dots> = z\<rparr>"

lemma sample_bio_inv: "bio_inv (sample_bio z) {}" "dirty (sample_bio z) = {}" "wtrace (sample_bio z) = []"
proof -
  have sel: "bufs (sample_bio z) = replicate NBUF empty_buf" "mru (sample_bio z) = rev [0..<NBUF]"
    "idequeue (sample_bio z) = []" "havedisk1 (sample_bio z)" "\<not> ide_err (sample_bio z)"
    "disk (sample_bio z) = (\<lambda>_ _. replicate BSIZE 0)" "cur (sample_bio z) = Some 0"
    "\<not> ptable_held (sample_bio z)" "length (ptable (sample_bio z)) = 64"
    by (simp_all add: sample_bio_def proc_st.defs sample_def)
  have no: "\<not> holds (sample_bio z) i b" for i b by (auto simp: holds_def sel empty_buf_def ROOTDEV_def)
  have "env_ok (sample_bio z)" by (auto simp: env_ok_def sel)
  moreover have "buf_ok (sample_bio z) {} empty_buf" by (simp add: buf_ok_def empty_buf_def ROOTDEV_def)
  ultimately show "bio_inv (sample_bio z) {}" by (simp add: bio_inv_def no sel)
  show "dirty (sample_bio z) = {}" by (simp add: dirty_def no)
  show "wtrace (sample_bio z) = []" by (simp add: sample_bio_def proc_st.defs)
qed

theorem bread_brelse_coherent_witness:
  "\<exists>i t u. bread ROOTDEV 7 (sample_bio ()) = Ok (i, t) \<and> b_data (bufs t ! i) = content (sample_bio ()) 7 \<and>
     brelse i t = Ok u"
  using bread_brelse_coherent [OF sample_bio_inv(1), of 7 "()"]
  by (auto simp: FSSIZE_def NBUF_def sample_bio_inv)

theorem bwrite_reaches_disk_witness:
  "\<exists>i t u v. bread ROOTDEV 7 (sample_bio ()) = Ok (i, t) \<and>
     bwrite i (set_data i (replicate BSIZE 9) t) = Ok u \<and> brelse i u = Ok v \<and>
     disk v ROOTDEV 7 = replicate BSIZE 9"
proof -
  have "length (replicate BSIZE (9 :: byte)) = BSIZE" by simp
  from bwrite_reaches_disk [OF sample_bio_inv(1) _ _ this, of 7 "()"] obtain i t u v where
    "bread ROOTDEV 7 (sample_bio ()) = Ok (i, t)" "bwrite i (set_data i (replicate BSIZE 9) t) = Ok u"
    "brelse i u = Ok v" "disk v ROOTDEV = (disk (sample_bio ()) ROOTDEV)(7 := replicate BSIZE 9)"
    by (auto simp: FSSIZE_def NBUF_def sample_bio_inv)
  then show ?thesis by auto
qed

end
