(* ===== verification/Log.thy ===== *)
theory Log
  imports Bio
begin

text \<open>
  \<^verbatim>\<open>log.c\<close>: the write-ahead log, with \<open>readsb\<close> of \<^verbatim>\<open>fs.c\<close>, which \<open>initlog\<close> calls.

  The lemmas follow \<open>commit\<close> and \<open>recover_from_log\<close> through the buffer cache (the interface
  \<open>buffer_cache\<close>) and determine the sequence of writes that reach the disk.  A crash is a prefix
  of that sequence; the recovery that \<open>recover_from_log\<close> performs on the disk it finds is the
  function \<open>recovered\<close>.
\<close>

section \<open>The log\<close>

definition LOGSIZE :: nat where "LOGSIZE = 30"
definition MAXOPBLOCKS :: int where "MAXOPBLOCKS = 10"

record superblock =
  sb_size :: nat
  sb_nblocks :: nat
  sb_ninodes :: nat
  sb_nlog :: nat
  sb_logstart :: nat
  sb_inodestart :: nat
  sb_bmapstart :: nat

record log_st = bio_st +
  lg_start :: nat
  lg_size :: int
  outstanding :: int
  committing :: bool
  lg_dev :: nat
  lh_n :: int
  lh_block :: "nat list"

definition decode_sb :: "byte list \<Rightarrow> superblock" where
  "decode_sb d = \<lparr>sb_size = rd32 d 0, sb_nblocks = rd32 d 4, sb_ninodes = rd32 d 8, sb_nlog = rd32 d 12,
     sb_logstart = rd32 d 16, sb_inodestart = rd32 d 20, sb_bmapstart = rd32 d 24\<rparr>"

definition readsb :: "nat \<Rightarrow> 'z bio_st_scheme \<Rightarrow> (superblock \<times> 'z bio_st_scheme) res" where
  "readsb dev s =
     bnd (bread dev 1 s) (\<lambda>(bp, s).
     let sb = decode_sb (buf_data s bp)
     in bnd (brelse bp s) (\<lambda>s. Ok (sb, s)))"

text \<open>An index outside the array \<open>lh.block\<close> is a \<open>Fault\<close>.\<close>

definition lh_at :: "'z log_st_scheme \<Rightarrow> nat \<Rightarrow> nat res" where
  "lh_at s i = (if i < length (lh_block s) then Ok (lh_block s ! i) else Fault ''log.lh.block'')"

text \<open>The bodies of the loops of \<open>install_trans\<close> and \<open>write_log\<close> are definitions of their own.\<close>

definition install_block :: "nat \<Rightarrow> 'z log_st_scheme \<Rightarrow> 'z log_st_scheme res" where
  "install_block tail s =
     bnd (bread (lg_dev s) (lg_start s + tail + 1) s) (\<lambda>(lbuf, s).
     bnd (lh_at s tail) (\<lambda>b.
     bnd (bread (lg_dev s) b s) (\<lambda>(dbuf, s).
     bnd (bwrite dbuf (set_data dbuf (buf_data s lbuf) s)) (\<lambda>s.
     bnd (brelse lbuf s) (\<lambda>s.
     brelse dbuf s)))))"

definition install_trans :: "'z log_st_scheme \<Rightarrow> 'z log_st_scheme res" where
  "install_trans s = for_each [0..<nat (lh_n s)] install_block s"

definition signed32 :: "nat \<Rightarrow> int" where
  "signed32 v = (if v < 2 ^ 31 then int v else int v - 2 ^ 32)"

definition read_head :: "'z log_st_scheme \<Rightarrow> 'z log_st_scheme res" where
  "read_head s =
     bnd (bread (lg_dev s) (lg_start s) s) (\<lambda>(b, s).
     let d = buf_data s b; n = signed32 (rd32 d 0); s = s\<lparr>lh_n := n\<rparr>
     in if n > int LOGSIZE then Fault ''log.lh.block''
        else let s = s\<lparr>lh_block := map (\<lambda>i. rd32 d (4 + 4 * i)) [0..<nat n] @ drop (nat n) (lh_block s)\<rparr>
             in brelse b s)"

text \<open>The header block that \<open>write_head\<close> builds in the buffer.\<close>

definition head_image :: "int \<Rightarrow> nat list \<Rightarrow> byte list \<Rightarrow> byte list" where
  "head_image n blks d =
     foldl (\<lambda>d i. splice d (4 + 4 * i) (le32 (blks ! i))) (splice d 0 (le32 (nat (n mod 2 ^ 32)))) [0..<nat n]"

definition write_head :: "'z log_st_scheme \<Rightarrow> 'z log_st_scheme res" where
  "write_head s =
     bnd (bread (lg_dev s) (lg_start s) s) (\<lambda>(b, s).
     if lh_n s > int (length (lh_block s)) then Fault ''log.lh.block''
     else let s = set_data b (head_image (lh_n s) (lh_block s) (buf_data s b)) s
          in bnd (bwrite b s) (brelse b))"

definition recover_from_log :: "'z log_st_scheme \<Rightarrow> 'z log_st_scheme res" where
  "recover_from_log s =
     bnd (read_head s) (\<lambda>s.
     bnd (install_trans s) (\<lambda>s.
     write_head (s\<lparr>lh_n := 0\<rparr>)))"

definition initlog :: "nat \<Rightarrow> 'z log_st_scheme \<Rightarrow> 'z log_st_scheme res" where
  "initlog dev s =
     bnd (readsb dev s) (\<lambda>(sb, s).
     recover_from_log (s\<lparr>lg_start := sb_logstart sb, lg_size := signed32 (sb_nlog sb), lg_dev := dev\<rparr>))"

text \<open>\<open>begin_op\<close>: one pass of its loop; where it waits it is \<open>Sleeps\<close>.\<close>

definition begin_op :: "'z log_st_scheme \<Rightarrow> 'z log_st_scheme res" where
  "begin_op s =
     (if committing s then Sleeps LogChan
      else if lh_n s + (outstanding s + 1) * MAXOPBLOCKS > int LOGSIZE then Sleeps LogChan
      else Ok (s\<lparr>outstanding := outstanding s + 1\<rparr>))"

definition log_block :: "nat \<Rightarrow> 'z log_st_scheme \<Rightarrow> 'z log_st_scheme res" where
  "log_block tail s =
     bnd (bread (lg_dev s) (lg_start s + tail + 1) s) (\<lambda>(to, s).
     bnd (lh_at s tail) (\<lambda>b.
     bnd (bread (lg_dev s) b s) (\<lambda>(from, s).
     bnd (bwrite to (set_data to (buf_data s from) s)) (\<lambda>s.
     bnd (brelse from s) (\<lambda>s.
     brelse to s)))))"

definition write_log :: "'z log_st_scheme \<Rightarrow> 'z log_st_scheme res" where
  "write_log s = for_each [0..<nat (lh_n s)] log_block s"

definition commit :: "'z log_st_scheme \<Rightarrow> 'z log_st_scheme res" where
  "commit s =
     (if lh_n s > 0 then
        bnd (write_log s) (\<lambda>s.
        bnd (write_head s) (\<lambda>s.
        bnd (install_trans s) (\<lambda>s.
        write_head (s\<lparr>lh_n := 0\<rparr>))))
      else Ok s)"

definition end_op :: "'z log_st_scheme \<Rightarrow> 'z log_st_scheme res" where
  "end_op s =
     (let s = s\<lparr>outstanding := outstanding s - 1\<rparr>
      in if committing s then Panic ''log.committing''
         else if outstanding s = 0 then
           bnd (commit (s\<lparr>committing := True\<rparr>)) (\<lambda>s. wakeup LogChan (s\<lparr>committing := False\<rparr>))
         else wakeup LogChan s)"

definition log_write :: "nat \<Rightarrow> 'z log_st_scheme \<Rightarrow> 'z log_st_scheme res" where
  "log_write i s =
     (if lh_n s \<ge> int LOGSIZE \<or> lh_n s \<ge> lg_size s - 1 then Panic ''too big a transaction''
      else if outstanding s < 1 then Panic ''log_write outside of trans''
      else let b = b_blockno (bufs s ! i);
               k = (case find_idx (\<lambda>x. x = b) (take (nat (lh_n s)) (lh_block s)) of
                      Some k \<Rightarrow> k | None \<Rightarrow> nat (lh_n s));
               s = s\<lparr>lh_block := (lh_block s)[k := b]\<rparr>;
               s = (if int k = lh_n s then s\<lparr>lh_n := lh_n s + 1\<rparr> else s)
           in Ok (upd_buf i (\<lambda>x. x\<lparr>b_dirty := True\<rparr>) s))"

section \<open>The header block\<close>

lemma put_blocks_length:
  "4 + 4 * n \<le> length d \<Longrightarrow>
   length (foldl (\<lambda>d i. splice d (4 + 4 * i) (le32 (f i))) d [0..<n]) = length d"
proof (induction n)
  case (Suc n)
  then show ?case by (simp add: length_splice)
qed simp

lemma put_blocks_low:
  assumes "4 + 4 * n \<le> length d"
  shows "rd32 (foldl (\<lambda>d i. splice d (4 + 4 * i) (le32 (f i))) d [0..<n]) 0 = rd32 d 0"
  using assms
proof (induction n)
  case (Suc n)
  then show ?case by (simp add: rd32_splice_other put_blocks_length)
qed simp

lemma put_blocks_nth:
  assumes "4 + 4 * n \<le> length d" "i < n"
  shows "rd32 (foldl (\<lambda>d i. splice d (4 + 4 * i) (le32 (f i))) d [0..<n]) (4 + 4 * i) = f i mod 2 ^ 32"
  using assms
proof (induction n)
  case (Suc n)
  show ?case
  proof (cases "i = n")
    case True
    with Suc.prems show ?thesis by (simp add: rd32_splice_same put_blocks_length del: power_numeral)
  next
    case False
    with Suc show ?thesis by (simp add: rd32_splice_other put_blocks_length)
  qed
qed simp

lemma head_image:
  assumes "0 \<le> n" "n \<le> int LOGSIZE" "length d = BSIZE"
  shows "length (head_image n blks d) = BSIZE" "rd32 (head_image n blks d) 0 = nat n"
    "i < nat n \<Longrightarrow> rd32 (head_image n blks d) (4 + 4 * i) = blks ! i mod 2 ^ 32"
proof -
  let ?d = "splice d 0 (le32 (nat (n mod 2 ^ 32)))"
  have len: "length ?d = BSIZE" using assms(3) by (simp add: length_splice BSIZE_def)
  have sz: "4 + 4 * nat n \<le> length ?d" using assms len by (simp add: LOGSIZE_def BSIZE_def)
  show "length (head_image n blks d) = BSIZE"
    using put_blocks_length [OF sz] len by (simp add: head_image_def)
  have "rd32 ?d 0 = nat (n mod 2 ^ 32) mod 2 ^ 32"
    using assms(3) by (intro rd32_splice_same) (simp add: BSIZE_def)
  also have "\<dots> = nat n" using assms(1,2) by (simp add: LOGSIZE_def)
  finally show "rd32 (head_image n blks d) 0 = nat n"
    using put_blocks_low [OF sz] by (simp add: head_image_def)
  show "i < nat n \<Longrightarrow> rd32 (head_image n blks d) (4 + 4 * i) = blks ! i mod 2 ^ 32"
    using put_blocks_nth [OF sz] by (simp add: head_image_def)
qed

section \<open>Sequences of disk writes\<close>

text \<open>
  \<open>wrote s W t\<close>: going from \<open>s\<close> to \<open>t\<close> sent exactly the writes \<open>W\<close> to the drive, the cache agrees
  with them, and nothing outside the buffers and the disk changed.
\<close>

definition apply_writes :: "(nat \<Rightarrow> byte list) \<Rightarrow> (nat \<times> byte list) list \<Rightarrow> nat \<Rightarrow> byte list" where
  "apply_writes d W = foldl (\<lambda>d (b, x). d(b := x)) d W"

definition wrote :: "'z bio_st_scheme \<Rightarrow> (nat \<times> byte list) list \<Rightarrow> 'z bio_st_scheme \<Rightarrow> bool" where
  "wrote s W t \<longleftrightarrow> bio_frame s t \<and> bio_inv t {} \<and> content t = apply_writes (content s) W \<and>
     disk t ROOTDEV = apply_writes (disk s ROOTDEV) W \<and> dirty t = dirty s - fst ` set W \<and>
     wtrace t = rev (map (Pair ROOTDEV) W) @ wtrace s"

lemma apply_writes_simps [simp]:
  "apply_writes d [] = d" "apply_writes d ((b, x) # W) = apply_writes (d(b := x)) W"
  "apply_writes d (W @ V) = apply_writes (apply_writes d W) V"
  by (simp_all add: apply_writes_def)

lemma apply_writes_other: "b \<notin> fst ` set W \<Longrightarrow> apply_writes d W b = d b"
  by (induction W arbitrary: d) auto

lemma apply_writes_in:
  "distinct (map fst W) \<Longrightarrow> (b, x) \<in> set W \<Longrightarrow> apply_writes d W b = x"
proof (induction W arbitrary: d)
  case (Cons w W)
  then show ?case
  proof (cases "(b, x) = w")
    case True
    with Cons.prems have "b \<notin> fst ` set W" by (cases w) simp
    then show ?thesis using apply_writes_other [of b W "d(b := x)"] by (simp flip: True)
  next
    case False
    with Cons show ?thesis by (cases w) auto
  qed
qed simp

lemma apply_writes_upto:
  assumes "inj_on f {..<n}" "i < n"
  shows "apply_writes d (map (\<lambda>i. (f i, g i)) [0..<n]) (f i) = g i"
  using assms by (intro apply_writes_in) (auto simp: distinct_map o_def lessThan_atLeast0)

lemma apply_writes_upto_other:
  "(\<And>i. i < n \<Longrightarrow> f i \<noteq> b) \<Longrightarrow> apply_writes d (map (\<lambda>i. (f i, g i)) [0..<n]) b = d b"
  by (intro apply_writes_other) (fastforce)

lemma wrote_refl: "bio_inv s {} \<Longrightarrow> wrote s [] s"
  by (simp add: wrote_def)

lemma wrote_trans:
  assumes "wrote s W t" "wrote t V u"
  shows "wrote s (W @ V) u"
proof -
  have "bio_frame s u" using assms bio_frame_trans unfolding wrote_def by blast
  with assms show ?thesis by (simp add: wrote_def Diff_Un) blast
qed

lemma wroteD:
  assumes "wrote s W t"
  shows "bio_frame s t" "bio_inv t {}" "content t = apply_writes (content s) W"
    "disk t ROOTDEV = apply_writes (disk s ROOTDEV) W" "dirty t = dirty s - fst ` set W"
    "wtrace t = rev (map (Pair ROOTDEV) W) @ wtrace s"
  using assms by (simp_all add: wrote_def)

lemma bio_frame_log:
  assumes "bio_frame s t"
  shows "lg_start t = lg_start s" "lg_size t = lg_size s" "outstanding t = outstanding s"
    "committing t = committing s" "lg_dev t = lg_dev s" "lh_n t = lh_n s" "lh_block t = lh_block s"
    "log_st.more t = log_st.more s"
  using assms by (auto simp: bio_frame_def)

text \<open>The buffer cache does not depend on the fields of the log.\<close>

lemma bio_log_upd [simp]:
  fixes s :: "'z log_st_scheme"
  shows "bio_inv (s\<lparr>lh_n := n\<rparr>) H = bio_inv s H" "content (s\<lparr>lh_n := n\<rparr>) = content s"
    "dirty (s\<lparr>lh_n := n\<rparr>) = dirty s" "bio_inv (s\<lparr>lh_block := bl\<rparr>) H = bio_inv s H"
    "content (s\<lparr>lh_block := bl\<rparr>) = content s" "dirty (s\<lparr>lh_block := bl\<rparr>) = dirty s"
    "holds (s\<lparr>lh_n := n\<rparr>) = holds s" "holds (s\<lparr>lh_block := bl\<rparr>) = holds s"
    "bio_inv (s\<lparr>committing := c\<rparr>) H = bio_inv s H" "content (s\<lparr>committing := c\<rparr>) = content s"
    "dirty (s\<lparr>committing := c\<rparr>) = dirty s"
    "bio_inv (s\<lparr>outstanding := x\<rparr>) H = bio_inv s H" "content (s\<lparr>outstanding := x\<rparr>) = content s"
    "dirty (s\<lparr>outstanding := x\<rparr>) = dirty s"
  by (rule bio_same; simp)+

lemma bio_frame_log_upd:
  fixes s :: "'z log_st_scheme"
  assumes "bio_frame s t"
  shows "bio_frame (s\<lparr>lh_n := n\<rparr>) (t\<lparr>lh_n := n\<rparr>)"
    "bio_frame (s\<lparr>lh_n := n, lh_block := b\<rparr>) (t\<lparr>lh_n := n, lh_block := b\<rparr>)"
  using bio_frame_map [OF assms, of "\<lambda>s. s\<lparr>lh_n := n\<rparr>"]
    bio_frame_map [OF assms, of "\<lambda>s. s\<lparr>lh_n := n, lh_block := b\<rparr>"] by simp_all

text \<open>Copying block \<open>a\<close> over block \<open>b\<close>, in the two orders in which \<open>log.c\<close> reads the blocks.\<close>

lemma copy_block:
  assumes inv: "bio_inv s {}" and ab: "a \<noteq> b" "a < FSSIZE" "b < FSSIZE" and room: "card (dirty s) < NBUF"
  shows "b \<in> dirty s \<or> dirty s = {} \<Longrightarrow> \<exists>i t j u v w x. bread ROOTDEV a s = Ok (i, t) \<and> bread ROOTDEV b t = Ok (j, u) \<and>
      bwrite j (set_data j (buf_data u i) u) = Ok v \<and> brelse i v = Ok w \<and> brelse j w = Ok x \<and>
      bio_frame s t \<and> wrote s [(b, content s a)] x"
    and "a \<in> dirty s \<Longrightarrow> \<exists>i t j u v w x. bread ROOTDEV b s = Ok (j, t) \<and> bread ROOTDEV a t = Ok (i, u) \<and>
      bwrite j (set_data j (buf_data u i) u) = Ok v \<and> brelse i v = Ok w \<and> brelse j w = Ok x \<and>
      bio_frame s t \<and> wrote s [(b, content s a)] x"
proof -
  have fr: "bio_frame s t" if "bread ROOTDEV c s = Ok (i, t)" "c < FSSIZE" for c i t
    using bc.rd_ok [OF inv, of c] that room by auto
  have clean: "c \<in> dirty s \<or> content s c = disk s ROOTDEV c" for c using bc.clean [OF inv, of c] by auto
  {
    fix i j u
    assume u: "bio_inv u {a, b}" "holds u i a" "holds u j b" "content u = content s"
      "dirty u = dirty s" "bio_frame s u" "disk u ROOTDEV = disk s ROOTDEV" "wtrace u = wtrace s"
    have "a \<in> dirty u \<or> content u a = disk u ROOTDEV a" using clean u by simp
    from bc.copy_held [OF u(1) ab(1) u(2,3) this] obtain v w x where
      "bwrite j (set_data j (buf_data u i) u) = Ok v" "brelse i v = Ok w" "brelse j w = Ok x"
      "bio_inv x {}" "content x = (content u)(b := content u a)" "dirty x = dirty u - {b}" "bio_frame u x"
      "disk x ROOTDEV = (disk u ROOTDEV)(b := content u a)"
      "wtrace x = (ROOTDEV, b, content u a) # wtrace u" by blast
    with u have "\<exists>v w x. bwrite j (set_data j (buf_data u i) u) = Ok v \<and> brelse i v = Ok w \<and>
      brelse j w = Ok x \<and> wrote s [(b, content s a)] x"
      using bio_frame_trans [OF u(6)] by (simp add: wrote_def)
  } note copy = this
  show "\<exists>i t j u v w x. bread ROOTDEV a s = Ok (i, t) \<and> bread ROOTDEV b t = Ok (j, u) \<and>
      bwrite j (set_data j (buf_data u i) u) = Ok v \<and> brelse i v = Ok w \<and> brelse j w = Ok x \<and>
      bio_frame s t \<and> wrote s [(b, content s a)] x" if b: "b \<in> dirty s \<or> dirty s = {}"
  proof -
    have "b \<in> dirty s \<or> card (insert a (dirty s)) < NBUF" using b by (auto simp: NBUF_def)
    from bc.read_two [OF inv ab _ this] room obtain i t j u where t: "bread ROOTDEV a s = Ok (i, t)"
      "bread ROOTDEV b t = Ok (j, u)" "bio_inv u {a, b}" "holds u i a" "holds u j b" "content u = content s"
      "dirty u = dirty s" "bio_frame s u" "disk u ROOTDEV = disk s ROOTDEV" "wtrace u = wtrace s" by blast
    with copy [OF t(3-10)] fr [OF t(1) ab(2)] show ?thesis by blast
  qed
  show "\<exists>i t j u v w x. bread ROOTDEV b s = Ok (j, t) \<and> bread ROOTDEV a t = Ok (i, u) \<and>
      bwrite j (set_data j (buf_data u i) u) = Ok v \<and> brelse i v = Ok w \<and> brelse j w = Ok x \<and>
      bio_frame s t \<and> wrote s [(b, content s a)] x" if a: "a \<in> dirty s"
  proof -
    from bc.read_two [OF inv ab(1) [symmetric] ab(3,2)] room a obtain i t j u where t: "bread ROOTDEV b s = Ok (j, t)"
      "bread ROOTDEV a t = Ok (i, u)" "bio_inv u {b, a}" "holds u j b" "holds u i a" "content u = content s"
      "dirty u = dirty s" "bio_frame s u" "disk u ROOTDEV = disk s ROOTDEV" "wtrace u = wtrace s" by blast
    have "bio_inv u {a, b}" using t(3) by (simp add: insert_commute)
    with copy [OF this t(5,4,6-10)] t fr [OF t(1) ab(3)] show ?thesis by blast
  qed
qed

lemma upd_buf_log [simp]:
  "lg_start (upd_buf i f s) = lg_start s" "lg_size (upd_buf i f s) = lg_size s"
  "outstanding (upd_buf i f s) = outstanding s" "committing (upd_buf i f s) = committing s"
  "lg_dev (upd_buf i f s) = lg_dev s" "lh_n (upd_buf i f s) = lh_n s" "lh_block (upd_buf i f s) = lh_block s"
  by (simp_all add: upd_buf_def)

section \<open>The invariant of the log\<close>

definition lh_list :: "'z log_st_scheme \<Rightarrow> nat list" where
  "lh_list s = take (nat (lh_n s)) (lh_block s)"

definition log_region :: "'z log_st_scheme \<Rightarrow> nat set" where
  "log_region s = {lg_start s..<lg_start s + LOGSIZE}"

text \<open>
  The invariant while a process holds the blocks \<open>H\<close>: the header in memory lists exactly the dirty
  blocks, each once, none of them in the log itself, and there is a free buffer left.
\<close>

definition log_inv :: "'z log_st_scheme \<Rightarrow> nat set \<Rightarrow> bool" where
  "log_inv s H \<longleftrightarrow> bio_inv s H \<and> lg_dev s = ROOTDEV \<and> lg_size s = int LOGSIZE \<and> 0 \<le> lh_n s \<and>
     lh_n s < int LOGSIZE \<and> length (lh_block s) = LOGSIZE \<and> lg_start s + LOGSIZE < FSSIZE \<and>
     distinct (lh_list s) \<and> dirty s = set (lh_list s) \<and>
     (\<forall>b\<in>set (lh_list s). b < FSSIZE \<and> b \<notin> log_region s)"

lemma log_invD:
  assumes "log_inv s H"
  shows "bio_inv s H" "lg_dev s = ROOTDEV" "lg_size s = int LOGSIZE" "0 \<le> lh_n s" "lh_n s < int LOGSIZE"
    "length (lh_block s) = LOGSIZE" "lg_start s + LOGSIZE < FSSIZE" "distinct (lh_list s)"
    "dirty s = set (lh_list s)"
    "\<And>b. b \<in> set (lh_list s) \<Longrightarrow> b < FSSIZE" "\<And>b. b \<in> set (lh_list s) \<Longrightarrow> b \<notin> log_region s"
  using assms by (auto simp: log_inv_def)

lemma lh_list_length: "log_inv s H \<Longrightarrow> length (lh_list s) = nat (lh_n s)"
  using log_invD(5,6) [of s H] by (simp add: lh_list_def)

lemma lh_list_nth: "log_inv s H \<Longrightarrow> i < nat (lh_n s) \<Longrightarrow> lh_list s ! i = lh_block s ! i"
  by (simp add: lh_list_def)

lemma log_room: "log_inv s H \<Longrightarrow> card (dirty s) < NBUF"
  using lh_list_length [of s H] log_invD(4,5,8,9) [of s H]
  by (simp add: distinct_card LOGSIZE_def NBUF_def)

lemma log_block_apart:
  assumes "log_inv s H" "b \<in> set (lh_list s)" "i < LOGSIZE"
  shows "lg_start s + i \<noteq> b"
  using log_invD(11) [OF assms(1,2)] assms(3) by (auto simp: log_region_def)

section \<open>The loops of commit and recovery\<close>

definition log_writes :: "(nat \<Rightarrow> byte list) \<Rightarrow> nat \<Rightarrow> nat list \<Rightarrow> nat \<Rightarrow> (nat \<times> byte list) list" where
  "log_writes c st L k = map (\<lambda>i. (st + i + 1, c (L ! i))) [0..<k]"

definition home_writes :: "(nat \<Rightarrow> byte list) \<Rightarrow> nat \<Rightarrow> nat list \<Rightarrow> nat \<Rightarrow> (nat \<times> byte list) list" where
  "home_writes c st L k = map (\<lambda>i. (L ! i, c (st + i + 1))) [0..<k]"

lemma log_writes_Suc: "log_writes c st L (Suc k) = log_writes c st L k @ [(st + k + 1, c (L ! k))]"
  and home_writes_Suc: "home_writes c st L (Suc k) = home_writes c st L k @ [(L ! k, c (st + k + 1))]"
  and fst_log_writes: "fst ` set (log_writes c st L k) = (\<lambda>i. st + i + 1) ` {..<k}"
  and fst_home_writes: "fst ` set (home_writes c st L k) = (\<lambda>i. L ! i) ` {..<k}"
  by (auto simp: log_writes_def home_writes_def image_image lessThan_atLeast0)

lemma apply_log_writes:
  "apply_writes d (log_writes c st L k) b = (if st < b \<and> b \<le> st + k then c (L ! (b - st - 1)) else d b)"
proof (cases "st < b \<and> b \<le> st + k")
  case True
  then obtain i where i: "b = st + i + 1" "i < k"
    by (metis Suc_eq_plus1 add_Suc_right less_iff_Suc_add add_less_cancel_left less_eq_Suc_le)
  then show ?thesis
    using apply_writes_upto [of "\<lambda>i. st + i + 1" k i d "\<lambda>i. c (L ! i)"]
    by (simp add: log_writes_def inj_on_def)
next
  case False
  then have "b \<notin> fst ` set (log_writes c st L k)" by (auto simp: fst_log_writes)
  then have "apply_writes d (log_writes c st L k) b = d b" by (rule apply_writes_other)
  with False show ?thesis by (simp only: if_False)
qed

lemma apply_home_writes:
  assumes "distinct L" "k \<le> length L"
  shows "i < k \<Longrightarrow> apply_writes d (home_writes c st L k) (L ! i) = c (st + i + 1)"
    and "b \<notin> set (take k L) \<Longrightarrow> apply_writes d (home_writes c st L k) b = d b"
proof -
  have inj: "inj_on ((!) L) {..<k}" using assms by (auto simp: inj_on_def nth_eq_iff_index_eq)
  then show "i < k \<Longrightarrow> apply_writes d (home_writes c st L k) (L ! i) = c (st + i + 1)"
    unfolding home_writes_def by (rule apply_writes_upto)
  show "b \<notin> set (take k L) \<Longrightarrow> apply_writes d (home_writes c st L k) b = d b"
    by (rule apply_writes_other) (use assms in \<open>auto simp: fst_home_writes in_set_conv_nth\<close>)
qed

lemma write_log_loop:
  assumes inv: "log_inv s {}" and "k \<le> nat (lh_n s)"
  shows "\<exists>t. for_each [0..<k] log_block s = Ok t \<and> wrote s (log_writes (content s) (lg_start s) (lh_list s) k) t"
  using assms(2)
proof (induction k)
  case 0
  show ?case using wrote_refl log_invD(1) [OF inv] by (auto simp: log_writes_def)
next
  case (Suc k)
  note I = log_invD [OF inv]
  obtain t where t: "for_each [0..<k] log_block s = Ok t" "wrote s (log_writes (content s) (lg_start s) (lh_list s) k) t"
    using Suc by auto
  note W = wroteD [OF t(2)] note F = bio_frame_log [OF W(1)]
  define a where "a = lh_block s ! k"
  have k: "k < nat (lh_n s)" "k < length (lh_block s)" using Suc.prems I(5,6) by simp_all
  have a: "a \<in> set (lh_list s)" "lh_list s ! k = a"
    using k lh_list_nth [OF inv k(1)] lh_list_length [OF inv] nth_mem [of k "lh_list s"] by (simp_all add: a_def)
  have ap: "a \<noteq> lg_start s + i" if "i < LOGSIZE" for i using log_block_apart [OF inv a(1) that] by simp
  have kL: "k + 1 < LOGSIZE" using k I(5) by simp
  have same: "content t a = content s a"
    using log_invD(11) [OF inv a(1)] k(1) I(5) by (auto simp: W(3) apply_log_writes log_region_def)
  have "fst ` set (log_writes (content s) (lg_start s) (lh_list s) k) \<subseteq> log_region s"
    using I(5) k(1) by (auto simp: fst_log_writes log_region_def)
  then have d: "dirty t = dirty s" using I(9,11) W(5) by blast
  have lt: "a < FSSIZE" "lg_start s + k + 1 < FSSIZE" using I(7,10) a(1) kL by simp_all
  from copy_block(2) [OF W(2) _ lt, unfolded d] ap [OF kL] log_room [OF inv] a(1) I(9) obtain i u j v w x y where
    c: "bread ROOTDEV (lg_start s + k + 1) t = Ok (j, u)" "bread ROOTDEV a u = Ok (i, v)"
      "bwrite j (set_data j (buf_data v i) v) = Ok w" "brelse i w = Ok x" "brelse j x = Ok y"
      "bio_frame t u" "wrote t [(lg_start s + k + 1, content t a)] y" by auto
  note G = bio_frame_log [OF c(6)]
  have "log_block k t = Ok y" using c(1-5) k by (simp add: log_block_def lh_at_def F G I(2) flip: a_def)
  with wrote_trans [OF t(2) c(7)] t(1) show ?case
    by (simp add: for_each_Suc log_writes_Suc a(2) same del: upt_Suc)
qed

lemma install_loop:
  assumes inv: "bio_inv s {}" and dev: "lg_dev s = ROOTDEV"
    and L: "k \<le> length L" "L = take (length L) (lh_block s)" "distinct L" "\<forall>b\<in>set L. b < FSSIZE \<and> b \<notin> log_region s"
    and len: "length L < LOGSIZE" "lg_start s + LOGSIZE < FSSIZE"
    and room: "dirty s = set L \<or> dirty s = {}" "card (dirty s) < NBUF"
  shows "\<exists>t. for_each [0..<k] install_block s = Ok t \<and> wrote s (home_writes (content s) (lg_start s) L k) t"
  using L(1)
proof (induction k)
  case 0
  show ?case using wrote_refl inv by (auto simp: home_writes_def)
next
  case (Suc k)
  obtain t where t: "for_each [0..<k] install_block s = Ok t" "wrote s (home_writes (content s) (lg_start s) L k) t"
    using Suc by auto
  note W = wroteD [OF t(2)] note F = bio_frame_log [OF W(1)]
  define b a where "b = L ! k" and "a = lg_start s + k + 1"
  have k: "k < length L" "k < length (lh_block s)" "lh_block s ! k = b" "b \<in> set L"
    using Suc.prems arg_cong [OF L(2), of length] arg_cong [OF L(2), of "\<lambda>x. x ! k"] nth_mem [of k L] by (auto simp: b_def)
  have ab: "a \<noteq> c" "a < FSSIZE" if "c \<in> set L" for c
    using L(4) len k(1) that by (auto simp: a_def log_region_def)
  have same: "content t a = content s a"
    using apply_home_writes(2) [OF L(3) less_imp_le [OF k(1)], of a] ab(1) [of a] in_set_takeD [of a k L]
    by (simp add: W(3)) blast
  have "b \<notin> (!) L ` {..<k}" using k(1) L(3) by (auto simp: b_def nth_eq_iff_index_eq)
  then have d: "b \<in> dirty t \<or> dirty t = {}" "card (dirty t) < NBUF"
    using room k(4) card_mono [of "dirty s" "dirty t"] dirty_finite [of s] by (auto simp: W(5) fst_home_writes)
  from copy_block(1) [OF W(2) ab(1,2) _ d(2,1)] k(4) L(4) obtain i u j v w x y where
    c: "bread ROOTDEV a t = Ok (i, u)" "bread ROOTDEV b u = Ok (j, v)"
      "bwrite j (set_data j (buf_data v i) v) = Ok w" "brelse i w = Ok x" "brelse j x = Ok y"
      "bio_frame t u" "wrote t [(b, content t a)] y" by blast
  note G = bio_frame_log [OF c(6)]
  have "install_block k t = Ok y"
    using c(1-5) k by (simp add: install_block_def lh_at_def F G dev a_def)
  with wrote_trans [OF t(2) c(7)] t(1) show ?case
    using same by (simp add: for_each_Suc home_writes_Suc a_def b_def del: upt_Suc)
qed

section \<open>Commit\<close>

lemma write_head_spec:
  assumes "bio_inv s {}" "lg_dev s = ROOTDEV" "lg_start s < FSSIZE" "card (dirty s) < NBUF"
    and "0 \<le> lh_n s" "lh_n s \<le> int LOGSIZE" "length (lh_block s) = LOGSIZE"
  shows "\<exists>t. write_head s = Ok t \<and>
    wrote s [(lg_start s, head_image (lh_n s) (lh_block s) (content s (lg_start s)))] t"
proof -
  let ?f = "head_image (lh_n s) (lh_block s)"
  have "length (?f x) = BSIZE" if "length x = BSIZE" for x using head_image(1) [OF assms(5,6) that] .
  from bc.write_through [OF assms(1,3) disjI2 [OF assms(4)], of ?f, OF this] obtain i t u v where
    t: "bread ROOTDEV (lg_start s) s = Ok (i, t)" "bwrite i (set_data i (?f (buf_data t i)) t) = Ok u"
      "brelse i u = Ok v" and
    v: "bio_inv v {}" "content v = (content s)(lg_start s := ?f (content s (lg_start s)))"
      "dirty v = dirty s - {lg_start s}" "bio_frame s v"
      "disk v ROOTDEV = (disk s ROOTDEV)(lg_start s := ?f (content s (lg_start s)))"
      "wtrace v = (ROOTDEV, lg_start s, ?f (content s (lg_start s))) # wtrace s" by blast
  have "bio_frame s t" using bc.rd_ok [OF assms(1), of "lg_start s"] t(1) assms(3,4) by auto
  note F = bio_frame_log [OF this]
  have "write_head s = Ok v" using t assms by (simp add: write_head_def F Let_def)
  with v show ?thesis by (intro exI [of _ v]) (simp add: wrote_def)
qed

text \<open>The writes that a commit of the blocks \<open>L\<close>, with contents \<open>c\<close>, sends to the drive.\<close>

definition commit_writes :: "(nat \<Rightarrow> byte list) \<Rightarrow> nat \<Rightarrow> nat list \<Rightarrow> nat list \<Rightarrow> (nat \<times> byte list) list" where
  "commit_writes c st L blks =
     (let h = head_image (int (length L)) blks (c st)
      in log_writes c st L (length L) @ [(st, h)] @ map (\<lambda>b. (b, c b)) L @ [(st, head_image 0 blks h)])"

lemma head_image_0: "head_image 0 b d = splice d 0 (le32 0)"
  by (simp add: head_image_def)

lemma commit_run:
  assumes inv: "log_inv s {}" and n: "0 < lh_n s"
  shows "\<exists>t. commit s = Ok t \<and> wrote (s\<lparr>lh_n := 0\<rparr>) (commit_writes (content s) (lg_start s) (lh_list s) (lh_block s)) t"
proof -
  note I = log_invD [OF inv]
  define L n st where "L = lh_list s" and "n = nat (lh_n s)" and "st = lg_start s"
  have L: "length L = n" "distinct L" "int n = lh_n s" using lh_list_length [OF inv] I(4,8) by (simp_all add: L_def n_def)
  have apart: "st + i \<notin> set L" if "i \<le> n" for i
  proof -
    have "i < LOGSIZE" using that I(4,5) by (simp add: n_def le_nat_iff)
    then show ?thesis using log_block_apart [OF inv, of "st + i" i] by (auto simp: L_def st_def)
  qed
  from write_log_loop [OF inv order_refl] obtain a where
    a: "write_log s = Ok a" "wrote s (log_writes (content s) st L n) a"
    by (auto simp: write_log_def L_def n_def st_def)
  note Wa = wroteD [OF a(2)] note Fa = bio_frame_log [OF Wa(1)]
  have "Suc (st + i) \<notin> set L" if "i < n" for i using apart [of "Suc i"] that by simp
  then have da: "dirty a = dirty s" by (auto simp: Wa(5) fst_log_writes I(9) simp flip: L_def)
  have ca: "content a st = content s st" by (simp add: Wa(3) apply_log_writes)
  obtain b where b: "write_head a = Ok b" "wrote a [(st, head_image (lh_n s) (lh_block s) (content s st))] b"
    using write_head_spec [OF Wa(2)] I(2,4-7) log_room [OF inv] ca by (auto simp: Fa da st_def)
  note Wb = wroteD [OF b(2)] note Fb = bio_frame_log [OF Wb(1)]
  have db: "dirty b = set L" using apart [of 0] by (auto simp: Wb(5) da I(9) simp flip: L_def)
  have cb: "content b (st + i + 1) = content s (L ! i)" if "i < n" for i
    using that by (simp add: Wb(3) Wa(3) apply_log_writes)
  have "\<exists>c. for_each [0..<n] install_block b = Ok c \<and> wrote b (home_writes (content b) (lg_start b) L n) c"
    using I log_room [OF inv] L db
    by (intro install_loop [OF Wb(2)]) (auto simp: Fa Fb L_def log_region_def lh_list_def)
  then obtain c where c: "install_trans b = Ok c" "wrote b (home_writes (content b) st L n) c"
    by (auto simp: install_trans_def Fa Fb n_def st_def)
  note Wc = wroteD [OF c(2)] note Fc = bio_frame_log [OF Wc(1)]
  have hw: "home_writes (content b) st L n = map (\<lambda>b. (b, content s b)) L"
    using cb L(1) by (auto simp: home_writes_def list_eq_iff_nth_eq)
  have "wrote s (log_writes (content s) st L n @ [(st, head_image (lh_n s) (lh_block s) (content s st))] @
      map (\<lambda>b. (b, content s b)) L) c" (is "wrote s ?W c")
    using wrote_trans [OF a(2) wrote_trans [OF b(2) c(2)]] hw by simp
  then have c0: "wrote (s\<lparr>lh_n := 0\<rparr>) ?W (c\<lparr>lh_n := 0\<rparr>)"
    using bio_frame_log_upd(1) by (auto simp: wrote_def)
  have dc: "dirty c = {}" by (auto simp: Wc(5) db hw image_image)
  have cc: "content c st = head_image (lh_n s) (lh_block s) (content s st)"
    using apart [of 0] by (simp add: Wc(3) hw apply_writes_other image_image) (simp add: Wb(3))
  obtain d where d: "write_head (c\<lparr>lh_n := 0\<rparr>) = Ok d"
    "wrote (c\<lparr>lh_n := 0\<rparr>) [(st, head_image 0 (lh_block s) (content c st))] d"
    using write_head_spec [of "c\<lparr>lh_n := 0\<rparr>"] Wc(2) I by (auto simp: Fa Fb Fc dc st_def LOGSIZE_def NBUF_def)
  have "commit s = Ok d" using n a(1) b(1) c(1) d(1) by (simp add: commit_def)
  with wrote_trans [OF c0 d(2)] L show ?thesis
    by (intro exI [of _ d]) (simp add: commit_writes_def Let_def cc flip: L_def st_def)
qed

section \<open>Recovery\<close>

text \<open>
  What recovery makes of a disk: the blocks listed in the header on the disk are replaced by their
  copies in the log.
\<close>

definition head_list :: "byte list \<Rightarrow> nat list" where
  "head_list h = map (\<lambda>i. rd32 h (4 + 4 * i)) [0..<nat (signed32 (rd32 h 0))]"

definition recovered :: "nat \<Rightarrow> (nat \<Rightarrow> byte list) \<Rightarrow> nat \<Rightarrow> byte list" where
  "recovered st d = apply_writes d (home_writes d st (head_list (d st)) (length (head_list (d st))))"

lemma head_list_empty: "rd32 h 0 = 0 \<Longrightarrow> head_list h = []"
  by (simp add: head_list_def signed32_def)

lemma head_list_image:
  assumes "length L \<le> LOGSIZE" "take (length L) blks = L" "\<forall>b\<in>set L. b < 2 ^ 32" "length d = BSIZE"
  shows "head_list (head_image (int (length L)) blks d) = L"
proof (rule nth_equalityI)
  have n: "rd32 (head_image (int (length L)) blks d) 0 = length L"
    using head_image(2) [of "int (length L)"] assms by simp
  then show len: "length (head_list (head_image (int (length L)) blks d)) = length L"
    using assms(1) by (simp add: head_list_def signed32_def LOGSIZE_def)
  fix i assume "i < length (head_list (head_image (int (length L)) blks d))"
  then have i: "i < length L" using len by simp
  then have "blks ! i = L ! i" using assms(2) by (metis nth_take)
  moreover have "L ! i mod 2 ^ 32 = L ! i" using assms(3) i by simp
  ultimately show "head_list (head_image (int (length L)) blks d) ! i = L ! i"
    using head_image(3) [of "int (length L)" d i blks] assms i n len by (simp add: head_list_def)
qed

lemma read_head_spec:
  assumes "bio_inv s {}" "lg_dev s = ROOTDEV" "lg_start s < FSSIZE" "dirty s = {}"
    and n: "signed32 (rd32 (content s (lg_start s)) 0) \<le> int LOGSIZE"
  shows "\<exists>t. read_head s = Ok t \<and> wrote (s\<lparr>lh_n := signed32 (rd32 (content s (lg_start s)) 0),
    lh_block := head_list (content s (lg_start s)) @ drop (length (head_list (content s (lg_start s)))) (lh_block s)\<rparr>) [] t"
  (is "\<exists>t. _ \<and> wrote (s\<lparr>lh_n := ?n, lh_block := ?b\<rparr>) [] t")
proof -
  from bc.rd_ok [OF assms(1), of "lg_start s"] assms(3,4) obtain i t where
    t: "bread ROOTDEV (lg_start s) s = Ok (i, t)" "bio_inv t {lg_start s}" "holds t i (lg_start s)" "content t = content s"
      "dirty t = {}" "bio_frame s t" "disk t ROOTDEV = disk s ROOTDEV" "wtrace t = wtrace s"
    by (auto simp: NBUF_def)
  define t' where "t' = t\<lparr>lh_n := ?n, lh_block := ?b\<rparr>"
  have t': "bio_inv t' {lg_start s}" "holds t' i (lg_start s)" "content t' = content s"
      "dirty t' = {}" "bio_frame (s\<lparr>lh_n := ?n, lh_block := ?b\<rparr>) t'" "disk t' ROOTDEV = disk s ROOTDEV" "wtrace t' = wtrace s"
    using t bio_frame_log_upd(2) [OF t(6)] by (simp_all add: t'_def)
  have "content t' (lg_start s) = disk t' ROOTDEV (lg_start s)"
    using bc.clean [OF assms(1)] assms(4) t' by simp
  with bc.rel_ok [OF t'(1,2)] obtain u where u: "brelse i t' = Ok u" "bio_inv u {}" "content u = content s"
    "dirty u = {}" "bio_frame t' u" "disk u ROOTDEV = disk s ROOTDEV" "wtrace u = wtrace s" using t' by auto
  have "buf_data t i = content s (lg_start s)" using bc.at_data [OF t(2,3)] t(4) by simp
  then have "read_head s = Ok u"
    using t(1) u(1) n assms(2) bio_frame_log [OF t(6)]
    by (simp add: read_head_def Let_def t'_def head_list_def)
  with u assms(4) bio_frame_trans [OF t'(5) u(5)] show ?thesis by (simp add: wrote_def)
qed

text \<open>The disks on which recovery is defined: what a header that \<open>write_head\<close> wrote satisfies.\<close>

definition head_ok :: "nat \<Rightarrow> byte list \<Rightarrow> bool" where
  "head_ok st h \<longleftrightarrow> 0 \<le> signed32 (rd32 h 0) \<and> signed32 (rd32 h 0) < int LOGSIZE \<and> distinct (head_list h) \<and>
     (\<forall>b\<in>set (head_list h). b < FSSIZE \<and> (b < st \<or> st + LOGSIZE \<le> b))"

lemma recover_run:
  assumes inv: "bio_inv s {}" "lg_dev s = ROOTDEV" "lg_start s + LOGSIZE < FSSIZE" "dirty s = {}"
    "length (lh_block s) = LOGSIZE"
    and h: "head_ok (lg_start s) (disk s ROOTDEV (lg_start s))"
  shows "\<exists>t. recover_from_log s = Ok t \<and> bio_inv t {} \<and> dirty t = {} \<and> lh_n t = 0 \<and>
    length (lh_block t) = LOGSIZE \<and> lg_dev t = lg_dev s \<and> lg_size t = lg_size s \<and> lg_start t = lg_start s \<and>
    disk t ROOTDEV = (recovered (lg_start s) (disk s ROOTDEV))
      (lg_start s := head_image 0 [] (disk s ROOTDEV (lg_start s)))"
proof -
  define st d L where "st = lg_start s" and "d = disk s ROOTDEV" and "L = head_list (d st)"
  have cs: "content s = d" using bc.clean [OF inv(1)] inv(4) by (auto simp: d_def fun_eq_iff)
  have n: "0 \<le> signed32 (rd32 (d st) 0)" "length L = nat (signed32 (rd32 (d st) 0))" "length L < LOGSIZE"
    "distinct L" "\<forall>b\<in>set L. b < FSSIZE \<and> (b < st \<or> st + LOGSIZE \<le> b)"
    using h by (auto simp: head_ok_def L_def head_list_def d_def st_def)
  define s1 where "s1 = s\<lparr>lh_n := int (length L), lh_block := L @ drop (length L) (lh_block s)\<rparr>"
  obtain a where a: "read_head s = Ok a" "wrote s1 [] a"
    using read_head_spec [OF inv(1,2) _ inv(4)] inv(3) n by (auto simp: le_nat_iff nat_less_iff cs L_def st_def s1_def)
  note Wa = wroteD [OF a(2)] note Fa = bio_frame_log [OF Wa(1)]
  have s1: "content s1 = d" "dirty s1 = {}" "disk s1 ROOTDEV = d"
    by (simp_all add: s1_def cs inv(4) d_def)
  have "\<exists>b. for_each [0..<length L] install_block a = Ok b \<and> wrote a (home_writes (content a) (lg_start a) L (length L)) b"
    using n inv by (intro install_loop [OF Wa(2)])
      (auto simp: Fa Wa s1 log_region_def NBUF_def st_def s1_def)
  then obtain b where b: "install_trans a = Ok b" "wrote a (home_writes d st L (length L)) b"
    by (auto simp: install_trans_def Fa Wa s1_def cs st_def)
  note Wb = wroteD [OF b(2)] note Fb = bio_frame_log [OF Wb(1)]
  have bst: "content b st = d st"
    using apply_home_writes(2) [OF n(4) order_refl, of st] n(5) by (auto simp: Wb(3) Wa(3) s1 LOGSIZE_def)
  obtain c where c: "write_head (b\<lparr>lh_n := 0\<rparr>) = Ok c"
    "wrote (b\<lparr>lh_n := 0\<rparr>) [(st, head_image 0 (lh_block b) (d st))] c"
    using write_head_spec [of "b\<lparr>lh_n := 0\<rparr>"] Wb(2,5) Wa(5) inv n(3)
    bst
    by (auto simp: Fa Fb s1 st_def LOGSIZE_def NBUF_def s1_def)
  note Wc = wroteD [OF c(2)] note Fc = bio_frame_log [OF Wc(1)]
  have "disk c ROOTDEV = (recovered st d)(st := head_image 0 [] (d st))"
    by (simp add: Wc Wb Wa s1 recovered_def head_image_0 flip: L_def)
  moreover have "recover_from_log s = Ok c" using a(1) b(1) c(1) by (simp add: recover_from_log_def)
  ultimately show ?thesis
    using Wc(2,5) Wb(5) Wa(5) n(3) inv(4,5) by (intro exI [of _ c]) (simp add: Fc Fb Fa s1 s1_def st_def d_def)
qed

section \<open>Crashes\<close>

text \<open>The disk after a crash that let the first \<open>k\<close> writes of a commit through.\<close>

definition crash_disk :: "'z log_st_scheme \<Rightarrow> nat \<Rightarrow> nat \<Rightarrow> byte list" where
  "crash_disk s k =
     apply_writes (disk s ROOTDEV) (take k (commit_writes (content s) (lg_start s) (lh_list s) (lh_block s)))"

lemma recovered_clean: "rd32 (d st) 0 = 0 \<Longrightarrow> recovered st d = d"
  by (simp add: recovered_def head_list_empty home_writes_def)

lemma recovered_committed:
  assumes "head_list (d st) = L" "distinct L" and "\<And>i. i < length L \<Longrightarrow> d (st + i + 1) = c (L ! i)"
  shows "recovered st d b = (if b \<in> set L then c b else d b)"
proof (cases "b \<in> set L")
  case True
  then obtain i where i: "i < length L" "L ! i = b" by (metis in_set_conv_nth)
  with True show ?thesis
    using apply_home_writes(1) [OF assms(2) order_refl i(1), of d d st] assms(1,3) by (simp add: recovered_def)
next
  case False
  with apply_home_writes(2) [OF assms(2) order_refl, of b d d st] assms(1) show ?thesis
    by (simp add: recovered_def)
qed

lemma apply_home_copies:
  "apply_writes d (take j (map (\<lambda>b. (b, c b)) L)) b = (if b \<in> set (take j L) then c b else d b)"
proof -
  have "apply_writes d (map (\<lambda>b. (b, c b)) M) b = (if b \<in> set M then c b else d b)" for M
    by (induction M arbitrary: d) auto
  then show ?thesis by (simp add: take_map)
qed

lemma crash_before_header:
  assumes "k \<le> length (lh_list s)"
  shows "crash_disk s k b = apply_writes (disk s ROOTDEV) (log_writes (content s) (lg_start s) (lh_list s) k) b"
  using assms by (simp add: crash_disk_def commit_writes_def Let_def log_writes_def take_map)

lemma crash_after_header:
  assumes inv: "log_inv s {}" and k: "k = length (lh_list s) + 1 + j" "j \<le> length (lh_list s)"
  defines "st \<equiv> lg_start s" and "L \<equiv> lh_list s"
  shows "crash_disk s k b =
    (if b \<in> set (take j L) then content s b
     else if b = st then head_image (int (length L)) (lh_block s) (content s st)
     else if st < b \<and> b \<le> st + length L then content s (L ! (b - st - 1)) else disk s ROOTDEV b)"
proof -
  have [simp]: "length (log_writes c st' L' m) = m" for c st' L' m by (simp add: log_writes_def)
  show ?thesis
    using k by (simp add: crash_disk_def commit_writes_def Let_def apply_home_copies apply_log_writes
        st_def L_def)
qed

lemma log_facts:
  assumes inv: "log_inv s {}"
  shows "length (lh_list s) < LOGSIZE" "take (length (lh_list s)) (lh_block s) = lh_list s"
    "\<forall>b\<in>set (lh_list s). b < 2 ^ 32" "length (content s (lg_start s)) = BSIZE"
    "b \<notin> set (lh_list s) \<Longrightarrow> disk s ROOTDEV b = content s b"
    "lg_start s \<notin> set (lh_list s)" "i < length (lh_list s) \<Longrightarrow> lg_start s + i + 1 \<notin> set (lh_list s)"
proof -
  note I = log_invD [OF inv]
  show len: "length (lh_list s) < LOGSIZE" "take (length (lh_list s)) (lh_block s) = lh_list s"
    using lh_list_length [OF inv] I(4,5) by (simp_all add: lh_list_def)
  show "\<forall>b\<in>set (lh_list s). b < 2 ^ 32" using I(10) by (force simp: FSSIZE_def)
  show "length (content s (lg_start s)) = BSIZE" by (rule content_len [OF I(1)])
  show "disk s ROOTDEV b = content s b" if "b \<notin> set (lh_list s)" using bc.clean [OF I(1)] that I(9) by simp
  show "lg_start s \<notin> set (lh_list s)" "i < length (lh_list s) \<Longrightarrow> lg_start s + i + 1 \<notin> set (lh_list s)"
    using log_block_apart [OF inv, of "lg_start s" 0] log_block_apart [OF inv, of "lg_start s + i + 1" "Suc i"] len(1)
    by auto
qed

lemma recovered_before:
  assumes "rd32 (disk s ROOTDEV (lg_start s)) 0 = 0" "k \<le> length (lh_list s)"
  shows "recovered (lg_start s) (crash_disk s k) = crash_disk s k"
  using assms by (intro recovered_clean) (simp add: crash_before_header apply_log_writes)

lemma recovered_between:
  assumes inv: "log_inv s {}" and k: "k = length (lh_list s) + 1 + j" "j \<le> length (lh_list s)"
    and b: "b \<notin> log_region s"
  shows "recovered (lg_start s) (crash_disk s k) b = content s b"
proof -
  note L = log_facts [OF inv]
  note d = crash_after_header [OF inv k]
  have h: "head_list (crash_disk s k (lg_start s)) = lh_list s"
    using head_list_image [OF less_imp_le [OF L(1)] L(2,3,4)] L(6) by (auto simp: d dest: in_set_takeD)
  have c: "crash_disk s k (lg_start s + i + 1) = content s (lh_list s ! i)" if "i < length (lh_list s)" for i
    using L(7) [OF that] that by (auto simp: d dest: in_set_takeD)
  have "crash_disk s k b = content s b" if "b \<notin> set (lh_list s)"
    using L(1) L(5) [OF that] b that by (auto simp: d log_region_def dest: in_set_takeD)
  with recovered_committed [where d = "crash_disk s k" and c = "content s", OF h log_invD(8) [OF inv] c]
  show ?thesis by simp
qed

lemma recovered_after:
  assumes inv: "log_inv s {}" and k: "2 * length (lh_list s) + 2 \<le> k" and b: "b \<notin> log_region s"
  shows "recovered (lg_start s) (crash_disk s k) b = content s b"
proof -
  note L = log_facts [OF inv]
  define h where "h = head_image (int (length (lh_list s))) (lh_block s) (content s (lg_start s))"
  have d: "crash_disk s k = (crash_disk s (2 * length (lh_list s) + 1))(lg_start s := head_image 0 (lh_block s) h)"
    using k by (simp add: crash_disk_def commit_writes_def Let_def log_writes_def h_def)
  have "length h = BSIZE" using head_image(1) L(1,4) by (simp add: h_def)
  then have "recovered (lg_start s) (crash_disk s k) = crash_disk s k"
    using head_image(2) [of 0] by (intro recovered_clean) (simp add: d)
  moreover have "crash_disk s (2 * length (lh_list s) + 1) b = content s b"
    using crash_after_header [OF inv, of "2 * length (lh_list s) + 1" "length (lh_list s)"] b L(1,5)
    by (auto simp: log_region_def)
  ultimately show ?thesis using b by (auto simp: d log_region_def LOGSIZE_def)
qed

text \<open>
  C1.  Commits are atomic with respect to crashes.  Take any state in which the log invariant holds and
  the header on the disk is clear, and stop \<open>commit\<close> after any number \<open>k\<close> of the writes it sends
  to the drive.  On the disk that is left, recovery yields for every block outside the log
  either the old contents of all of them (if the crash came before the header write) or the
  committed contents of all of them (from the header write on), never a mixture.
\<close>

theorem commit_crash_atomic:
  assumes inv: "log_inv s {}" and n: "0 < lh_n s" and clear: "rd32 (disk s ROOTDEV (lg_start s)) 0 = 0"
  shows "\<exists>t. commit s = Ok t \<and>
    wtrace t = rev (map (Pair ROOTDEV) (commit_writes (content s) (lg_start s) (lh_list s) (lh_block s))) @ wtrace s \<and>
    (\<forall>k b. b \<notin> log_region s \<longrightarrow> recovered (lg_start s) (crash_disk s k) b =
       (if k \<le> nat (lh_n s) then disk s ROOTDEV b else content s b))"
proof -
  have "recovered (lg_start s) (crash_disk s k) b = (if k \<le> nat (lh_n s) then disk s ROOTDEV b else content s b)"
    if b: "b \<notin> log_region s" for k b
  proof (cases "k \<le> length (lh_list s)")
    case True
    with recovered_before [OF clear True] b log_facts(1) [OF inv] show ?thesis
      by (auto simp: crash_before_header apply_log_writes log_region_def lh_list_length [OF inv])
  next
    case False
    then obtain j where j: "k = length (lh_list s) + 1 + j"
      by (metis add.assoc add.commute not_le less_iff_Suc_add plus_1_eq_Suc)
    then show ?thesis
      using recovered_between [OF inv j _ b] recovered_after [OF inv _ b, of k] False
      by (cases "j \<le> length (lh_list s)") (simp_all add: lh_list_length [OF inv])
  qed
  with commit_run [OF inv n] show ?thesis by (auto simp: wrote_def)
qed

text \<open>
  C25.  Recovery: from a disk whose log header is well formed, \<open>recover_from_log\<close> completes, installs
  exactly the blocks that the header lists from their copies in the log, clears the header on the
  disk and leaves an empty log.
\<close>

theorem recover_from_log_correct:
  assumes "bio_inv s {}" "lg_dev s = ROOTDEV" "lg_start s + LOGSIZE < FSSIZE" "dirty s = {}"
    "length (lh_block s) = LOGSIZE" "head_ok (lg_start s) (disk s ROOTDEV (lg_start s))"
  shows "\<exists>t. recover_from_log s = Ok t \<and> bio_inv t {} \<and> dirty t = {} \<and> lh_n t = 0 \<and>
    disk t ROOTDEV = (recovered (lg_start s) (disk s ROOTDEV))
      (lg_start s := head_image 0 [] (disk s ROOTDEV (lg_start s)))"
  using recover_run [OF assms] by blast

section \<open>Operations of a transaction\<close>

lemma find_idx_mem: "find_idx (\<lambda>x. x = b) xs = None \<longleftrightarrow> b \<notin> set xs"
  by (auto simp: find_idx_None)

lemma log_write_run:
  assumes inv: "log_inv s H" and h: "holds s i b" "b \<in> H" and op: "0 < outstanding s"
    and room: "lh_n s < int LOGSIZE - 1" and b: "b \<notin> log_region s"
  shows "\<exists>t. log_write i s = Ok t \<and> log_inv t H \<and> content t = content s \<and> dirty t = insert b (dirty s) \<and>
    disk t = disk s \<and> holds t = holds s \<and>
    lh_list t = (if b \<in> set (lh_list s) then lh_list s else lh_list s @ [b]) \<and>
    (\<exists>n bl bs. t = s\<lparr>lh_n := n, lh_block := bl, bufs := bs\<rparr>)"
proof -
  note I = log_invD [OF inv]
  define k where "k = (case find_idx (\<lambda>x. x = b) (lh_list s) of Some k \<Rightarrow> k | None \<Rightarrow> nat (lh_n s))"
  define n where "n = (if int k = lh_n s then lh_n s + 1 else lh_n s)"
  define s1 where "s1 = s\<lparr>lh_block := (lh_block s)[k := b], lh_n := n\<rparr>"
  define t where "t = upd_buf i (\<lambda>x. x\<lparr>b_dirty := True\<rparr>) s1"
  have s1: "bio_inv s1 H" "holds s1 = holds s" "content s1 = content s" "dirty s1 = dirty s" "disk s1 = disk s"
    using I(1) by (simp_all add: s1_def)
  have h1: "holds s1 i b" using h(1) s1(2) by simp
  note m = mark_held [OF s1(1) h1 h(2) t_def]
  have bb: "b_blockno (bufs s ! i) = b" using h(1) by (simp add: holds_def)
  have lw: "log_write i s = Ok t"
    using I(3,5) op room bb by (simp add: log_write_def t_def s1_def n_def k_def lh_list_def Let_def)
  have l: "lh_list t = (if b \<in> set (lh_list s) then lh_list s else lh_list s @ [b])" (is "_ = ?L") "0 \<le> n" "n < int LOGSIZE"
  proof -
    have len: "length (lh_list s) = nat (lh_n s)" using lh_list_length [OF inv] .
    show "0 \<le> n" "n < int LOGSIZE" using I(4) room by (simp_all add: n_def)
    show "lh_list t = ?L"
    proof (cases "find_idx (\<lambda>x. x = b) (lh_list s)")
      case None
      then have "b \<notin> set (lh_list s)" by (simp add: find_idx_mem)
      with None I(4-6) show ?thesis
        by (simp add: t_def s1_def lh_list_def n_def k_def nat_add_distrib take_Suc_conv_app_nth)
    next
      case (Some j)
      then have j: "j < nat (lh_n s)" "lh_list s ! j = b" "b \<in> set (lh_list s)"
        using len by (auto simp: find_idx_Some nth_mem)
      with Some I(4) have "k = j" "n = lh_n s" by (simp_all add: k_def n_def)
      with j list_update_id [of "lh_list s" j] show ?thesis
        by (simp add: t_def s1_def lh_list_def take_update_swap)
    qed
  qed
  have t: "lg_dev t = lg_dev s" "lg_size t = lg_size s" "lh_n t = n" "length (lh_block t) = length (lh_block s)"
    "lg_start t = lg_start s" "disk t = disk s" by (simp_all add: t_def s1_def)
  have "b < FSSIZE" using bio_inv_held(2) [OF I(1) h] .
  then have ld: "distinct (lh_list t)" "insert b (dirty s) = set (lh_list t)" "\<forall>b\<in>set (lh_list t). b < FSSIZE \<and> b \<notin> log_region s"
    using I(8-11) b by (auto simp: l(1))
  then have "log_inv t H"
    using m(1,4) l(2,3) I(2,3,6,7) s1(4) t by (simp add: log_inv_def log_region_def)
  moreover have "holds t = holds s" using m(6) s1(2) by (intro ext) simp
  moreover have "t = s\<lparr>lh_n := n, lh_block := (lh_block s)[k := b], bufs := bufs t\<rparr>"
    by (simp add: t_def s1_def upd_buf_def)
  ultimately show ?thesis using lw m(3,4) s1(3,4) l(1) t(6) by (intro exI [of _ t]) (simp, blast)
qed

text \<open>
  C26.  Log absorption.  Inside a transaction, with a log that is not full, \<open>log_write\<close> of a held buffer
  succeeds, pins the block in the cache and keeps the invariant; a block that is in the
  transaction already takes no second slot, and no data moves.
\<close>

theorem log_write_absorbs:
  assumes "log_inv s H" "holds s i b" "b \<in> H" "0 < outstanding s" "lh_n s < int LOGSIZE - 1" "b \<notin> log_region s"
  shows "\<exists>t. log_write i s = Ok t \<and> log_inv t H \<and> content t = content s \<and> dirty t = insert b (dirty s) \<and>
    disk t = disk s \<and> lh_list t = (if b \<in> set (lh_list s) then lh_list s else lh_list s @ [b])"
  using log_write_run [OF assms] by blast

text \<open>
  What the operations of a transaction leave alone: everything but the buffers, the disk, the header
  of the log and the states in the process table.
\<close>

definition log_frame :: "'z log_st_scheme \<Rightarrow> 'z log_st_scheme \<Rightarrow> bool" where
  "log_frame s t \<longleftrightarrow> (\<exists>n bl. bio_frame (s\<lparr>lh_n := n, lh_block := bl\<rparr>) t)"

lemma log_frame_refl [simp]: "log_frame s s"
  unfolding log_frame_def by (rule exI [of _ "lh_n s"], rule exI [of _ "lh_block s"]) simp

lemma bio_log_frame: "bio_frame s t \<Longrightarrow> log_frame s t"
  unfolding log_frame_def by (rule exI [of _ "lh_n s"], rule exI [of _ "lh_block s"]) simp

lemma log_frame_trans [trans]:
  assumes "log_frame s t" "log_frame t u"
  shows "log_frame s u"
proof -
  from assms obtain n bl n' bl' where f: "bio_frame (s\<lparr>lh_n := n, lh_block := bl\<rparr>) t"
    "bio_frame (t\<lparr>lh_n := n', lh_block := bl'\<rparr>) u" unfolding log_frame_def by blast
  from bio_frame_trans [OF bio_frame_log_upd(2) [OF f(1)] f(2)]
  have "bio_frame (s\<lparr>lh_n := n', lh_block := bl'\<rparr>) u" by simp
  then show ?thesis unfolding log_frame_def by blast
qed

lemma log_frameD:
  assumes "log_frame s t"
  shows "lg_start t = lg_start s" "lg_size t = lg_size s" "outstanding t = outstanding s"
    "committing t = committing s" "lg_dev t = lg_dev s" "log_st.more t = log_st.more s"
    "cur t = cur s" "ptable_held t = ptable_held s" "length (ptable t) = length (ptable s)"
    "memory t = memory s" "log_region t = log_region s" "map p_pid (ptable t) = map p_pid (ptable s)"
proof -
  from assms obtain n bl where f: "bio_frame (s\<lparr>lh_n := n, lh_block := bl\<rparr>) t" unfolding log_frame_def by blast
  show "lg_start t = lg_start s" "lg_size t = lg_size s" "outstanding t = outstanding s"
    "committing t = committing s" "lg_dev t = lg_dev s" "log_st.more t = log_st.more s"
    "cur t = cur s" "ptable_held t = ptable_held s" "length (ptable t) = length (ptable s)"
    "memory t = memory s" "log_region t = log_region s" "map p_pid (ptable t) = map p_pid (ptable s)"
    using bio_frame_log [OF f] bio_frameD [OF f] by (simp_all add: log_region_def)
qed

section \<open>The interface of a transaction\<close>

text \<open>
  What the file system relies on: inside a transaction, blocks are read, changed and logged
  through held buffers.  \<open>left\<close> is the number of blocks the log still takes; \<open>safe\<close> says that a buffer
  may be released (it is in the log, or unchanged).
\<close>

locale transaction =
  fixes rd :: "nat \<Rightarrow> 's \<Rightarrow> (nat \<times> 's) res" and lw :: "nat \<Rightarrow> 's \<Rightarrow> 's res" and rel :: "nat \<Rightarrow> 's \<Rightarrow> 's res"
    and set_data :: "nat \<Rightarrow> byte list \<Rightarrow> 's \<Rightarrow> 's" and data :: "'s \<Rightarrow> nat \<Rightarrow> byte list"
    and inv :: "'s \<Rightarrow> nat set \<Rightarrow> bool" and at :: "'s \<Rightarrow> nat \<Rightarrow> nat \<Rightarrow> bool"
    and cont :: "'s \<Rightarrow> nat \<Rightarrow> byte list" and left :: "'s \<Rightarrow> nat" and safe :: "'s \<Rightarrow> nat \<Rightarrow> bool"
    and frame :: "'s \<Rightarrow> 's \<Rightarrow> bool" and area :: "'s \<Rightarrow> nat set"
  assumes rd_ok: "\<lbrakk>inv s H; finite H; b \<notin> H; b < FSSIZE; card H \<le> left s\<rbrakk> \<Longrightarrow>
      \<exists>i t. rd b s = Ok (i, t) \<and> inv t (insert b H) \<and> at t i b \<and> cont t = cont s \<and> left t = left s \<and>
        frame s t \<and> safe t b \<and> (\<forall>c. safe s c \<longrightarrow> safe t c) \<and> (\<forall>j c. at s j c \<and> c \<in> H \<longrightarrow> at t j c)"
    and at_data: "\<lbrakk>inv s H; at s i b\<rbrakk> \<Longrightarrow> data s i = cont s b"
    and cont_len: "inv s H \<Longrightarrow> length (cont s b) = BSIZE"
    and set_ok: "\<lbrakk>inv s H; at s i b; b \<in> H; length d = BSIZE; t = set_data i d s\<rbrakk> \<Longrightarrow>
      inv t H \<and> cont t = (cont s)(b := d) \<and> left t = left s \<and> frame s t \<and>
      (\<forall>c. c \<noteq> b \<and> safe s c \<longrightarrow> safe t c) \<and> (\<forall>j c. at t j c = at s j c)"
    and lw_ok: "\<lbrakk>inv s H; at s i b; b \<in> H; b \<notin> area s; 0 < left s\<rbrakk> \<Longrightarrow>
      \<exists>t. lw i s = Ok t \<and> inv t H \<and> cont t = cont s \<and> left s \<le> left t + 1 \<and> left t \<le> left s \<and> frame s t \<and>
        safe t b \<and> (\<forall>c. safe s c \<longrightarrow> safe t c) \<and> (\<forall>j c. at t j c = at s j c)"
    and rel_ok: "\<lbrakk>inv s H; at s i b; b \<in> H; safe s b\<rbrakk> \<Longrightarrow>
      \<exists>t. rel i s = Ok t \<and> inv t (H - {b}) \<and> cont t = cont s \<and> left t = left s \<and> frame s t \<and>
        (\<forall>c. safe s c \<longrightarrow> safe t c) \<and> (\<forall>j c. at t j c = at s j c)"
    and frame_trans: "\<lbrakk>frame s t; frame t u\<rbrakk> \<Longrightarrow> frame s u"
    and frame_area: "frame s t \<Longrightarrow> area t = area s"
begin

text \<open>Reading a block, while the blocks of \<open>H\<close> are held.\<close>

lemma fetch:
  assumes "inv s H" "finite H" "b \<notin> H" "b < FSSIZE" "card H \<le> left s"
  shows "\<exists>i t u. rd b s = Ok (i, t) \<and> data t i = cont s b \<and> rel i t = Ok u \<and> inv u H \<and> cont u = cont s \<and>
    left u = left s \<and> frame s t \<and> frame s u \<and> (\<forall>c. safe s c \<longrightarrow> safe u c) \<and>
    (\<forall>j c. at s j c \<and> c \<in> H \<longrightarrow> at u j c)"
proof -
  obtain i t where t: "rd b s = Ok (i, t)" "inv t (insert b H)" "at t i b" "cont t = cont s" "left t = left s"
    "frame s t" "safe t b" "\<forall>c. safe s c \<longrightarrow> safe t c" "\<forall>j c. at s j c \<and> c \<in> H \<longrightarrow> at t j c"
    using rd_ok [OF assms] by blast
  obtain u where u: "rel i t = Ok u" "inv u (insert b H - {b})" "cont u = cont t" "left u = left t" "frame t u"
    "\<forall>c. safe t c \<longrightarrow> safe u c" "\<forall>j c. at u j c = at t j c"
    using rel_ok [OF t(2,3) _ t(7)] by blast
  have "insert b H - {b} = H" using assms(3) by simp
  with t u at_data [OF t(2,3)] frame_trans [OF t(6) u(5)] show ?thesis
    by (intro exI [of _ i] exI [of _ t] exI [of _ u]) simp
qed

text \<open>Changing a block that is held, logging it, and releasing it.\<close>

lemma finish:
  assumes t: "inv t (insert b H)" "at t i b" "b \<notin> H" "b \<notin> area t" "0 < left t" "length d = BSIZE"
  shows "\<exists>u v. lw i (set_data i d t) = Ok u \<and> rel i u = Ok v \<and> inv v H \<and> cont v = (cont t)(b := d) \<and>
    left t \<le> left v + 1 \<and> left v \<le> left t \<and> frame t (set_data i d t) \<and> frame t u \<and> frame t v \<and>
    (\<forall>c\<in>H. safe t c \<longrightarrow> safe v c) \<and> (\<forall>j c. at v j c = at t j c)"
proof -
  define t1 where "t1 = set_data i d t"
  have t1: "inv t1 (insert b H)" "cont t1 = (cont t)(b := d)" "left t1 = left t" "frame t t1"
    "\<forall>c. c \<noteq> b \<and> safe t c \<longrightarrow> safe t1 c" "\<forall>j c. at t1 j c = at t j c"
    using set_ok [OF t(1,2) _ t(6) t1_def] by simp_all
  have at1: "at t1 i b" "b \<notin> area t1" "0 < left t1" using t1 t(2,4,5) frame_area [OF t1(4)] by simp_all
  obtain u where u: "lw i t1 = Ok u" "inv u (insert b H)" "cont u = cont t1" "left t1 \<le> left u + 1" "left u \<le> left t1"
    "frame t1 u" "safe u b" "\<forall>c. safe t1 c \<longrightarrow> safe u c" "\<forall>j c. at u j c = at t1 j c"
    using lw_ok [OF t1(1) at1(1) _ at1(2,3)] by blast
  have "at u i b" using u(9) at1(1) by simp
  from rel_ok [OF u(2) this _ u(7)] obtain v where v: "rel i u = Ok v" "inv v (insert b H - {b})"
    "cont v = cont u" "left v = left u" "frame u v" "\<forall>c. safe u c \<longrightarrow> safe v c" "\<forall>j c. at v j c = at u j c" by blast
  have "insert b H - {b} = H" using t(3) by simp
  moreover have "frame t u" using frame_trans [OF t1(4) u(6)] .
  moreover have "frame t v" using frame_trans [OF \<open>frame t u\<close> v(5)] .
  moreover have "safe v c" if "c \<in> H" "safe t c" for c
  proof -
    have "c \<noteq> b" using that(1) t(3) by auto
    with t1(5) that(2) u(8) v(6) show ?thesis by simp
  qed
  ultimately show ?thesis
    using t1 u v unfolding t1_def [symmetric] by (intro exI [of _ u] exI [of _ v]) simp
qed

lemma update:
  assumes "inv s H" "finite H" "b \<notin> H" "b < FSSIZE" "card H \<le> left s" "0 < left s" "b \<notin> area s"
    and len: "length (f (cont s b)) = BSIZE"
  shows "\<exists>i t u v. rd b s = Ok (i, t) \<and> data t i = cont s b \<and> frame s t \<and> lw i (set_data i (f (data t i)) t) = Ok u \<and>
    rel i u = Ok v \<and> inv v H \<and> cont v = (cont s)(b := f (cont s b)) \<and> left s \<le> left v + 1 \<and> left v \<le> left s \<and>
    frame s (set_data i (f (data t i)) t) \<and> frame s u \<and> frame s v \<and>
    (\<forall>c\<in>H. safe s c \<longrightarrow> safe v c) \<and> (\<forall>j c. at s j c \<and> c \<in> H \<longrightarrow> at v j c)"
proof -
  obtain i t where t: "rd b s = Ok (i, t)" "inv t (insert b H)" "at t i b" "cont t = cont s" "left t = left s"
    "frame s t" "safe t b" "\<forall>c. safe s c \<longrightarrow> safe t c" "\<forall>j c. at s j c \<and> c \<in> H \<longrightarrow> at t j c"
    using rd_ok [OF assms(1-5)] by blast
  have d: "data t i = cont s b" using at_data [OF t(2,3)] t(4) by simp
  have "b \<notin> area t" "0 < left t" using assms(6,7) t(5) frame_area [OF t(6)] by simp_all
  from finish [OF t(2,3) assms(3) this len] obtain u v where v: "lw i (set_data i (f (cont s b)) t) = Ok u"
    "rel i u = Ok v" "inv v H" "cont v = (cont t)(b := f (cont s b))" "left t \<le> left v + 1" "left v \<le> left t"
    "frame t (set_data i (f (cont s b)) t)" "frame t u" "frame t v" "\<forall>c\<in>H. safe t c \<longrightarrow> safe v c"
    "\<forall>j c. at v j c = at t j c" by blast
  with t d frame_trans [OF t(6) v(7)] frame_trans [OF t(6) v(8)] frame_trans [OF t(6) v(9)] show ?thesis
    by (intro exI [of _ i] exI [of _ t] exI [of _ u] exI [of _ v]) simp
qed

end

definition tx_inv :: "'z log_st_scheme \<Rightarrow> nat set \<Rightarrow> bool" where
  "tx_inv s H \<longleftrightarrow> log_inv s H \<and> 0 < outstanding s"

definition tx_left :: "'z log_st_scheme \<Rightarrow> nat" where
  "tx_left s = nat (int LOGSIZE - 1 - lh_n s)"

definition tx_safe :: "'z log_st_scheme \<Rightarrow> nat \<Rightarrow> bool" where
  "tx_safe s b \<longleftrightarrow> b \<in> dirty s \<or> content s b = disk s ROOTDEV b"

lemma log_inv_frame:
  assumes "log_inv s H" "bio_frame s t" "bio_inv t H'" "dirty t = dirty s"
  shows "log_inv t H'"
  using assms bio_frame_log [OF assms(2)] by (simp add: log_inv_def lh_list_def log_region_def)

lemma tx_invD:
  assumes "tx_inv s H"
  shows "log_inv s H" "bio_inv s H" "0 < outstanding s"
  using assms log_invD(1) [of s H] by (simp_all add: tx_inv_def)

lemma tx_keep:
  assumes "tx_inv s H" "bio_frame s t" "bio_inv t H'" "dirty t = dirty s"
  shows "tx_inv t H'" "tx_left t = tx_left s" "log_frame s t"
  using log_inv_frame [of s H, OF _ assms(2-4)] assms(1) bio_frame_log [OF assms(2)] bio_log_frame [OF assms(2)]
  by (simp_all add: tx_inv_def tx_left_def)

interpretation tx: transaction "bread ROOTDEV" log_write brelse set_data buf_data tx_inv holds content
  tx_left tx_safe log_frame log_region
proof (unfold_locales, goal_cases)
  case (1 s H b)
  note L = tx_invD(1,2) [OF 1(1)]
  have "card (dirty s) = nat (lh_n s)" using lh_list_length [OF L(1)] log_invD(8,9) [OF L(1)] by (simp add: distinct_card)
  then have "card (H \<union> dirty s) < NBUF"
    using 1(5) card_Un_le [of H "dirty s"] log_invD(4,5) [OF L(1)] by (simp add: tx_left_def LOGSIZE_def NBUF_def)
  from bc.rd_ok [OF L(2) 1(2-4) disjI2 [OF this]] obtain i t where
    t: "bread ROOTDEV b s = Ok (i, t)" "bio_inv t (insert b H)" "holds t i b" "content t = content s"
      "dirty t = dirty s" "bio_frame s t" "disk t ROOTDEV = disk s ROOTDEV" "wtrace t = wtrace s"
      "\<forall>j c. holds s j c \<and> c \<in> H \<longrightarrow> holds t j c" by blast
  have "tx_safe t b" using bc.clean [OF L(2) 1(3)] t by (auto simp: tx_safe_def)
  with t tx_keep [OF 1(1) t(6,2,5)] show ?case
    by (intro exI [of _ i] exI [of _ t]) (simp add: tx_safe_def)
next
  case (2 s H i b)
  then show ?case using bc.at_data [OF tx_invD(2) [OF 2(1)]] by simp
next
  case (3 s H b)
  from tx_invD(2) [OF this] show ?case by (rule content_len)
next
  case (4 s H i b d t)
  from bc.set_ok [OF tx_invD(2) [OF 4(1)] 4(2-5)] have t: "bio_inv t H" "content t = (content s)(b := d)" "dirty t = dirty s"
    "bio_frame s t" "disk t ROOTDEV = disk s ROOTDEV" "\<forall>j c. holds t j c = holds s j c" by simp_all
  with tx_keep [OF 4(1) t(4,1,3)] show ?case by (simp add: tx_safe_def)
next
  case (5 s H i b)
  note L = tx_invD(1,3) [OF 5(1)]
  have room: "lh_n s < int LOGSIZE - 1" using 5(5) by (simp add: tx_left_def)
  from log_write_run [OF L(1) 5(2,3) L(2) room 5(4)] obtain t n bl bs where t: "log_write i s = Ok t" "log_inv t H"
    "content t = content s" "dirty t = insert b (dirty s)" "disk t = disk s" "holds t = holds s"
    "lh_list t = (if b \<in> set (lh_list s) then lh_list s else lh_list s @ [b])"
    "t = s\<lparr>lh_n := n, lh_block := bl, bufs := bs\<rparr>" by blast
  have "log_frame s t"
    using bio_frameI [where s = "s\<lparr>lh_n := n, lh_block := bl\<rparr>" and pt = "ptable s" and bs = bs and
        m = "mru s" and d = "disk s" and w = "wtrace s"] t(8)
    unfolding log_frame_def by (intro exI [of _ n] exI [of _ bl]) simp
  moreover have "nat (lh_n t) \<le> nat (lh_n s) + 1" "nat (lh_n s) \<le> nat (lh_n t)"
    using arg_cong [OF t(7), of length] lh_list_length [OF L(1)] lh_list_length [OF t(2)] by (auto split: if_splits)
  then have "tx_left s \<le> tx_left t + 1" "tx_left t \<le> tx_left s"
    using log_invD(4) [OF L(1)] log_invD(4) [OF t(2)] by (simp_all add: tx_left_def)
  moreover have "tx_inv t H" using t(2) L(2) by (simp add: tx_inv_def t(8))
  moreover have "tx_safe t b" "\<forall>c. tx_safe s c \<longrightarrow> tx_safe t c" using t(3-5) by (simp_all add: tx_safe_def)
  ultimately show ?case using t(1,3,6) by (intro exI [of _ t]) simp
next
  case (6 s H i b)
  then have L: "bio_inv s H" "b \<in> dirty s \<or> content s b = disk s ROOTDEV b"
    using tx_invD(2) [OF 6(1)] by (simp_all add: tx_safe_def)
  from bc.rel_ok [OF L(1) 6(2,3) L(2)] obtain t where t: "brelse i s = Ok t" "bio_inv t (H - {b})"
    "content t = content s" "dirty t = dirty s" "bio_frame s t" "disk t ROOTDEV = disk s ROOTDEV"
    "\<forall>j c. holds t j c = holds s j c" by blast
  with tx_keep [OF 6(1) t(5,2,4)] show ?case by (intro exI [of _ t]) (simp add: tx_safe_def)
next
  case (7 s t u)
  then show ?case by (rule log_frame_trans)
next
  case (8 s t)
  then show ?case by (rule log_frameD)
qed

text \<open>Reading only, inside a transaction or not.\<close>

definition quiet :: "'z log_st_scheme \<Rightarrow> 'z log_st_scheme \<Rightarrow> bool" where
  "quiet s t \<longleftrightarrow> bio_frame s t \<and> log_inv t {} \<and> content t = content s \<and> dirty t = dirty s \<and>
     disk t ROOTDEV = disk s ROOTDEV"

lemma quiet_refl: "log_inv s {} \<Longrightarrow> quiet s s"
  by (simp add: quiet_def)

lemma quietD:
  assumes "quiet s t"
  shows "bio_frame s t" "log_inv t {}" "content t = content s" "dirty t = dirty s" "log_frame s t"
    "tx_inv s {} \<Longrightarrow> tx_inv t {}" "tx_left t = tx_left s" "outstanding t = outstanding s"
    "disk t ROOTDEV = disk s ROOTDEV"
  using assms bio_log_frame [of s t] bio_frame_log [of s t] by (simp_all add: quiet_def tx_inv_def tx_left_def)

lemma quiet_trans [trans]:
  assumes "quiet s t" "quiet t u"
  shows "quiet s u"
  using bio_frame_trans [OF quietD(1) [OF assms(1)] quietD(1) [OF assms(2)]] assms by (simp add: quiet_def)

lemma log_fetch:
  assumes "log_inv s {}" "b < FSSIZE"
  shows "\<exists>i t u. bread ROOTDEV b s = Ok (i, t) \<and> buf_data t i = content s b \<and> brelse i t = Ok u \<and>
    bio_frame s t \<and> quiet s u"
proof -
  note I = log_invD(1) [OF assms(1)]
  from bc.read_release [OF I finite.emptyI _ assms(2)] log_room [OF assms(1)] obtain i t u where
    u: "bread ROOTDEV b s = Ok (i, t)" "buf_data t i = content s b" "brelse i t = Ok u" "bio_inv u {}"
      "content u = content s" "dirty u = dirty s" "bio_frame s u" "disk u ROOTDEV = disk s ROOTDEV" by auto
  have "bio_frame s t" using bc.rd_ok [OF I finite.emptyI _ assms(2)] log_room [OF assms(1)] u(1) by auto
  with u log_inv_frame [OF assms(1) u(7,4,6)] show ?thesis
    by (intro exI [of _ i] exI [of _ t] exI [of _ u]) (simp add: quiet_def)
qed

section \<open>Concrete states\<close>

definition dirty_buf :: "nat \<Rightarrow> byte \<Rightarrow> buf" where
  "dirty_buf b v = empty_buf\<lparr>b_valid := True, b_dirty := True, b_dev := ROOTDEV, b_blockno := b,
     b_data := replicate BSIZE v\<rparr>"

definition zero_disk :: "nat \<Rightarrow> nat \<Rightarrow> byte list" where
  "zero_disk dev b = replicate BSIZE 0"

definition sample_log :: "nat list \<Rightarrow> (nat \<Rightarrow> nat \<Rightarrow> byte list) \<Rightarrow> int \<Rightarrow> 'z \<Rightarrow> 'z log_st_scheme" where
  "sample_log L d n z = (sample_bio \<lparr>lg_start = 2, lg_size = int LOGSIZE, outstanding = n, committing = False,
     lg_dev = ROOTDEV, lh_n = int (length L), lh_block = L @ replicate (LOGSIZE - length L) 0, \<dots> = z\<rparr>)
     \<lparr>bufs := map (\<lambda>b. dirty_buf b 7) L @ replicate (NBUF - length L) empty_buf,
       disk := d\<rparr>"

lemma sample_log_sel:
  "bufs (sample_log L d n z) = map (\<lambda>b. dirty_buf b 7) L @ replicate (NBUF - length L) empty_buf"
  "mru (sample_log L d n z) = rev [0..<NBUF]" "idequeue (sample_log L d n z) = []" "havedisk1 (sample_log L d n z)"
  "\<not> ide_err (sample_log L d n z)" "disk (sample_log L d n z) = d"
  "cur (sample_log L d n z) = Some 0" "\<not> ptable_held (sample_log L d n z)" "length (ptable (sample_log L d n z)) = 64"
  "lg_start (sample_log L d n z) = 2" "lg_size (sample_log L d n z) = int LOGSIZE" "outstanding (sample_log L d n z) = n"
  "lg_dev (sample_log L d n z) = ROOTDEV" "lh_n (sample_log L d n z) = int (length L)"
  "lh_block (sample_log L d n z) = L @ replicate (LOGSIZE - length L) 0" "lh_list (sample_log L d n z) = L"
  "log_region (sample_log L d n z) = {2..<32}" "committing (sample_log L d n z) = False" "log_st.more (sample_log L d n z) = z"
  by (simp_all add: sample_log_def sample_bio_def proc_st.defs sample_def lh_list_def log_region_def LOGSIZE_def)

lemma sample_log_inv:
  assumes "distinct L" "length L < LOGSIZE" "\<forall>b\<in>set L. 32 \<le> b \<and> b < FSSIZE" "\<forall>b. length (d ROOTDEV b) = BSIZE"
  shows "log_inv (sample_log L d n z) {}" "dirty (sample_log L d n z) = set L"
proof -
  let ?s = "sample_log L d n z"
  have len: "length (bufs ?s) = NBUF" using assms(2) by (simp add: sample_log_sel LOGSIZE_def NBUF_def)
  have h: "holds ?s i b \<longleftrightarrow> i < length L \<and> L ! i = b" for i b
    using assms(2) by (auto simp: holds_def len sample_log_sel nth_append dirty_buf_def empty_buf_def
        ROOTDEV_def LOGSIZE_def NBUF_def)
  have "env_ok ?s" using assms(4) unfolding env_ok_def len by (simp add: sample_log_sel set_upt atLeast0LessThan)
  moreover have "\<forall>x\<in>set (bufs ?s). buf_ok ?s {} x"
    using assms(3) by (auto simp: sample_log_sel buf_ok_def dirty_buf_def empty_buf_def ROOTDEV_def)
  ultimately have "bio_inv ?s {}"
    using assms(1) by (auto simp: bio_inv_def h nth_eq_iff_index_eq)
  moreover show d: "dirty ?s = set L"
    using assms(1) by (auto simp: dirty_def h in_set_conv_nth sample_log_sel nth_append dirty_buf_def)
  ultimately show "log_inv ?s {}"
    using assms by (auto simp: log_inv_def sample_log_sel LOGSIZE_def FSSIZE_def d)
qed

theorem commit_crash_atomic_witness:
  "\<exists>t. commit (sample_log [100, 200] zero_disk 1 ()) = Ok t \<and>
     recovered 2 (crash_disk (sample_log [100, 200] zero_disk 1 ()) 2) 200 = disk (sample_log [100, 200] zero_disk 1 ()) ROOTDEV 200 \<and>
     recovered 2 (crash_disk (sample_log [100, 200] zero_disk 1 ()) 3) 200 = content (sample_log [100, 200] zero_disk 1 ()) 200"
proof -
  have i: "log_inv (sample_log [100, 200] zero_disk 1 ()) {}"
    by (rule sample_log_inv) (simp_all add: LOGSIZE_def FSSIZE_def zero_disk_def)
  have "rd32 (replicate BSIZE 0) 0 = 0" by (simp add: rd32_def BSIZE_def)
  with commit_crash_atomic [OF i] show ?thesis by (auto simp: sample_log_sel zero_disk_def)
qed

theorem recover_from_log_correct_witness:
  "\<exists>t. recover_from_log (sample_log [] zero_disk 1 ()) = Ok t \<and> lh_n t = 0"
proof -
  have i: "log_inv (sample_log [] zero_disk 1 ()) {}" "dirty (sample_log [] zero_disk 1 ()) = {}"
    using sample_log_inv [of "[]" zero_disk] by (simp_all add: LOGSIZE_def zero_disk_def)
  have z: "rd32 (replicate BSIZE 0) 0 = 0" by (simp add: rd32_def BSIZE_def)
  have "head_ok 2 (replicate BSIZE 0)" by (simp add: head_ok_def head_list_def signed32_def z LOGSIZE_def)
  with recover_from_log_correct [OF log_invD(1) [OF i(1)] _ _ i(2)] show ?thesis
    by (auto simp: sample_log_sel LOGSIZE_def FSSIZE_def zero_disk_def)
qed

theorem log_write_absorbs_witness:
  "\<exists>i s t. bread ROOTDEV 100 (sample_log [] zero_disk 1 ()) = Ok (i, s) \<and> log_write i s = Ok t \<and> lh_list t = [100]"
proof -
  have i: "log_inv (sample_log [] zero_disk 1 ()) {}"
    using sample_log_inv [of "[]" zero_disk] by (simp_all add: LOGSIZE_def zero_disk_def)
  then have "tx_inv (sample_log [] zero_disk 1 ()) {}" by (simp add: tx_inv_def sample_log_sel)
  from tx.rd_ok [OF this, of 100] obtain i s where s: "bread ROOTDEV 100 (sample_log [] zero_disk 1 ()) = Ok (i, s)" "tx_inv s {100}"
    "holds s i 100" "tx_left s = tx_left (sample_log [] zero_disk 1 ())" "log_frame (sample_log [] zero_disk 1 ()) s"
    by (auto simp: FSSIZE_def)
  have f: "log_inv s {100}" "0 < outstanding s" "lh_n s = 0" "lh_list s = []" "100 \<notin> log_region s"
    using tx_invD [OF s(2)] s(4) log_frameD [OF s(5)] log_invD(4) [of s "{100}"]
    by (auto simp: sample_log_sel tx_left_def LOGSIZE_def lh_list_def)
  with log_write_absorbs [OF f(1) s(3)] s(1) show ?thesis by (auto simp: LOGSIZE_def)
qed

end
