(* ===== verification/Fs.thy ===== *)
theory Fs
  imports Log
begin

text \<open>
  \<^verbatim>\<open>fs.c\<close>, part 1: the block allocator and the inode layer (on-disk inodes, the inode cache, sleep-locked
  inodes), with the layout constants of \<^verbatim>\<open>fs.h\<close>.

  The lemmas run inside a transaction, through the interface \<open>transaction\<close> of the log: they relate
  the operations to the bitmap and to the inode area as functions of the block contents.
\<close>

section \<open>The layout of the disk\<close>

definition ROOTINO :: nat where "ROOTINO = 1"
definition NDIRECT :: nat where "NDIRECT = 10"
definition NINDIRECT :: nat where "NINDIRECT = BSIZE div 4"
definition NDBLINDIRECT :: nat where "NDBLINDIRECT = NINDIRECT * NINDIRECT"
definition NTPLINDIRECT :: nat where "NTPLINDIRECT = NINDIRECT * NINDIRECT * NINDIRECT"
definition MAXFILE :: nat where "MAXFILE = NDIRECT + NINDIRECT + NDBLINDIRECT + NTPLINDIRECT"
definition NINODE :: nat where "NINODE = 50"
definition DINODE_SIZE :: nat where "DINODE_SIZE = 12 + 4 * (NDIRECT + 3)"
definition IPB :: nat where "IPB = BSIZE div DINODE_SIZE"
definition BPB :: nat where "BPB = BSIZE * 8"
definition IBLOCK :: "nat \<Rightarrow> superblock \<Rightarrow> nat" where "IBLOCK i sb = i div IPB + sb_inodestart sb"
definition BBLOCK :: "nat \<Rightarrow> superblock \<Rightarrow> nat" where "BBLOCK b sb = b div BPB + sb_bmapstart sb"

definition T_DIR :: int where "T_DIR = 1"
definition T_FILE :: int where "T_FILE = 2"
definition T_DEV :: int where "T_DEV = 3"

record inode =
  i_dev :: nat
  i_inum :: nat
  i_ref :: int
  i_lock :: sleeplock
  i_valid :: bool
  i_type :: int
  i_major :: int
  i_minor :: int
  i_nlink :: int
  i_size :: nat
  i_addrs :: "nat list"

record fs_st = log_st +
  sb :: superblock
  icache :: "inode list"

record stat =
  st_dev :: nat
  st_ino :: nat
  st_type :: int
  st_nlink :: int
  st_size :: nat

definition upd_inode :: "nat \<Rightarrow> (inode \<Rightarrow> inode) \<Rightarrow> 'z fs_st_scheme \<Rightarrow> 'z fs_st_scheme" where
  "upd_inode i f s = s\<lparr>icache := (icache s)[i := f (icache s ! i)]\<rparr>"

section \<open>Blocks\<close>

definition bzero :: "nat \<Rightarrow> nat \<Rightarrow> 'z fs_st_scheme \<Rightarrow> 'z fs_st_scheme res" where
  "bzero dev bno s =
     bnd (bread dev bno s) (\<lambda>(bp, s).
     bnd (log_write bp (set_data bp (replicate BSIZE 0) s)) (brelse bp))"

text \<open>Bit \<open>bi\<close> of a bitmap block.\<close>

definition bit_at :: "byte list \<Rightarrow> nat \<Rightarrow> bool" where
  "bit_at d bi \<longleftrightarrow> d ! (bi div 8) AND push_bit (bi mod 8) 1 \<noteq> 0"

definition bit_on :: "byte list \<Rightarrow> nat \<Rightarrow> byte list" where
  "bit_on d bi = d[bi div 8 := d ! (bi div 8) OR push_bit (bi mod 8) 1]"

definition bit_off :: "byte list \<Rightarrow> nat \<Rightarrow> byte list" where
  "bit_off d bi = d[bi div 8 := d ! (bi div 8) AND NOT (push_bit (bi mod 8) 1)]"

fun balloc_loop :: "nat \<Rightarrow> nat list \<Rightarrow> 'z fs_st_scheme \<Rightarrow> (nat \<times> 'z fs_st_scheme) res" where
  "balloc_loop dev [] s = Panic ''balloc: out of blocks''"
| "balloc_loop dev (b # bs) s =
     bnd (bread dev (BBLOCK b (sb s)) s) (\<lambda>(bp, s).
     case find (\<lambda>bi. \<not> bit_at (buf_data s bp) bi) [0..<min BPB (sb_size (sb s) - b)] of
       Some bi \<Rightarrow>
         bnd (log_write bp (set_data bp (bit_on (buf_data s bp) bi) s)) (\<lambda>s.
         bnd (brelse bp s) (\<lambda>s.
         bnd (bzero dev (b + bi) s) (\<lambda>s.
         Ok (b + bi, s))))
     | None \<Rightarrow> bnd (brelse bp s) (balloc_loop dev bs))"

definition balloc :: "nat \<Rightarrow> 'z fs_st_scheme \<Rightarrow> (nat \<times> 'z fs_st_scheme) res" where
  "balloc dev s = balloc_loop dev (map (\<lambda>k. k * BPB) [0..<(sb_size (sb s) + BPB - 1) div BPB]) s"

definition bfree :: "nat \<Rightarrow> nat \<Rightarrow> 'z fs_st_scheme \<Rightarrow> 'z fs_st_scheme res" where
  "bfree dev b s =
     bnd (bread dev (BBLOCK b (sb s)) s) (\<lambda>(bp, s).
     let bi = b mod BPB
     in if \<not> bit_at (buf_data s bp) bi then Panic ''freeing free block''
        else bnd (log_write bp (set_data bp (bit_off (buf_data s bp) bi) s)) (brelse bp))"

section \<open>Inodes\<close>

definition signed16 :: "nat \<Rightarrow> int" where
  "signed16 v = (if v < 2 ^ 15 then int v else int v - 2 ^ 16)"

definition short :: "int \<Rightarrow> byte list" where
  "short v = le16 (nat (v mod 2 ^ 16))"

text \<open>
  The fields of a \<open>struct dinode\<close> at an offset of a block, and a block with the fields of
  an in-memory inode stored there.
\<close>

definition load_dinode :: "byte list \<Rightarrow> nat \<Rightarrow> inode \<Rightarrow> inode" where
  "load_dinode d off ip = ip\<lparr>i_type := signed16 (rd16 d off), i_major := signed16 (rd16 d (off + 2)),
     i_minor := signed16 (rd16 d (off + 4)), i_nlink := signed16 (rd16 d (off + 6)),
     i_size := rd32 d (off + 8), i_addrs := map (\<lambda>k. rd32 d (off + 12 + 4 * k)) [0..<NDIRECT + 3]\<rparr>"

definition store_dinode :: "byte list \<Rightarrow> nat \<Rightarrow> inode \<Rightarrow> byte list" where
  "store_dinode d off ip = splice d off (short (i_type ip) @ short (i_major ip) @ short (i_minor ip) @
     short (i_nlink ip) @ le32 (i_size ip) @ concat (map le32 (i_addrs ip)))"

definition iinit :: "nat \<Rightarrow> 'z fs_st_scheme \<Rightarrow> 'z fs_st_scheme res" where
  "iinit dev s =
     (let s = s\<lparr>icache := map (\<lambda>ip. ip\<lparr>i_lock := initsleeplock (i_lock ip)\<rparr>) (icache s)\<rparr>
      in bnd (readsb dev s) (\<lambda>(b, s). Ok (s\<lparr>sb := b\<rparr>)))"

definition iget :: "nat \<Rightarrow> nat \<Rightarrow> 'z fs_st_scheme \<Rightarrow> (nat \<times> 'z fs_st_scheme) res" where
  "iget dev inum s =
     (case find_idx (\<lambda>ip. i_ref ip > 0 \<and> i_dev ip = dev \<and> i_inum ip = inum) (icache s) of
        Some i \<Rightarrow> Ok (i, upd_inode i (\<lambda>ip. ip\<lparr>i_ref := i_ref ip + 1\<rparr>) s)
      | None \<Rightarrow>
          (case find_idx (\<lambda>ip. i_ref ip = 0) (icache s) of
             None \<Rightarrow> Panic ''iget: no inodes''
           | Some i \<Rightarrow> Ok (i, upd_inode i (\<lambda>ip. ip\<lparr>i_dev := dev, i_inum := inum, i_ref := 1, i_valid := False\<rparr>) s)))"

fun ialloc_loop :: "nat \<Rightarrow> int \<Rightarrow> nat list \<Rightarrow> 'z fs_st_scheme \<Rightarrow> (nat \<times> 'z fs_st_scheme) res" where
  "ialloc_loop dev type [] s = Panic ''ialloc: no inodes''"
| "ialloc_loop dev type (inum # rest) s =
     bnd (bread dev (IBLOCK inum (sb s)) s) (\<lambda>(bp, s).
     let off = inum mod IPB * DINODE_SIZE
     in if rd16 (buf_data s bp) off = 0 then
          bnd (log_write bp (set_data bp (splice (splice (buf_data s bp) off (replicate DINODE_SIZE 0))
                 off (short type)) s)) (\<lambda>s.
          bnd (brelse bp s) (iget dev inum))
        else bnd (brelse bp s) (ialloc_loop dev type rest))"

definition ialloc :: "nat \<Rightarrow> int \<Rightarrow> 'z fs_st_scheme \<Rightarrow> (nat \<times> 'z fs_st_scheme) res" where
  "ialloc dev type s = ialloc_loop dev type [1..<sb_ninodes (sb s)] s"

definition iupdate :: "nat \<Rightarrow> 'z fs_st_scheme \<Rightarrow> 'z fs_st_scheme res" where
  "iupdate i s =
     (let ip = icache s ! i
      in bnd (bread (i_dev ip) (IBLOCK (i_inum ip) (sb s)) s) (\<lambda>(bp, s).
         bnd (log_write bp (set_data bp (store_dinode (buf_data s bp) (i_inum ip mod IPB * DINODE_SIZE) ip) s))
           (brelse bp)))"

definition idup :: "nat \<Rightarrow> 'z fs_st_scheme \<Rightarrow> nat \<times> 'z fs_st_scheme" where
  "idup i s = (i, upd_inode i (\<lambda>ip. ip\<lparr>i_ref := i_ref ip + 1\<rparr>) s)"

definition ilock :: "nat option \<Rightarrow> 'z fs_st_scheme \<Rightarrow> 'z fs_st_scheme res" where
  "ilock oi s =
     (case oi of None \<Rightarrow> Panic ''ilock''
      | Some i \<Rightarrow>
          if i_ref (icache s ! i) < 1 then Panic ''ilock''
          else bnd (acquiresleep (InodeLockChan i) (i_lock (icache s ! i)) s) (\<lambda>lk.
               let s = upd_inode i (\<lambda>ip. ip\<lparr>i_lock := lk\<rparr>) s; ip = icache s ! i
               in if i_valid ip then Ok s
                  else bnd (bread (i_dev ip) (IBLOCK (i_inum ip) (sb s)) s) (\<lambda>(bp, s).
                       let s = upd_inode i (load_dinode (buf_data s bp) (i_inum ip mod IPB * DINODE_SIZE)) s
                       in bnd (brelse bp s) (\<lambda>s.
                          let s = upd_inode i (\<lambda>ip. ip\<lparr>i_valid := True\<rparr>) s
                          in if i_type (icache s ! i) = 0 then Panic ''ilock: no type'' else Ok s))))"

definition iunlock :: "nat option \<Rightarrow> 'z fs_st_scheme \<Rightarrow> 'z fs_st_scheme res" where
  "iunlock oi s =
     (case oi of None \<Rightarrow> Panic ''iunlock''
      | Some i \<Rightarrow>
          bnd (holdingsleep (i_lock (icache s ! i)) s) (\<lambda>h.
          if \<not> h \<or> i_ref (icache s ! i) < 1 then Panic ''iunlock''
          else bnd (releasesleep (InodeLockChan i) (i_lock (icache s ! i)) s) (\<lambda>(lk, s).
               Ok (upd_inode i (\<lambda>ip. ip\<lparr>i_lock := lk\<rparr>) s))))"

definition stati :: "nat \<Rightarrow> 'z fs_st_scheme \<Rightarrow> stat" where
  "stati i s = (let ip = icache s ! i in
     \<lparr>st_dev = i_dev ip, st_ino = i_inum ip, st_type = i_type ip, st_nlink = i_nlink ip, st_size = i_size ip\<rparr>)"

section \<open>Block addresses\<close>

text \<open>
  One level of \<open>bmap\<close>: read entry \<open>r\<close> of the address block \<open>addr\<close>; if it is zero, allocate a block
  and store its address in entry \<open>w\<close>.  An index past the end of the block is a \<open>Fault\<close>.
\<close>

definition bmap_level :: "nat \<Rightarrow> nat \<Rightarrow> nat \<Rightarrow> nat \<Rightarrow> 'z fs_st_scheme \<Rightarrow> (nat \<times> 'z fs_st_scheme) res" where
  "bmap_level dev addr r w s =
     bnd (bread dev addr s) (\<lambda>(bp, s).
     if r \<ge> NINDIRECT then Fault ''bmap: a[] out of range''
     else let e = rd32 (buf_data s bp) (4 * r)
          in if e = 0 then
               bnd (balloc dev s) (\<lambda>(e, s).
               bnd (log_write bp (set_data bp (splice (buf_data s bp) (4 * w) (le32 e)) s)) (\<lambda>s.
               bnd (brelse bp s) (\<lambda>s. Ok (e, s))))
             else bnd (brelse bp s) (\<lambda>s. Ok (e, s)))"

definition bmap_slot :: "nat \<Rightarrow> nat \<Rightarrow> 'z fs_st_scheme \<Rightarrow> (nat \<times> 'z fs_st_scheme) res" where
  "bmap_slot i k s =
     (let addr = i_addrs (icache s ! i) ! k
      in if addr = 0 then
           bnd (balloc (i_dev (icache s ! i)) s) (\<lambda>(addr, s).
           Ok (addr, upd_inode i (\<lambda>ip. ip\<lparr>i_addrs := (i_addrs ip)[k := addr]\<rparr>) s))
         else Ok (addr, s))"

definition bmap :: "nat \<Rightarrow> nat \<Rightarrow> 'z fs_st_scheme \<Rightarrow> (nat \<times> 'z fs_st_scheme) res" where
  "bmap i bn s =
     (let dev = i_dev (icache s ! i) in
      if bn < NDIRECT then bmap_slot i bn s
      else let bn = bn - NDIRECT in
      if bn < NINDIRECT then
        bnd (bmap_slot i NDIRECT s) (\<lambda>(addr, s).
        bmap_level dev addr bn bn s)
      else let bn = bn - NINDIRECT in
      if bn < NDBLINDIRECT then
        bnd (bmap_slot i (NDIRECT + 1) s) (\<lambda>(addr, s).
        bnd (bmap_level dev addr (bn div NINDIRECT) (bn div NINDIRECT) s) (\<lambda>(addr, s).
        bmap_level dev addr (bn mod NINDIRECT) (bn mod NINDIRECT) s))
      else let bn = bn - NDBLINDIRECT in
      if bn < NTPLINDIRECT then
        bnd (bmap_slot i (NDIRECT + 2) s) (\<lambda>(addr, s).
        bnd (bmap_level dev addr (bn div NDBLINDIRECT) (bn div NDBLINDIRECT) s) (\<lambda>(addr, s).
        bnd (bmap_level dev addr (bn div NINDIRECT) (bn mod NDBLINDIRECT div NINDIRECT) s) (\<lambda>(addr, s).
        bmap_level dev addr (bn mod NINDIRECT) (bn mod NINDIRECT) s)))
      else Panic ''bmap: out of range'')"

text \<open>The loops of \<open>itrunc\<close> over an address block, one definition per level of indirection.\<close>

definition free_single :: "nat \<Rightarrow> nat \<Rightarrow> 'z fs_st_scheme \<Rightarrow> 'z fs_st_scheme res" where
  "free_single dev addr s =
     bnd (bread dev addr s) (\<lambda>(bp, s).
     bnd (for_each [0..<NINDIRECT] (\<lambda>j s.
            let a = rd32 (buf_data s bp) (4 * j) in if a \<noteq> 0 then bfree dev a s else Ok s) s) (\<lambda>s.
     bnd (brelse bp s) (bfree dev addr)))"

definition free_double :: "nat \<Rightarrow> nat \<Rightarrow> 'z fs_st_scheme \<Rightarrow> 'z fs_st_scheme res" where
  "free_double dev addr s =
     bnd (bread dev addr s) (\<lambda>(bp, s).
     bnd (for_each [0..<NINDIRECT] (\<lambda>k s.
            let a = rd32 (buf_data s bp) (4 * k) in if a \<noteq> 0 then free_single dev a s else Ok s) s) (\<lambda>s.
     bnd (brelse bp s) (bfree dev addr)))"

definition free_triple :: "nat \<Rightarrow> nat \<Rightarrow> 'z fs_st_scheme \<Rightarrow> 'z fs_st_scheme res" where
  "free_triple dev addr s =
     bnd (bread dev addr s) (\<lambda>(bp, s).
     bnd (for_each [0..<NINDIRECT] (\<lambda>w s.
            let a = rd32 (buf_data s bp) (4 * w) in if a \<noteq> 0 then free_double dev a s else Ok s) s) (\<lambda>s.
     bnd (brelse bp s) (bfree dev addr)))"

text \<open>Freeing what entry \<open>k\<close> of \<open>addrs\<close> refers to, and clearing the entry.\<close>

definition trunc_slot :: "(nat \<Rightarrow> nat \<Rightarrow> 'z fs_st_scheme \<Rightarrow> 'z fs_st_scheme res) \<Rightarrow> nat \<Rightarrow> nat \<Rightarrow>
    'z fs_st_scheme \<Rightarrow> 'z fs_st_scheme res" where
  "trunc_slot free i k s =
     (let addr = i_addrs (icache s ! i) ! k
      in if addr \<noteq> 0 then
           bnd (free (i_dev (icache s ! i)) addr s) (\<lambda>s.
           Ok (upd_inode i (\<lambda>ip. ip\<lparr>i_addrs := (i_addrs ip)[k := 0]\<rparr>) s))
         else Ok s)"

definition itrunc :: "nat \<Rightarrow> 'z fs_st_scheme \<Rightarrow> 'z fs_st_scheme res" where
  "itrunc i s =
     bnd (for_each [0..<NDIRECT] (trunc_slot bfree i) s) (\<lambda>s.
     bnd (trunc_slot free_single i NDIRECT s) (\<lambda>s.
     bnd (trunc_slot free_double i (NDIRECT + 1) s) (\<lambda>s.
     bnd (trunc_slot free_triple i (NDIRECT + 2) s) (\<lambda>s.
     iupdate i (upd_inode i (\<lambda>ip. ip\<lparr>i_size := 0\<rparr>) s)))))"

definition iput :: "nat \<Rightarrow> 'z fs_st_scheme \<Rightarrow> 'z fs_st_scheme res" where
  "iput i s =
     bnd (acquiresleep (InodeLockChan i) (i_lock (icache s ! i)) s) (\<lambda>lk.
     let s = upd_inode i (\<lambda>ip. ip\<lparr>i_lock := lk\<rparr>) s; ip = icache s ! i
     in bnd (if i_valid ip \<and> i_nlink ip = 0 \<and> i_ref ip = 1 then
               bnd (itrunc i s) (\<lambda>s.
               bnd (iupdate i (upd_inode i (\<lambda>ip. ip\<lparr>i_type := 0\<rparr>) s)) (\<lambda>s.
               Ok (upd_inode i (\<lambda>ip. ip\<lparr>i_valid := False\<rparr>) s)))
             else Ok s) (\<lambda>s.
        bnd (releasesleep (InodeLockChan i) (i_lock (icache s ! i)) s) (\<lambda>(lk, s).
        Ok (upd_inode i (\<lambda>ip. ip\<lparr>i_lock := lk, i_ref := i_ref ip - 1\<rparr>) s))))"

definition iunlockput :: "nat \<Rightarrow> 'z fs_st_scheme \<Rightarrow> 'z fs_st_scheme res" where
  "iunlockput i s = bnd (iunlock (Some i) s) (iput i)"

section \<open>File contents\<close>

definition NDEV :: int where "NDEV = 10"

text \<open>The device switch \<open>devsw\<close>: the read and write routine of each major number.\<close>

type_synonym 's devsw = "int \<Rightarrow> (nat \<Rightarrow> nat \<Rightarrow> 's \<Rightarrow> ((int \<times> byte list) \<times> 's) res) option \<times>
  (nat \<Rightarrow> byte list \<Rightarrow> 's \<Rightarrow> (int \<times> 's) res) option"

text \<open>
  The loops of \<open>readi\<close> and \<open>writei\<close>: \<open>n\<close> is the number of bytes that remain; \<open>readi\<close> returns the bytes
  it copies to \<open>dst\<close>, \<open>writei\<close> takes the bytes at \<open>src\<close>.
\<close>

function readi_loop :: "nat \<Rightarrow> nat \<Rightarrow> nat \<Rightarrow> 'z fs_st_scheme \<Rightarrow> (byte list \<times> 'z fs_st_scheme) res" where
  "readi_loop i off n s =
     (if n = 0 then Ok ([], s)
      else bnd (bmap i (off div BSIZE) s) (\<lambda>(addr, s).
           bnd (bread (i_dev (icache s ! i)) addr s) (\<lambda>(bp, s).
           let m = min n (BSIZE - off mod BSIZE);
               d = slice (buf_data s bp) (off mod BSIZE) m
           in bnd (brelse bp s) (\<lambda>s.
              bnd (readi_loop i (off + m) (n - m) s) (\<lambda>(r, s). Ok (d @ r, s))))))"
  by pat_completeness auto
termination
  by (relation "measure (\<lambda>(i, off, n, s). n)") (auto simp: BSIZE_def)

function writei_loop :: "nat \<Rightarrow> nat \<Rightarrow> byte list \<Rightarrow> 'z fs_st_scheme \<Rightarrow> 'z fs_st_scheme res" where
  "writei_loop i off src s =
     (if src = [] then Ok s
      else bnd (bmap i (off div BSIZE) s) (\<lambda>(addr, s).
           bnd (bread (i_dev (icache s ! i)) addr s) (\<lambda>(bp, s).
           let m = min (length src) (BSIZE - off mod BSIZE)
           in bnd (log_write bp (set_data bp (splice (buf_data s bp) (off mod BSIZE) (take m src)) s)) (\<lambda>s.
              bnd (brelse bp s) (writei_loop i (off + m) (drop m src))))))"
  by pat_completeness auto
termination
  by (relation "measure (\<lambda>(i, off, src, s). length src)") (auto simp: BSIZE_def)

declare readi_loop.simps [simp del] writei_loop.simps [simp del]

definition readi :: "'z fs_st_scheme devsw \<Rightarrow> nat \<Rightarrow> nat \<Rightarrow> nat \<Rightarrow> 'z fs_st_scheme \<Rightarrow>
    ((int \<times> byte list) \<times> 'z fs_st_scheme) res" where
  "readi dv i off n s =
     (let ip = icache s ! i in
      if i_type ip = T_DEV then
        (if i_major ip < 0 \<or> i_major ip \<ge> NDEV then Ok ((-1, []), s)
         else case fst (dv (i_major ip)) of None \<Rightarrow> Ok ((-1, []), s) | Some rd \<Rightarrow> rd i n s)
      else if off > i_size ip \<or> add32 off n < off then Ok ((-1, []), s)
      else let n = (if add32 off n > i_size ip then i_size ip - off else n)
           in bnd (readi_loop i off n s) (\<lambda>(d, s). Ok ((int n, d), s)))"

definition writei :: "'z fs_st_scheme devsw \<Rightarrow> nat \<Rightarrow> nat \<Rightarrow> byte list \<Rightarrow> 'z fs_st_scheme \<Rightarrow>
    (int \<times> 'z fs_st_scheme) res" where
  "writei dv i off src s =
     (let ip = icache s ! i; n = length src in
      if i_type ip = T_DEV then
        (if i_major ip < 0 \<or> i_major ip \<ge> NDEV then Ok (-1, s)
         else case snd (dv (i_major ip)) of None \<Rightarrow> Ok (-1, s) | Some wr \<Rightarrow> wr i src s)
      else if add32 off n < off then Ok (-1, s)
      else if add32 off n > MAXFILE * BSIZE then Ok (-1, s)
      else bnd (writei_loop i off src s) (\<lambda>s.
           if n > 0 \<and> off + n > i_size (icache s ! i) then
             bnd (iupdate i (upd_inode i (\<lambda>ip. ip\<lparr>i_size := off + n\<rparr>) s)) (\<lambda>s. Ok (int n, s))
           else Ok (int n, s)))"

section \<open>Bits and frames\<close>

lemma bit_at_iff: "bit_at d bi \<longleftrightarrow> bit (d ! (bi div 8)) (bi mod 8)"
  by (simp add: bit_at_def bit_iff_and_push_bit_not_eq_0)

lemma bit_on_at:
  assumes "bi < BPB" "bj < BPB" "length d = BSIZE"
  shows "bit_at (bit_on d bi) bj \<longleftrightarrow> bj = bi \<or> bit_at d bj"
    and "bit_at (bit_off d bi) bj \<longleftrightarrow> bj \<noteq> bi \<and> bit_at d bj"
proof -
  have len: "bi div 8 < length d" "bj div 8 < length d" using assms by (auto simp: BPB_def)
  have eq: "bj = bi \<longleftrightarrow> bj div 8 = bi div 8 \<and> bj mod 8 = bi mod 8" by (metis div_mult_mod_eq)
  have "bj mod 8 < 8" by simp
  then show "bit_at (bit_on d bi) bj \<longleftrightarrow> bj = bi \<or> bit_at d bj"
    "bit_at (bit_off d bi) bj \<longleftrightarrow> bj \<noteq> bi \<and> bit_at d bj"
    using len by (auto simp: bit_at_iff bit_on_def bit_off_def nth_list_update eq bit_simps)
qed

lemma length_bit_on [simp]: "length (bit_on d bi) = length d" "length (bit_off d bi) = length d"
  by (simp_all add: bit_on_def bit_off_def)

lemma fs_frame:
  assumes "log_frame s t"
  shows "sb t = sb s" "icache t = icache s" "fs_st.more t = fs_st.more s"
  using log_frameD(6) [OF assms] by (metis fs_st.ext_inject fs_st.surjective log_st.select_convs)+

section \<open>The block allocator\<close>

text \<open>The bitmap as a predicate on blocks.\<close>

definition used :: "'z fs_st_scheme \<Rightarrow> nat \<Rightarrow> bool" where
  "used s b \<longleftrightarrow> bit_at (content s (BBLOCK b (sb s))) (b mod BPB)"

definition bitmap_blocks :: "'z fs_st_scheme \<Rightarrow> nat set" where
  "bitmap_blocks s = (\<lambda>b. BBLOCK b (sb s)) ` {..<sb_size (sb s)}"

text \<open>
  The layout that \<open>mkfs\<close> makes: the bitmap lies on the disk and outside the log, and the blocks of the
  log and of the bitmap are marked as used.
\<close>

definition layout_ok :: "'z fs_st_scheme \<Rightarrow> bool" where
  "layout_ok s \<longleftrightarrow> sb_size (sb s) \<le> FSSIZE \<and>
     (\<forall>b < sb_size (sb s). BBLOCK b (sb s) < FSSIZE \<and> BBLOCK b (sb s) \<notin> log_region s) \<and>
     (\<forall>b < sb_size (sb s). b \<in> log_region s \<or> b \<in> bitmap_blocks s \<longrightarrow> used s b)"

lemma layout_okD:
  assumes "layout_ok s" "b < sb_size (sb s)"
  shows "b < FSSIZE" "BBLOCK b (sb s) < FSSIZE" "BBLOCK b (sb s) \<notin> log_region s"
    "\<not> used s b \<Longrightarrow> b \<notin> log_region s" "\<not> used s b \<Longrightarrow> b \<notin> bitmap_blocks s"
  using assms by (auto simp: layout_ok_def)

lemma BBLOCK_add: "bi < BPB \<Longrightarrow> BBLOCK (k * BPB + bi) x = BBLOCK (k * BPB) x" "bi < BPB \<Longrightarrow> (k * BPB + bi) mod BPB = bi"
  by (simp_all add: BBLOCK_def BPB_def BSIZE_def)

definition fs_keeps :: "'z fs_st_scheme \<Rightarrow> nat set \<Rightarrow> 'z fs_st_scheme \<Rightarrow> bool" where
  "fs_keeps s H t \<longleftrightarrow> log_frame s t \<and> tx_inv t H \<and> (\<forall>c\<in>H. tx_safe s c \<longrightarrow> tx_safe t c) \<and>
     (\<forall>j c. holds s j c \<and> c \<in> H \<longrightarrow> holds t j c)"

lemma fs_keepsD:
  assumes "fs_keeps s H t"
  shows "log_frame s t" "tx_inv t H" "\<And>c. c \<in> H \<Longrightarrow> tx_safe s c \<Longrightarrow> tx_safe t c"
    "\<And>j c. c \<in> H \<Longrightarrow> holds s j c \<Longrightarrow> holds t j c" "sb t = sb s" "icache t = icache s" "fs_st.more t = fs_st.more s"
    "log_region t = log_region s"
  using assms fs_frame [of s t] log_frameD(11) [of s t] by (auto simp: fs_keeps_def)

lemma fs_keeps_trans:
  assumes "fs_keeps s H t" "fs_keeps t H u"
  shows "fs_keeps s H u"
  using assms log_frame_trans [of s t u] by (auto simp: fs_keeps_def)

lemma bzero_spec:
  assumes "tx_inv s H" "finite H" "b \<notin> H" "b < FSSIZE" "card H \<le> tx_left s" "0 < tx_left s" "b \<notin> log_region s"
  shows "\<exists>t. bzero ROOTDEV b s = Ok t \<and> fs_keeps s H t \<and> content t = (content s)(b := replicate BSIZE 0) \<and>
    tx_left s \<le> tx_left t + 1"
proof -
  from tx.update [OF assms, of "\<lambda>_. replicate BSIZE 0"] obtain i t u v where
    "bread ROOTDEV b s = Ok (i, t)" "log_write i (set_data i (replicate BSIZE 0) t) = Ok u" "brelse i u = Ok v"
    "tx_inv v H" "content v = (content s)(b := replicate BSIZE 0)" "tx_left s \<le> tx_left v + 1" "log_frame s v"
    "\<forall>c\<in>H. tx_safe s c \<longrightarrow> tx_safe v c" "\<forall>j c. holds s j c \<and> c \<in> H \<longrightarrow> holds v j c" by auto
  then show ?thesis by (intro exI [of _ v]) (simp add: bzero_def fs_keeps_def)
qed

text \<open>
  Scanning the bitmap from block number \<open>k * BPB\<close> on: the first free block is marked and zeroed.
\<close>

lemma balloc_loop_spec:
  assumes "tx_inv s H" "finite H" "card H < tx_left s" "1 < tx_left s" "layout_ok s"
    and H: "\<forall>c\<in>H. used s c \<and> c \<notin> bitmap_blocks s"
    and K: "\<forall>k\<in>set K. k * BPB < sb_size (sb s)"
    and free: "\<exists>k\<in>set K. \<exists>bi<BPB. k * BPB + bi < sb_size (sb s) \<and> \<not> used s (k * BPB + bi)"
  shows "\<exists>b t. balloc_loop ROOTDEV (map (\<lambda>k. k * BPB) K) s = Ok (b, t) \<and> b < sb_size (sb s) \<and> \<not> used s b \<and>
    fs_keeps s H t \<and> tx_left s \<le> tx_left t + 2 \<and>
    content t = (content s)(BBLOCK b (sb s) := bit_on (content s (BBLOCK b (sb s))) (b mod BPB), b := replicate BSIZE 0)"
  using assms
proof (induction K arbitrary: s)
  case Nil
  then show ?case by simp
next
  case (Cons k K)
  note A = Cons.prems
  define B where "B = BBLOCK (k * BPB) (sb s)"
  have k: "k * BPB < sb_size (sb s)" using A(7) by simp
  have B: "B < FSSIZE" "B \<notin> log_region s" "B \<notin> H"
    using layout_okD(2,3) [OF A(5) k] A(6) k by (auto simp: B_def bitmap_blocks_def)
  have use: "used s (k * BPB + bi) \<longleftrightarrow> bit_at (content s B) bi" if "bi < BPB" for bi
    using that by (simp add: used_def BBLOCK_add B_def)
  let ?P = "\<lambda>bi. \<not> bit_at (content s B) bi" and ?R = "[0..<min BPB (sb_size (sb s) - k * BPB)]"
  show ?case
  proof (cases "find ?P ?R")
    case None
    from tx.fetch [OF A(1,2) B(3,1)] A(3) obtain i t u where u: "bread ROOTDEV B s = Ok (i, t)"
      "buf_data t i = content s B" "brelse i t = Ok u" "tx_inv u H" "content u = content s" "tx_left u = tx_left s"
      "log_frame s t" "log_frame s u" "\<forall>c. tx_safe s c \<longrightarrow> tx_safe u c" "\<forall>j c. holds s j c \<and> c \<in> H \<longrightarrow> holds u j c"
      by auto
    note F = fs_frame [OF u(8)]
    have keep: "fs_keeps s H u" using u by (auto simp: fs_keeps_def)
    have same: "used u = used s" "bitmap_blocks u = bitmap_blocks s" "log_region u = log_region s"
      using F(1) u(5) fs_keepsD(8) [OF keep] by (auto simp: used_def fun_eq_iff bitmap_blocks_def)
    have lay: "layout_ok u" using A(5) same F(1) by (simp add: layout_ok_def)
    have "used s (k * BPB + bi)" if "bi < BPB" "k * BPB + bi < sb_size (sb s)" for bi
      using None that use by (simp add: find_None_iff)
    then have "\<exists>k\<in>set K. \<exists>bi<BPB. k * BPB + bi < sb_size (sb u) \<and> \<not> used u (k * BPB + bi)"
      using A(8) by (auto simp: same F(1))
    note IH = Cons.IH [OF u(4) A(2) _ _ lay _ _ this, unfolded u(5,6) F(1) same, OF A(3,4,6)]
    have "\<forall>k\<in>set K. k * BPB < sb_size (sb s)" using A(7) by simp
    from IH [OF this] obtain b v where
      "balloc_loop ROOTDEV (map (\<lambda>k. k * BPB) K) u = Ok (b, v)" "b < sb_size (sb s)" "\<not> used s b"
      "fs_keeps u H v" "tx_left s \<le> tx_left v + 2" "content v = (content s)(BBLOCK b (sb s) :=
        bit_on (content s (BBLOCK b (sb s))) (b mod BPB), b := replicate BSIZE 0)"
      by blast
    with fs_keeps_trans [OF keep] u(1-3) None fs_frame(1) [OF u(7)] show ?thesis by (auto simp: B_def)
  next
    case (Some bi)
    then have bi: "bi < BPB" "k * BPB + bi < sb_size (sb s)" "\<not> bit_at (content s B) bi"
      by (auto simp: find_Some_iff)
    define b where "b = k * BPB + bi"
    have b: "b < sb_size (sb s)" "\<not> used s b" "BBLOCK b (sb s) = B" "b mod BPB = bi"
      using bi use by (simp_all add: b_def BBLOCK_add B_def)
    have len: "length (bit_on (content s B) bi) = BSIZE" using tx.cont_len [OF A(1)] by simp
    from tx.update [OF A(1,2) B(3,1) _ _ B(2), of "\<lambda>d. bit_on d bi", OF _ _ len] A(3,4) obtain i t u v where
      u: "bread ROOTDEV B s = Ok (i, t)" "buf_data t i = content s B" "log_frame s t"
        "log_write i (set_data i (bit_on (content s B) bi) t) = Ok u"
        "brelse i u = Ok v" "tx_inv v H" "content v = (content s)(B := bit_on (content s B) bi)"
        "tx_left s \<le> tx_left v + 1" "log_frame s v" "\<forall>c\<in>H. tx_safe s c \<longrightarrow> tx_safe v c"
        "\<forall>j c. holds s j c \<and> c \<in> H \<longrightarrow> holds v j c" by auto
    have keep: "fs_keeps s H v" using u by (auto simp: fs_keeps_def)
    have bH: "b \<notin> H" "b \<noteq> B" using b(2) A(6) layout_okD(5) [OF A(5) b(1,2)] k by (auto simp: bitmap_blocks_def B_def)
    have "card H \<le> tx_left v" "0 < tx_left v" "b \<notin> log_region v"
      using A(3,4) u(8) layout_okD(4) [OF A(5) b(1,2)] fs_keepsD(8) [OF keep] by auto
    from bzero_spec [OF u(6) A(2) bH(1) layout_okD(1) [OF A(5) b(1)] this] obtain w where
      w: "bzero ROOTDEV b v = Ok w" "fs_keeps v H w" "content w = (content v)(b := replicate BSIZE 0)"
        "tx_left v \<le> tx_left w + 1" by blast
    have "balloc_loop ROOTDEV (map (\<lambda>k. k * BPB) (k # K)) s = Ok (b, w)"
      using u(1-5) w(1) Some fs_frame(1) [OF u(3)] by (simp add: B_def [symmetric] b_def [symmetric])
    moreover have "content w = (content s)(BBLOCK b (sb s) := bit_on (content s (BBLOCK b (sb s))) (b mod BPB),
        b := replicate BSIZE 0)" unfolding w(3) u(7) b(3,4) ..
    moreover have "tx_left s \<le> tx_left w + 2" using u(8) w(4) by simp
    ultimately show ?thesis using b(1,2) fs_keeps_trans [OF keep w(2)] by blast
  qed
qed

lemma balloc_spec:
  assumes "tx_inv s H" "finite H" "card H < tx_left s" "1 < tx_left s" "layout_ok s"
    and "\<forall>c\<in>H. used s c \<and> c \<notin> bitmap_blocks s"
    and "f < sb_size (sb s)" "\<not> used s f"
  shows "\<exists>b t. balloc ROOTDEV s = Ok (b, t) \<and> b < sb_size (sb s) \<and> \<not> used s b \<and>
    fs_keeps s H t \<and> tx_left s \<le> tx_left t + 2 \<and>
    content t = (content s)(BBLOCK b (sb s) := bit_on (content s (BBLOCK b (sb s))) (b mod BPB), b := replicate BSIZE 0)"
proof -
  let ?K = "[0..<(sb_size (sb s) + BPB - 1) div BPB]"
  have BPB: "BPB = 4096" by (simp add: BPB_def BSIZE_def)
  have K: "\<forall>k\<in>set ?K. k * BPB < sb_size (sb s)" by (auto simp: BPB)
  have "f div BPB \<in> set ?K" "f mod BPB < BPB" "f div BPB * BPB + f mod BPB = f"
    using assms(7) by (auto simp: BPB)
  with assms(7,8) have "\<exists>k\<in>set ?K. \<exists>bi<BPB. k * BPB + bi < sb_size (sb s) \<and> \<not> used s (k * BPB + bi)"
    by metis
  from balloc_loop_spec [OF assms(1-6) K this] show ?thesis by (simp add: balloc_def)
qed

lemma used_bitmap_update:
  assumes "sb t = sb s" "c < sb_size (sb s)" "b < sb_size (sb s)" "length (content s (BBLOCK b (sb s))) = BSIZE"
  shows "content t (BBLOCK c (sb s)) = (if BBLOCK c (sb s) = BBLOCK b (sb s)
      then bit_on (content s (BBLOCK b (sb s))) (b mod BPB) else content s (BBLOCK c (sb s))) \<Longrightarrow>
    used t c \<longleftrightarrow> c = b \<or> used s c"
    and "content t (BBLOCK c (sb s)) = (if BBLOCK c (sb s) = BBLOCK b (sb s)
      then bit_off (content s (BBLOCK b (sb s))) (b mod BPB) else content s (BBLOCK c (sb s))) \<Longrightarrow>
    used t c \<longleftrightarrow> c \<noteq> b \<and> used s c"
proof -
  have same: "c = b \<longleftrightarrow> BBLOCK c (sb s) = BBLOCK b (sb s) \<and> c mod BPB = b mod BPB"
    by (metis BBLOCK_def add_right_cancel div_mult_mod_eq)
  have "c mod BPB < BPB" "b mod BPB < BPB" by (simp_all add: BPB_def BSIZE_def)
  note bits = bit_on_at [OF this(2,1) assms(4)]
  show "content t (BBLOCK c (sb s)) = (if BBLOCK c (sb s) = BBLOCK b (sb s)
      then bit_on (content s (BBLOCK b (sb s))) (b mod BPB) else content s (BBLOCK c (sb s))) \<Longrightarrow>
    used t c \<longleftrightarrow> c = b \<or> used s c"
    "content t (BBLOCK c (sb s)) = (if BBLOCK c (sb s) = BBLOCK b (sb s)
      then bit_off (content s (BBLOCK b (sb s))) (b mod BPB) else content s (BBLOCK c (sb s))) \<Longrightarrow>
    used t c \<longleftrightarrow> c \<noteq> b \<and> used s c"
    using bits same by (auto simp: used_def assms(1))
qed

text \<open>
  C27.  Block allocation.  Inside a transaction with room in the log, on a disk with a free block,
  \<open>balloc\<close> returns a block that was free, marks exactly that block as used, fills it with zeros,
  and leaves every block outside the bitmap and every other bit of the bitmap as it was.
\<close>

theorem balloc_allocates:
  assumes inv: "tx_inv s {}" "2 \<le> tx_left s" "layout_ok s" and free: "f < sb_size (sb s)" "\<not> used s f"
  shows "\<exists>b t. balloc ROOTDEV s = Ok (b, t) \<and> tx_inv t {} \<and> layout_ok t \<and> b < sb_size (sb s) \<and> \<not> used s b \<and>
    (\<forall>c < sb_size (sb s). used t c \<longleftrightarrow> c = b \<or> used s c) \<and> content t b = replicate BSIZE 0 \<and>
    (\<forall>c. c \<notin> bitmap_blocks s \<longrightarrow> c \<noteq> b \<longrightarrow> content t c = content s c)"
proof -
  have "card {} < tx_left s" "1 < tx_left s" using inv(2) by simp_all
  from balloc_spec [OF inv(1) finite.emptyI this inv(3) _ free] obtain b t where
    t: "balloc ROOTDEV s = Ok (b, t)" "b < sb_size (sb s)" "\<not> used s b" "fs_keeps s {} t"
      "content t = (content s)(BBLOCK b (sb s) := bit_on (content s (BBLOCK b (sb s))) (b mod BPB), b := replicate BSIZE 0)"
    by auto
  note k = fs_keepsD [OF t(4)]
  have nb: "b \<notin> bitmap_blocks s" using layout_okD(5) [OF inv(3) t(2,3)] .
  have used: "used t c \<longleftrightarrow> c = b \<or> used s c" if "c < sb_size (sb s)" for c
    using that nb t(2) by (intro used_bitmap_update(1) [OF k(5) that t(2) tx.cont_len [OF inv(1)]])
      (auto simp: t(5) bitmap_blocks_def)
  then have "layout_ok t" using inv(3) k(5,8) by (auto simp: layout_ok_def bitmap_blocks_def)
  moreover have "content t c = content s c" if "c \<notin> bitmap_blocks s" "c \<noteq> b" for c
    using that t(2) by (auto simp: t(5) bitmap_blocks_def)
  ultimately show ?thesis using t(1-3) k(2) used by (intro exI [of _ b] exI [of _ t]) (simp add: t(5))
qed

text \<open>
  Freeing: inside a transaction, \<open>bfree\<close> of a used block clears exactly its bit and changes no block
  outside the bitmap; freeing a block that is free already panics.
\<close>

lemma bfree_frees:
  assumes inv: "tx_inv s {}" "0 < tx_left s" "layout_ok s" and b: "b < sb_size (sb s)"
  shows "if used s b then \<exists>t. bfree ROOTDEV b s = Ok t \<and> tx_inv t {} \<and>
      (\<forall>c < sb_size (sb s). used t c \<longleftrightarrow> c \<noteq> b \<and> used s c) \<and>
      (\<forall>c. c \<notin> bitmap_blocks s \<longrightarrow> content t c = content s c)
    else bfree ROOTDEV b s = Panic ''freeing free block''"
proof -
  define B where "B = BBLOCK b (sb s)"
  note lay = layout_okD(2,3) [OF inv(3) b, folded B_def]
  have len: "length (bit_off (content s B) (b mod BPB)) = BSIZE" using tx.cont_len [OF inv(1)] by simp
  from tx.update [OF inv(1) finite.emptyI _ lay(1) _ inv(2) lay(2), of "\<lambda>d. bit_off d (b mod BPB)", OF _ _ len]
  obtain i t u v where u: "bread ROOTDEV B s = Ok (i, t)" "buf_data t i = content s B"
      "log_write i (set_data i (bit_off (content s B) (b mod BPB)) t) = Ok u"
      "brelse i u = Ok v" "tx_inv v {}" "content v = (content s)(B := bit_off (content s B) (b mod BPB))"
      "log_frame s v" by auto
  show ?thesis
  proof (cases "used s b")
    case True
    have "used v c \<longleftrightarrow> c \<noteq> b \<and> used s c" if "c < sb_size (sb s)" for c
      by (rule used_bitmap_update(2) [OF fs_frame(1) [OF u(7)] that b tx.cont_len [OF inv(1)]])
        (simp add: u(6) flip: B_def)
    moreover have "bfree ROOTDEV b s = Ok v" using True u(1-4) by (simp add: bfree_def used_def B_def [symmetric])
    moreover have "B \<in> bitmap_blocks s" using b by (auto simp: bitmap_blocks_def B_def)
    ultimately show ?thesis using True u(5,6) by auto
  next
    case False
    with u(1,2) show ?thesis by (simp add: bfree_def used_def B_def [symmetric])
  qed
qed

section \<open>The inode cache\<close>

definition cached :: "'z fs_st_scheme \<Rightarrow> nat \<Rightarrow> nat \<Rightarrow> nat \<Rightarrow> bool" where
  "cached s dev inum i \<longleftrightarrow> i < length (icache s) \<and> 0 < i_ref (icache s ! i) \<and>
     i_dev (icache s ! i) = dev \<and> i_inum (icache s ! i) = inum"

definition icache_inv :: "'z fs_st_scheme \<Rightarrow> bool" where
  "icache_inv s \<longleftrightarrow> (\<forall>i<length (icache s). 0 \<le> i_ref (icache s ! i)) \<and>
     (\<forall>dev inum i j. cached s dev inum i \<and> cached s dev inum j \<longrightarrow> i = j)"

lemma icache_invI:
  "(\<And>i. i < length (icache s) \<Longrightarrow> 0 \<le> i_ref (icache s ! i)) \<Longrightarrow>
   (\<And>d n i j. cached s d n i \<Longrightarrow> cached s d n j \<Longrightarrow> i = j) \<Longrightarrow> icache_inv s"
  unfolding icache_inv_def by blast

lemma icache_invD:
  "icache_inv s \<Longrightarrow> i < length (icache s) \<Longrightarrow> 0 \<le> i_ref (icache s ! i)"
  "icache_inv s \<Longrightarrow> cached s d n i \<Longrightarrow> cached s d n j \<Longrightarrow> i = j"
  unfolding icache_inv_def by blast+

text \<open>
  C28.  The inode cache never holds an inode twice.  If every inode has at most one referenced entry, then
  \<open>iget\<close> either returns an entry for the inode, with one more reference than before, leaves all
  other entries alone and keeps the cache free of duplicates, or panics because every entry is in use
  and none is for this inode.
\<close>

theorem iget_unique:
  assumes inv: "icache_inv s"
  shows "case iget dev inum s of
      Ok (i, t) \<Rightarrow> icache_inv t \<and> cached t dev inum i \<and> length (icache t) = length (icache s) \<and>
        i_ref (icache t ! i) = (if cached s dev inum i then i_ref (icache s ! i) + 1 else 1) \<and>
        (\<forall>j. j \<noteq> i \<longrightarrow> icache t ! j = icache s ! j)
    | Panic m \<Rightarrow> m = ''iget: no inodes'' \<and> (\<forall>i<length (icache s). 0 < i_ref (icache s ! i) \<and> \<not> cached s dev inum i)
    | _ \<Rightarrow> False"
proof (cases "find_idx (\<lambda>ip. i_ref ip > 0 \<and> i_dev ip = dev \<and> i_inum ip = inum) (icache s)")
  case (Some i)
  then have i: "cached s dev inum i" by (auto simp: cached_def find_idx_Some)
  define t where "t = upd_inode i (\<lambda>ip. ip\<lparr>i_ref := i_ref ip + 1\<rparr>) s"
  have t: "icache t = (icache s)[i := (icache s ! i)\<lparr>i_ref := i_ref (icache s ! i) + 1\<rparr>]" by (simp add: t_def upd_inode_def)
  have c: "cached t d n j = cached s d n j" for d n j
    using i by (cases "j = i") (auto simp: cached_def t)
  have "icache_inv t"
  proof (rule icache_invI)
    show "0 \<le> i_ref (icache t ! j)" if "j < length (icache t)" for j
      using icache_invD(1) [OF inv, of j] that i by (cases "j = i") (simp_all add: t cached_def)
    show "j = k" if "cached t d n j" "cached t d n k" for d n j k
      using that icache_invD(2) [OF inv] by (simp add: c)
  qed
  moreover have "iget dev inum s = Ok (i, t)" by (simp add: iget_def Some t_def)
  moreover have "i_ref (icache t ! i) = i_ref (icache s ! i) + 1" "\<forall>j. j \<noteq> i \<longrightarrow> icache t ! j = icache s ! j"
    using i by (simp_all add: t cached_def)
  ultimately show ?thesis using c i by (simp add: t)
next
  case none: None
  have nc: "\<not> cached s dev inum j" for j
    using none nth_mem [of j "icache s"] by (auto simp: cached_def find_idx_None)
  show ?thesis
  proof (cases "find_idx (\<lambda>ip. i_ref ip = 0) (icache s)")
    case (Some i)
    then have i: "i < length (icache s)" "i_ref (icache s ! i) = 0" by (auto simp: find_idx_Some)
    let ?f = "\<lambda>ip. ip\<lparr>i_dev := dev, i_inum := inum, i_ref := 1, i_valid := False\<rparr>"
    define t where "t = upd_inode i ?f s"
    have t: "icache t = (icache s)[i := ?f (icache s ! i)]" by (simp add: t_def upd_inode_def)
    have c: "cached t d n j \<longleftrightarrow> (if j = i then d = dev \<and> n = inum else cached s d n j)" for d n j
      using i by (auto simp: cached_def t)
    have "icache_inv t"
    proof (rule icache_invI)
      show "0 \<le> i_ref (icache t ! j)" if "j < length (icache t)" for j
        using icache_invD(1) [OF inv, of j] that i by (cases "j = i") (simp_all add: t)
      show "j = k" if "cached t d n j" "cached t d n k" for d n j k
        using that icache_invD(2) [OF inv, of d n j k] nc by (auto simp: c split: if_splits)
    qed
    moreover have "iget dev inum s = Ok (i, t)" by (simp add: iget_def none Some t_def)
    ultimately show ?thesis using i nc by (simp add: c) (simp add: t)
  next
    case None
    have "0 < i_ref (icache s ! i)" if "i < length (icache s)" for i
    proof -
      have "i_ref (icache s ! i) \<noteq> 0" using None nth_mem [OF that] by (auto simp: find_idx_None)
      moreover have "0 \<le> i_ref (icache s ! i)" using icache_invD(1) [OF inv that] .
      ultimately show ?thesis by simp
    qed
    with none None nc show ?thesis by (simp add: iget_def)
  qed
qed

section \<open>A concrete file system\<close>

text \<open>
  1000 blocks: the log from block 2 on, inodes from 33 on, one bitmap block 58; the first 64 blocks are used.
  Block 100 starts with the directory entry of a file \<open>a\<close> with inode number 5.
\<close>

definition sample_sb :: superblock where
  "sample_sb = \<lparr>sb_size = 1000, sb_nblocks = 941, sb_ninodes = 200, sb_nlog = 30, sb_logstart = 2,
     sb_inodestart = 33, sb_bmapstart = 58\<rparr>"

definition sample_disk :: "nat \<Rightarrow> nat \<Rightarrow> byte list" where
  "sample_disk dev b = (if b = 58 then replicate 8 255 @ replicate 504 0
     else if b = 100 then [5, 0, 97] @ replicate 509 0 else replicate BSIZE 0)"

definition sample_inode :: inode where
  "sample_inode = \<lparr>i_dev = ROOTDEV, i_inum = 5, i_ref = 1, i_lock = \<lparr>sl_locked = False, sl_pid = 0\<rparr>,
     i_valid = True, i_type = T_FILE, i_major = 0, i_minor = 0, i_nlink = 1, i_size = 1024,
     i_addrs = 100 # replicate 12 0\<rparr>"

definition sample_fs :: "int \<Rightarrow> inode list \<Rightarrow> 'z \<Rightarrow> 'z fs_st_scheme" where
  "sample_fs n ic z = sample_log [] sample_disk n \<lparr>sb = sample_sb, icache = ic, \<dots> = z\<rparr>"

lemma sample_fs_sel:
  "sb (sample_fs n ic z) = sample_sb" "icache (sample_fs n ic z) = ic" "outstanding (sample_fs n ic z) = n"
  "lh_n (sample_fs n ic z) = 0" "log_region (sample_fs n ic z) = {2..<32}" "tx_left (sample_fs n ic z) = 29"
  "fs_st.more (sample_fs n ic z) = z" "cur (sample_fs n ic z) = Some 0" "lg_size (sample_fs n ic z) = 30"
proof -
  show l: "lh_n (sample_fs n ic z) = 0" "lg_size (sample_fs n ic z) = 30" by (simp_all add: sample_fs_def sample_log_sel LOGSIZE_def)
  show "tx_left (sample_fs n ic z) = 29" by (simp add: tx_left_def l LOGSIZE_def)
  have "log_st.more (sample_fs n ic z) = \<lparr>sb = sample_sb, icache = ic, \<dots> = z\<rparr>" by (simp add: sample_fs_def sample_log_sel)
  then show "sb (sample_fs n ic z) = sample_sb" "icache (sample_fs n ic z) = ic" "fs_st.more (sample_fs n ic z) = z"
    by (cases "sample_fs n ic z"; simp)+
  show "outstanding (sample_fs n ic z) = n" "log_region (sample_fs n ic z) = {2..<32}" "cur (sample_fs n ic z) = Some 0"
    by (simp_all add: sample_fs_def sample_log_sel)
qed

lemma sample_disk_len: "length (sample_disk dev b) = BSIZE"
  by (simp add: sample_disk_def BSIZE_def)

lemma sample_fs_inv: "log_inv (sample_fs n ic z) {}" "content (sample_fs n ic z) b = sample_disk ROOTDEV b"
proof -
  have l: "log_inv (sample_fs n ic z) {}" "dirty (sample_fs n ic z) = {}"
    using sample_log_inv [of "[]" sample_disk] sample_disk_len by (simp_all add: sample_fs_def LOGSIZE_def)
  then show "log_inv (sample_fs n ic z) {}" by simp
  have "content (sample_fs n ic z) b = disk (sample_fs n ic z) ROOTDEV b"
    using bc.clean [OF log_invD(1) [OF l(1)]] l(2) by simp
  then show "content (sample_fs n ic z) b = sample_disk ROOTDEV b" by (simp add: sample_fs_def sample_log_sel)
qed

lemma sample_fs_used: "b < 1000 \<Longrightarrow> used (sample_fs n ic z) b \<longleftrightarrow> b < 64"
proof -
  assume b: "b < 1000"
  have "bit (255 :: byte) (b mod 8)"
  proof -
    have "b mod 8 < 8" by simp
    then have "b mod 8 \<in> {0, 1, 2, 3, 4, 5, 6, 7}" by auto
    then show ?thesis by auto
  qed
  moreover have "(replicate 8 255 @ replicate 504 0 :: byte list) ! (b div 8) = (if b < 64 then 255 else 0)"
    using b by (simp add: nth_append div_less_iff_less_mult)
  ultimately show ?thesis
    using b by (simp add: used_def sample_fs_inv sample_fs_sel sample_sb_def BBLOCK_def BPB_def BSIZE_def
        sample_disk_def bit_at_iff)
qed

lemma sample_fs_layout: "layout_ok (sample_fs n ic z)"
proof -
  have B: "BBLOCK b (sb (sample_fs n ic z)) = 58" if "b < 1000" for b
    using that by (simp add: sample_fs_sel sample_sb_def BBLOCK_def BPB_def BSIZE_def)
  have "sb_size (sb (sample_fs n ic z)) = 1000" by (simp add: sample_fs_sel sample_sb_def)
  with B show ?thesis
    by (auto simp: layout_ok_def sample_fs_used bitmap_blocks_def sample_fs_sel(5) FSSIZE_def)
qed

lemma sample_fs_tx: "0 < n \<Longrightarrow> tx_inv (sample_fs n ic z) {}"
  by (simp add: tx_inv_def sample_fs_inv sample_fs_sel)

theorem balloc_allocates_witness:
  "\<exists>b t. balloc ROOTDEV (sample_fs 1 [] ()) = Ok (b, t) \<and> used t b \<and> \<not> used (sample_fs 1 [] ()) b"
proof -
  have "100 < sb_size (sb (sample_fs 1 [] ()))" "\<not> used (sample_fs 1 [] ()) 100"
    by (simp_all add: sample_fs_sel sample_sb_def sample_fs_used)
  from balloc_allocates [OF sample_fs_tx _ sample_fs_layout this] show ?thesis
    by (auto simp: sample_fs_sel)
qed

lemma bfree_frees_witness:
  "(\<exists>t. bfree ROOTDEV 60 (sample_fs 1 [] ()) = Ok t \<and> \<not> used t 60) \<and>
   bfree ROOTDEV 100 (sample_fs 1 [] ()) = Panic ''freeing free block''"
proof -
  have b: "60 < sb_size (sb (sample_fs 1 [] ()))" "100 < sb_size (sb (sample_fs 1 [] ()))"
    by (simp_all add: sample_fs_sel sample_sb_def)
  note f = bfree_frees [OF sample_fs_tx _ sample_fs_layout]
  from f [OF _ _ b(1)] f [OF _ _ b(2)] b show ?thesis
    by (auto simp: sample_fs_sel sample_fs_used)
qed

theorem iget_unique_witness:
  "\<exists>t. iget ROOTDEV 5 (sample_fs 1 [sample_inode] ()) = Ok (0, t) \<and> i_ref (icache t ! 0) = 2 \<and> icache_inv t"
proof -
  have c: "cached (sample_fs 1 [sample_inode] ()) d n i \<Longrightarrow> i = 0" for d n i by (simp add: cached_def sample_fs_sel)
  have inv: "icache_inv (sample_fs 1 [sample_inode] ())"
    using c by (intro icache_invI) (simp add: sample_fs_sel sample_inode_def, metis)
  have "iget ROOTDEV 5 (sample_fs 1 [sample_inode] ()) =
    Ok (0, upd_inode 0 (\<lambda>ip. ip\<lparr>i_ref := i_ref ip + 1\<rparr>) (sample_fs 1 [sample_inode] ()))"
    by (simp add: iget_def sample_fs_sel sample_inode_def)
  with iget_unique [OF inv, of ROOTDEV 5] show ?thesis
    by (auto simp: cached_def sample_fs_sel sample_inode_def)
qed

end
