(* ===== verification/Fdata.thy ===== *)
theory Fdata
  imports Fs
begin

text \<open>
  The contents of inodes: lemmas about \<open>iupdate\<close> and \<open>ilock\<close> (the on-disk inode), \<open>bmap\<close> (the direct,
  single, double and triple indirect addresses), \<open>readi\<close> and \<open>writei\<close> of \<^verbatim>\<open>fs.c\<close>.
\<close>

section \<open>On-disk inodes\<close>

definition short_ok :: "int \<Rightarrow> bool" where
  "short_ok v \<longleftrightarrow> - (2 ^ 15) \<le> v \<and> v < 2 ^ 15"

definition inode_ok :: "inode \<Rightarrow> bool" where
  "inode_ok ip \<longleftrightarrow> short_ok (i_type ip) \<and> short_ok (i_major ip) \<and> short_ok (i_minor ip) \<and>
     short_ok (i_nlink ip) \<and> i_size ip < 2 ^ 32 \<and> length (i_addrs ip) = NDIRECT + 3 \<and>
     (\<forall>a\<in>set (i_addrs ip). a < 2 ^ 32)"

lemma length_short [simp]: "length (short v) = 2"
  by (simp add: short_def)

lemma short_read:
  assumes "short_ok v"
  shows "signed16 (rd16 (short v) 0) = v"
proof -
  have r: "rd16 (short v) 0 = nat (v mod 2 ^ 16)"
    unfolding short_def rd16_le16 by (simp add: nat_mod_distrib)
  have "v mod 65536 = (if 0 \<le> v then v else v + 65536)"
    using assms mod_add_self2 [of v 65536] by (auto simp: short_ok_def simp del: mod_add_self2)
  with assms show ?thesis by (auto simp: r signed16_def short_ok_def)
qed

lemma load_dinode_lock [simp]: "load_dinode d off (ip\<lparr>i_lock := lk\<rparr>) = (load_dinode d off ip)\<lparr>i_lock := lk\<rparr>"
  by (cases ip) (simp add: load_dinode_def)

lemma load_dinode_slice:
  assumes "off + DINODE_SIZE \<le> length d"
  shows "load_dinode d off jp = load_dinode (slice d off DINODE_SIZE) 0 jp"
proof -
  have "rd32 (slice d off DINODE_SIZE) (12 + 4 * k) = rd32 d (off + 12 + 4 * k)" if "k < NDIRECT + 3" for k
    using that rd_slice(2) [OF assms, of "12 + 4 * k"] by (simp add: DINODE_SIZE_def add.assoc)
  then have "map (\<lambda>k. rd32 (slice d off DINODE_SIZE) (0 + 12 + 4 * k)) [0..<NDIRECT + 3] =
    map (\<lambda>k. rd32 d (off + 12 + 4 * k)) [0..<NDIRECT + 3]" by simp
  then show ?thesis
    using rd_slice(1) [OF assms, of 0] rd_slice(1) [OF assms, of 2] rd_slice(1) [OF assms, of 4]
      rd_slice(1) [OF assms, of 6] rd_slice(2) [OF assms, of 8]
    by (simp add: load_dinode_def DINODE_SIZE_def numeral_2_eq_2)
qed

definition dinode_bytes :: "inode \<Rightarrow> byte list" where
  "dinode_bytes ip = short (i_type ip) @ short (i_major ip) @ short (i_minor ip) @ short (i_nlink ip) @
     le32 (i_size ip) @ concat (map le32 (i_addrs ip))"

lemma length_dinode_bytes: "inode_ok ip \<Longrightarrow> length (dinode_bytes ip) = DINODE_SIZE"
  by (simp add: dinode_bytes_def inode_ok_def DINODE_SIZE_def)

lemma load_dinode_bytes:
  assumes "inode_ok ip"
  shows "load_dinode (dinode_bytes ip) 0 jp = jp\<lparr>i_type := i_type ip, i_major := i_major ip,
      i_minor := i_minor ip, i_nlink := i_nlink ip, i_size := i_size ip, i_addrs := i_addrs ip\<rparr>"
proof -
  let ?x = "dinode_bytes ip"
  have ok: "short_ok (i_type ip)" "short_ok (i_major ip)" "short_ok (i_minor ip)" "short_ok (i_nlink ip)"
    "i_size ip < 2 ^ 32" "length (i_addrs ip) = NDIRECT + 3" "\<And>a. a \<in> set (i_addrs ip) \<Longrightarrow> a < 2 ^ 32"
    using assms by (simp_all add: inode_ok_def)
  have "rd16 ?x 0 = rd16 (short (i_type ip)) 0" "rd16 ?x 2 = rd16 (short (i_major ip)) 0"
    "rd16 ?x 4 = rd16 (short (i_minor ip)) 0" "rd16 ?x 6 = rd16 (short (i_nlink ip)) 0"
    by (simp_all add: dinode_bytes_def rd16_append)
  then have s: "signed16 (rd16 ?x 0) = i_type ip" "signed16 (rd16 ?x 2) = i_major ip"
    "signed16 (rd16 ?x 4) = i_minor ip" "signed16 (rd16 ?x 6) = i_nlink ip"
    using ok(1-4) by (simp_all add: short_read)
  have sz: "rd32 ?x 8 = i_size ip" using ok(5) by (simp add: dinode_bytes_def rd32_append rd32_le32)
  have "rd32 ?x (12 + 4 * k) = i_addrs ip ! k" if k: "k < NDIRECT + 3" for k
  proof -
    have "rd32 ?x (12 + 4 * k) = rd32 (concat (map le32 (i_addrs ip))) (4 * k)"
      by (simp add: dinode_bytes_def rd32_append)
    with rd32_concat [of k "i_addrs ip"] k ok(6) ok(7) [of "i_addrs ip ! k"] show ?thesis by simp
  qed
  then have "map (\<lambda>k. rd32 ?x (12 + 4 * k)) [0..<NDIRECT + 3] = i_addrs ip"
    using ok(6) by (intro nth_equalityI) simp_all
  with s sz show ?thesis by (simp add: load_dinode_def numeral_2_eq_2)
qed

lemma dinode_layout:
  assumes "inode_ok ip" "off + DINODE_SIZE \<le> length d"
  shows "load_dinode (store_dinode d off ip) off jp = jp\<lparr>i_type := i_type ip, i_major := i_major ip,
      i_minor := i_minor ip, i_nlink := i_nlink ip, i_size := i_size ip, i_addrs := i_addrs ip\<rparr>"
    and "length (store_dinode d off ip) = length d"
    and "\<lbrakk>off' + DINODE_SIZE \<le> length d; off + DINODE_SIZE \<le> off' \<or> off' + DINODE_SIZE \<le> off\<rbrakk> \<Longrightarrow>
      load_dinode (store_dinode d off ip) off' jp = load_dinode d off' jp"
proof -
  have st: "store_dinode d off ip = splice d off (dinode_bytes ip)"
    by (simp add: store_dinode_def dinode_bytes_def)
  note len = length_dinode_bytes [OF assms(1)]
  have fit: "off + length (dinode_bytes ip) \<le> length d" using assms(2) len by simp
  show l: "length (store_dinode d off ip) = length d" unfolding st by (rule length_splice [OF fit])
  show "load_dinode (store_dinode d off ip) off jp = jp\<lparr>i_type := i_type ip, i_major := i_major ip,
      i_minor := i_minor ip, i_nlink := i_nlink ip, i_size := i_size ip, i_addrs := i_addrs ip\<rparr>"
    using load_dinode_slice [of off "store_dinode d off ip"] l assms(2) slice_splice_same [OF fit]
      load_dinode_bytes [OF assms(1)] by (simp add: st len)
  show "load_dinode (store_dinode d off ip) off' jp = load_dinode d off' jp"
    if o: "off' + DINODE_SIZE \<le> length d" "off + DINODE_SIZE \<le> off' \<or> off' + DINODE_SIZE \<le> off"
  proof -
    have "slice (store_dinode d off ip) off' DINODE_SIZE = slice d off' DINODE_SIZE"
      unfolding st using o len by (intro slice_splice_other [OF fit]) auto
    then show ?thesis
      using load_dinode_slice [of off' "store_dinode d off ip" jp] load_dinode_slice [OF o(1), of jp] l o(1) by simp
  qed
qed

lemma IPB_simps: "IPB = 8" "DINODE_SIZE = 64"
  by (simp_all add: IPB_def DINODE_SIZE_def NDIRECT_def BSIZE_def)

section \<open>The inode cache and the log\<close>

lemma upd_inode_sel [simp]:
  "bufs (upd_inode i f s) = bufs s" "mru (upd_inode i f s) = mru s" "disk (upd_inode i f s) = disk s"
  "wtrace (upd_inode i f s) = wtrace s" "ptable (upd_inode i f s) = ptable s" "cur (upd_inode i f s) = cur s"
  "ptable_held (upd_inode i f s) = ptable_held s" "idequeue (upd_inode i f s) = idequeue s"
  "havedisk1 (upd_inode i f s) = havedisk1 s" "ide_err (upd_inode i f s) = ide_err s"
  "sb (upd_inode i f s) = sb s" "icache (upd_inode i f s) = (icache s)[i := f (icache s ! i)]"
  "lg_start (upd_inode i f s) = lg_start s" "lg_size (upd_inode i f s) = lg_size s" "lg_dev (upd_inode i f s) = lg_dev s"
  "lh_n (upd_inode i f s) = lh_n s" "lh_block (upd_inode i f s) = lh_block s" "outstanding (upd_inode i f s) = outstanding s"
  "buf_data (upd_inode i f s) = buf_data s" "memory (upd_inode i f s) = memory s"
  by (simp_all add: upd_inode_def buf_data_def [abs_def])

lemma upd_inode_log [simp]:
  "bio_inv (upd_inode i f s) H = bio_inv s H" "content (upd_inode i f s) = content s"
  "dirty (upd_inode i f s) = dirty s" "holds (upd_inode i f s) = holds s" "lh_list (upd_inode i f s) = lh_list s"
  "log_region (upd_inode i f s) = log_region s" "log_inv (upd_inode i f s) H = log_inv s H"
  "tx_inv (upd_inode i f s) H = tx_inv s H" "tx_left (upd_inode i f s) = tx_left s"
  "tx_safe (upd_inode i f s) b = tx_safe s b" "used (upd_inode i f s) = used s"
  "layout_ok (upd_inode i f s) = layout_ok s" "bitmap_blocks (upd_inode i f s) = bitmap_blocks s"
proof -
  show b: "bio_inv (upd_inode i f s) H = bio_inv s H" "content (upd_inode i f s) = content s"
    "dirty (upd_inode i f s) = dirty s" "holds (upd_inode i f s) = holds s" by (rule bio_same; simp)+
  show l: "lh_list (upd_inode i f s) = lh_list s" "log_region (upd_inode i f s) = log_region s"
    by (simp_all add: lh_list_def log_region_def)
  show "log_inv (upd_inode i f s) H = log_inv s H" "tx_inv (upd_inode i f s) H = tx_inv s H"
    "tx_left (upd_inode i f s) = tx_left s" "tx_safe (upd_inode i f s) b = tx_safe s b"
    by (simp_all add: tx_inv_def log_inv_def tx_left_def tx_safe_def b l)
  show "used (upd_inode i f s) = used s" "bitmap_blocks (upd_inode i f s) = bitmap_blocks s"
    by (simp_all add: used_def fun_eq_iff b bitmap_blocks_def)
  then show "layout_ok (upd_inode i f s) = layout_ok s" by (simp add: layout_ok_def l)
qed

text \<open>The on-disk inode number \<open>n\<close>, loaded into the fields of \<open>ip\<close>.\<close>

definition disk_inode :: "'z fs_st_scheme \<Rightarrow> nat \<Rightarrow> inode \<Rightarrow> inode" where
  "disk_inode s n ip = load_dinode (content s (IBLOCK n (sb s))) (n mod IPB * DINODE_SIZE) ip"

text \<open>The copy of an on-disk inode in the cache entry \<open>jp\<close>.\<close>

definition copy_fields :: "inode \<Rightarrow> inode \<Rightarrow> inode" where
  "copy_fields ip jp = jp\<lparr>i_type := i_type ip, i_major := i_major ip, i_minor := i_minor ip,
     i_nlink := i_nlink ip, i_size := i_size ip, i_addrs := i_addrs ip\<rparr>"

lemma inode_offset: "n mod IPB * DINODE_SIZE + DINODE_SIZE \<le> BSIZE"
  "n \<noteq> k \<Longrightarrow> IBLOCK n x = IBLOCK k x \<Longrightarrow>
   n mod IPB * DINODE_SIZE + DINODE_SIZE \<le> k mod IPB * DINODE_SIZE \<or>
   k mod IPB * DINODE_SIZE + DINODE_SIZE \<le> n mod IPB * DINODE_SIZE"
proof -
  have "n mod 8 < 8" "k mod 8 < 8" by simp_all
  then show "n mod IPB * DINODE_SIZE + DINODE_SIZE \<le> BSIZE" unfolding IPB_simps BSIZE_def by arith
  assume "n \<noteq> k" "IBLOCK n x = IBLOCK k x"
  then have "n mod 8 \<noteq> k mod 8" by (metis IBLOCK_def IPB_simps(1) add_right_cancel div_mult_mod_eq)
  then consider "n mod 8 < k mod 8" | "k mod 8 < n mod 8" by linarith
  then show "n mod IPB * DINODE_SIZE + DINODE_SIZE \<le> k mod IPB * DINODE_SIZE \<or>
    k mod IPB * DINODE_SIZE + DINODE_SIZE \<le> n mod IPB * DINODE_SIZE"
    unfolding IPB_simps by cases arith+
qed

lemma iupdate_spec:
  assumes "tx_inv s {}" "0 < tx_left s" and dev: "i_dev (icache s ! i) = ROOTDEV" and ok: "inode_ok (icache s ! i)"
    and B: "IBLOCK (i_inum (icache s ! i)) (sb s) < FSSIZE" "IBLOCK (i_inum (icache s ! i)) (sb s) \<notin> log_region s"
  shows "\<exists>t. iupdate i s = Ok t \<and> fs_keeps s {} t \<and> tx_left s \<le> tx_left t + 1 \<and>
    (\<forall>c. c \<noteq> IBLOCK (i_inum (icache s ! i)) (sb s) \<longrightarrow> content t c = content s c) \<and>
    (\<forall>jp. disk_inode t (i_inum (icache s ! i)) jp = copy_fields (icache s ! i) jp) \<and>
    (\<forall>n jp. n \<noteq> i_inum (icache s ! i) \<longrightarrow> disk_inode t n jp = disk_inode s n jp)"
proof -
  define ip n where "ip = icache s ! i" and "n = i_inum ip"
  let ?B = "IBLOCK n (sb s)" and ?off = "n mod IPB * DINODE_SIZE"
  let ?f = "\<lambda>d. store_dinode d ?off ip"
  have fit: "?off + DINODE_SIZE \<le> length (content s b)" for b using inode_offset(1) tx.cont_len [OF assms(1)] by simp
  have okp: "inode_ok ip" using ok by (simp add: ip_def)
  have len: "length (?f (content s ?B)) = BSIZE" using dinode_layout(2) [OF okp fit] tx.cont_len [OF assms(1)] by simp
  have B': "?B < FSSIZE" "?B \<notin> log_region s" using B by (simp_all add: n_def ip_def)
  from tx.update [OF assms(1) finite.emptyI _ B'(1) _ assms(2) B'(2), of ?f, OF _ _ len] obtain b t u v where
    u: "bread ROOTDEV ?B s = Ok (b, t)" "log_frame s t" "buf_data t b = content s ?B"
      "log_write b (set_data b (?f (content s ?B)) t) = Ok u" "brelse b u = Ok v" "tx_inv v {}"
      "content v = (content s)(?B := ?f (content s ?B))" "tx_left s \<le> tx_left v + 1" "log_frame s v" by auto
  have "iupdate i s = Ok v" using u(1-5) dev by (simp add: iupdate_def flip: ip_def n_def)
  moreover have "disk_inode v n jp = copy_fields ip jp" for jp
    using dinode_layout(1) [OF okp fit] by (simp add: disk_inode_def copy_fields_def fs_frame(1) [OF u(9)] u(7))
  moreover have "disk_inode v k jp = disk_inode s k jp" if "k \<noteq> n" for k jp
    using dinode_layout(3) [OF okp fit] inode_offset(1) [of k] inode_offset(2) [of n k "sb s"] that tx.cont_len [OF assms(1)]
    by (auto simp: disk_inode_def fs_frame(1) [OF u(9)] u(7))
  ultimately show ?thesis
    using u by (intro exI [of _ v]) (auto simp: fs_keeps_def n_def ip_def)
qed

lemma log_inv_cur: "log_inv s H \<Longrightarrow> \<exists>p. cur s = Some p \<and> p < length (ptable s) \<and> \<not> ptable_held s"
  using log_invD(1) [of s H] by (auto simp: bio_inv_def env_ok_def)

lemma ilock_spec:
  assumes inv: "log_inv s {}" and j: "j < length (icache s)" and jp: "jp = icache s ! j"
    and st: "1 \<le> i_ref jp" "\<not> sl_locked (i_lock jp)" "i_dev jp = ROOTDEV" "\<not> i_valid jp"
    and B: "IBLOCK (i_inum jp) (sb s) < FSSIZE" and ty: "i_type (disk_inode s (i_inum jp) jp) \<noteq> 0"
  shows "\<exists>t lk. ilock (Some j) s = Ok t \<and> sl_locked lk \<and> log_inv t {} \<and> content t = content s \<and>
    icache t = (icache s)[j := (disk_inode s (i_inum jp) jp)\<lparr>i_lock := lk, i_valid := True\<rparr>]"
proof -
  define n B where "n = i_inum jp" and "B = IBLOCK n (sb s)"
  obtain p where p: "cur s = Some p" using log_inv_cur [OF inv] by blast
  define lk where "lk = (i_lock jp)\<lparr>sl_locked := True, sl_pid := p_pid (ptable s ! p)\<rparr>"
  define s1 where "s1 = upd_inode j (\<lambda>ip. ip\<lparr>i_lock := lk\<rparr>) s"
  have inv1: "log_inv s1 {}" "bio_inv s1 {}" using inv log_invD(1) [OF inv] by (simp_all add: s1_def)
  have B1: "B < FSSIZE" using B by (simp add: B_def n_def)
  from bc.rd_ok [OF inv1(2), of B] B1 log_room [OF inv1(1)] obtain b t where
    t: "bread ROOTDEV B s1 = Ok (b, t)" "bio_inv t {B}" "holds t b B" "content t = content s" "dirty t = dirty s"
      "bio_frame s1 t" "disk t ROOTDEV = disk s ROOTDEV" by (auto simp: s1_def)
  have F: "sb t = sb s" "icache t = icache s1" using fs_frame [OF bio_log_frame [OF t(6)]] by (simp_all add: s1_def)
  let ?ld = "load_dinode (content s B) (n mod IPB * DINODE_SIZE)"
  define t1 where "t1 = upd_inode j ?ld t"
  have t1: "bio_inv t1 {B}" "holds t1 b B" using t(2,3) by (simp_all add: t1_def)
  have "content t1 B = disk t1 ROOTDEV B \<or> B \<in> dirty t1"
    using bc.clean [OF log_invD(1) [OF inv], of B] t by (auto simp: t1_def)
  with bc.rel_ok [OF t1] obtain u where u: "brelse b t1 = Ok u" "bio_inv u {}" "content u = content t1"
    "dirty u = dirty t1" "bio_frame t1 u" by auto
  have fr: "bio_frame (upd_inode j ?ld s1) t1" unfolding t1_def
    by (rule bio_frame_map [OF t(6)]) (simp_all add: upd_inode_def)
  have lu: "log_inv u {}"
    using log_inv_frame [OF _ bio_frame_trans [OF fr u(5)] u(2)] inv1(1) u(4) t(5) by (simp add: t1_def s1_def)
  have iu: "icache u = icache t1" using fs_frame(2) [OF bio_log_frame [OF u(5)]] .
  define v where "v = upd_inode j (\<lambda>ip. ip\<lparr>i_valid := True\<rparr>) u"
  have iv: "icache v = (icache s)[j := (disk_inode s n jp)\<lparr>i_lock := lk, i_valid := True\<rparr>]"
    using j by (simp add: v_def iu t1_def F s1_def disk_inode_def B_def jp)
  have d: "buf_data t b = content s B" using bc.at_data [OF t(2,3)] t(4) by simp
  have nB: "i_inum jp = n" "IBLOCK n (sb s) = B" by (simp_all add: n_def B_def)
  have "i_type ((icache u)[j := (icache u ! j)\<lparr>i_valid := True\<rparr>] ! j) \<noteq> 0"
    using ty iv j by (simp add: v_def nB)
  then have "ilock (Some j) s = Ok v"
    using st p t(1) u(1) d j
    by (simp add: ilock_def acquiresleep_def curproc_def jp [symmetric] Let_def lk_def [symmetric])
       (simp add: s1_def t1_def v_def nB jp [symmetric])
  moreover have "log_inv v {}" "content v = content s" using lu u(3) t(4) by (simp_all add: v_def t1_def)
  moreover have "sl_locked lk" by (simp add: lk_def)
  ultimately show ?thesis using iv by (auto simp: n_def)
qed

text \<open>
  C29.  The on-disk inode.  \<open>iupdate\<close> of an in-memory inode followed by \<open>ilock\<close> of any other cache entry for
  the same inode number whose copy is not valid yields the same type, device numbers, link
  count, size and block addresses; every other inode on the disk is unchanged.
\<close>

theorem iupdate_ilock_roundtrip:
  assumes inv: "tx_inv s {}" "0 < tx_left s" and ip: "i_dev (icache s ! i) = ROOTDEV" "inode_ok (icache s ! i)"
      "i_type (icache s ! i) \<noteq> 0"
    and B: "IBLOCK (i_inum (icache s ! i)) (sb s) < FSSIZE" "IBLOCK (i_inum (icache s ! i)) (sb s) \<notin> log_region s"
    and j: "j < length (icache s)" "1 \<le> i_ref (icache s ! j)" "\<not> sl_locked (i_lock (icache s ! j))"
      "i_dev (icache s ! j) = ROOTDEV" "\<not> i_valid (icache s ! j)" "i_inum (icache s ! j) = i_inum (icache s ! i)"
  shows "\<exists>t u lk. iupdate i s = Ok t \<and> ilock (Some j) t = Ok u \<and>
    icache u = (icache s)[j := (copy_fields (icache s ! i) (icache s ! j))\<lparr>i_lock := lk, i_valid := True\<rparr>] \<and>
    (\<forall>n ip. n \<noteq> i_inum (icache s ! i) \<longrightarrow> disk_inode t n ip = disk_inode s n ip)"
proof -
  from iupdate_spec [OF inv ip(1,2) B] obtain t where t: "iupdate i s = Ok t" "fs_keeps s {} t"
    "\<forall>jp. disk_inode t (i_inum (icache s ! i)) jp = copy_fields (icache s ! i) jp"
    "\<forall>n jp. n \<noteq> i_inum (icache s ! i) \<longrightarrow> disk_inode t n jp = disk_inode s n jp" by blast
  note k = fs_keepsD [OF t(2)]
  have "i_type (disk_inode t (i_inum (icache t ! j)) (icache t ! j)) \<noteq> 0"
    using t(3) ip(3) j(6) k(6) by (simp add: copy_fields_def)
  with ilock_spec [OF tx_invD(1) [OF k(2)], of j] j B(1) k(5,6) t(3) obtain u lk where
    "ilock (Some j) t = Ok u" "icache u = (icache s)[j := (copy_fields (icache s ! i) (icache s ! j))\<lparr>i_lock := lk, i_valid := True\<rparr>]"
    by auto
  with t(1,4) show ?thesis by blast
qed

section \<open>Block addresses\<close>

text \<open>
  The address path of a block of a file: the entry of \<open>addrs\<close>, then an index into each indirect block.
  The last case stops where the code indexes its second level past the end of the block.
\<close>

definition addr_path :: "nat \<Rightarrow> nat \<times> nat list" where
  "addr_path bn =
     (if bn < NDIRECT then (bn, [])
      else if bn < NDIRECT + NINDIRECT then (NDIRECT, [bn - NDIRECT])
      else if bn < NDIRECT + NINDIRECT + NDBLINDIRECT then
        (let b = bn - NDIRECT - NINDIRECT in (NDIRECT + 1, [b div NINDIRECT, b mod NINDIRECT]))
      else let b = bn - NDIRECT - NINDIRECT - NDBLINDIRECT
           in (NDIRECT + 2, [b div NDBLINDIRECT, b div NINDIRECT, b mod NINDIRECT]))"

definition addressable :: "nat \<Rightarrow> bool" where
  "addressable bn \<longleftrightarrow> bn < NDIRECT + NINDIRECT + NDBLINDIRECT + NDBLINDIRECT"

fun walk :: "(nat \<Rightarrow> byte list) \<Rightarrow> nat \<Rightarrow> nat list \<Rightarrow> nat" where
  "walk c a [] = a"
| "walk c a (k # ks) = (if a = 0 then 0 else walk c (rd32 (c a) (4 * k)) ks)"

text \<open>The indirect blocks on a path.\<close>

fun walk_blocks :: "(nat \<Rightarrow> byte list) \<Rightarrow> nat \<Rightarrow> nat list \<Rightarrow> nat list" where
  "walk_blocks c a [] = []"
| "walk_blocks c a (k # ks) = (if a = 0 then [] else a # walk_blocks c (rd32 (c a) (4 * k)) ks)"

definition block_addr :: "'z fs_st_scheme \<Rightarrow> nat \<Rightarrow> nat \<Rightarrow> nat" where
  "block_addr s i bn = (let (k, ks) = addr_path bn in walk (content s) (i_addrs (icache s ! i) ! k) ks)"

definition index_blocks :: "'z fs_st_scheme \<Rightarrow> nat \<Rightarrow> nat \<Rightarrow> nat list" where
  "index_blocks s i bn = (let (k, ks) = addr_path bn in walk_blocks (content s) (i_addrs (icache s ! i) ! k) ks)"

lemma walk_cong:
  "\<forall>b\<in>set (walk_blocks c a ks). c' b = c b \<Longrightarrow> walk c' a ks = walk c a ks \<and> walk_blocks c' a ks = walk_blocks c a ks"
  by (induction ks arbitrary: a) auto

lemma walk_nonzero: "walk c a ks \<noteq> 0 \<Longrightarrow> a \<noteq> 0"
  by (cases ks) (auto split: if_splits)

lemma NIND_simps: "NINDIRECT = 128" "NDBLINDIRECT = 16384" "NTPLINDIRECT = 2097152"
  by (simp_all add: NINDIRECT_def NDBLINDIRECT_def NTPLINDIRECT_def BSIZE_def)

lemma bmap_level_mapped:
  assumes "log_inv s {}" "addr < FSSIZE" "r < NINDIRECT" "rd32 (content s addr) (4 * r) \<noteq> 0"
  shows "\<exists>t. bmap_level ROOTDEV addr r w s = Ok (rd32 (content s addr) (4 * r), t) \<and> quiet s t"
proof -
  from log_fetch [OF assms(1,2)] obtain i t u where "bread ROOTDEV addr s = Ok (i, t)"
    "buf_data t i = content s addr" "brelse i t = Ok u" "quiet s u" by blast
  with assms(3,4) show ?thesis by (simp add: bmap_level_def)
qed

text \<open>One call of \<open>bmap_level\<close> per index of the path.\<close>

fun bmap_levels :: "nat \<Rightarrow> nat \<Rightarrow> nat list \<Rightarrow> 'z fs_st_scheme \<Rightarrow> (nat \<times> 'z fs_st_scheme) res" where
  "bmap_levels dev a [] s = Ok (a, s)"
| "bmap_levels dev a (k # ks) s = bnd (bmap_level dev a k k s) (\<lambda>(a, s). bmap_levels dev a ks s)"

lemma bmap_path:
  assumes "addressable bn"
  shows "bmap i bn s = bnd (bmap_slot i (fst (addr_path bn)) s)
    (\<lambda>(a, t). bmap_levels (i_dev (icache s ! i)) a (snd (addr_path bn)) t)"
    "\<forall>k\<in>set (snd (addr_path bn)). k < NINDIRECT" "fst (addr_path bn) < NDIRECT + 3"
proof -
  have e: "bnd m (\<lambda>(a, t). Ok (a, t)) = m" for m :: "(nat \<times> 'a fs_st_scheme) res" by (cases m) auto
  have l: "case_prod (\<lambda>a. bmap_levels d a [x]) = case_prod (\<lambda>a. bmap_level d a x x)"
    "case_prod (\<lambda>a. bmap_levels d a [x, y]) =
      (\<lambda>(a, t). bnd (bmap_level d a x x t) (\<lambda>(a, t). bmap_level d a y y t))"
    "case_prod (\<lambda>a. bmap_levels d a [x, y, z]) =
      (\<lambda>(a, t). bnd (bmap_level d a x x t) (\<lambda>(a, t). bnd (bmap_level d a y y t) (\<lambda>(a, t). bmap_level d a z z t)))"
    for d x y z and s :: "'a fs_st_scheme"
    unfolding bmap_levels.simps e by (simp_all add: fun_eq_iff)
  have "(bn - NDIRECT - NINDIRECT - NDBLINDIRECT) mod NDBLINDIRECT = bn - NDIRECT - NINDIRECT - NDBLINDIRECT"
    "bn - NDIRECT - NINDIRECT - NDBLINDIRECT < NTPLINDIRECT"
    using assms by (auto simp: addressable_def NIND_simps)
  then show "bmap i bn s = bnd (bmap_slot i (fst (addr_path bn)) s)
    (\<lambda>(a, t). bmap_levels (i_dev (icache s ! i)) a (snd (addr_path bn)) t)"
    by (auto simp: bmap_def addr_path_def Let_def e l)
  show "\<forall>k\<in>set (snd (addr_path bn)). k < NINDIRECT" "fst (addr_path bn) < NDIRECT + 3"
    using assms by (auto simp: addr_path_def Let_def addressable_def NIND_simps)
qed

lemma bmap_levels_mapped:
  assumes "log_inv s {}" "walk (content s) a ks \<noteq> 0" "\<forall>b\<in>set (walk_blocks (content s) a ks). b < FSSIZE"
    "\<forall>k\<in>set ks. k < NINDIRECT"
  shows "\<exists>t. bmap_levels ROOTDEV a ks s = Ok (walk (content s) a ks, t) \<and> quiet s t"
  using assms
proof (induction ks arbitrary: a s)
  case Nil
  then show ?case using quiet_refl by auto
next
  case (Cons k ks)
  note A = Cons.prems
  let ?a = "rd32 (content s a) (4 * k)"
  have a: "a \<noteq> 0" "walk (content s) ?a ks \<noteq> 0" "a < FSSIZE" using A by (auto split: if_splits)
  from bmap_level_mapped [OF A(1) a(3), of k k] walk_nonzero [OF a(2)] A(4) obtain t where
    t: "bmap_level ROOTDEV a k k s = Ok (?a, t)" "quiet s t" by auto
  have "\<forall>b\<in>set (walk_blocks (content t) ?a ks). b < FSSIZE" using A(3) a(1) quietD(3) [OF t(2)] by simp
  with Cons.IH [of t ?a] a A(4) quietD(2,3) [OF t(2)] obtain u where
    "bmap_levels ROOTDEV ?a ks t = Ok (walk (content s) ?a ks, u)" "quiet t u" by auto
  with t a(1) quiet_trans [OF t(2)] show ?case by auto
qed

lemma bmap_mapped:
  assumes "log_inv s {}" "addressable bn" "i_dev (icache s ! i) = ROOTDEV" "block_addr s i bn \<noteq> 0"
    "\<forall>b\<in>set (index_blocks s i bn). b < FSSIZE"
  shows "\<exists>t. bmap i bn s = Ok (block_addr s i bn, t) \<and> quiet s t"
proof -
  obtain k ks where k: "addr_path bn = (k, ks)" by force
  have w: "walk (content s) (i_addrs (icache s ! i) ! k) ks \<noteq> 0" using assms(4) by (simp add: block_addr_def k)
  note p = bmap_path(1) [OF assms(2), of i s, unfolded k, simplified] bmap_path(2) [OF assms(2), unfolded k, simplified]
  have "bmap_slot i k s = Ok (i_addrs (icache s ! i) ! k, s)"
    using walk_nonzero [OF w] by (simp add: bmap_slot_def)
  with bmap_levels_mapped [OF assms(1) w] p assms(3,5) show ?thesis
    by (simp add: block_addr_def index_blocks_def k)
qed

text \<open>
  C31.  Large files: the part of the triple indirect range beyond the first \<open>NDBLINDIRECT\<close> blocks is out of reach.
  For these block numbers \<open>bmap\<close> never returns: it uses the block number divided by \<open>NINDIRECT\<close>, which is at
  least \<open>NINDIRECT\<close>, as an index into a block of \<open>NINDIRECT\<close> addresses.
\<close>

theorem bmap_triple_out_of_range:
  assumes "NDIRECT + NINDIRECT + NDBLINDIRECT + NDBLINDIRECT \<le> bn" "bn < MAXFILE"
  shows "bmap i bn s \<noteq> Ok r"
proof -
  define b where "b = bn - (NDIRECT + NINDIRECT + NDBLINDIRECT)"
  have big: "NINDIRECT \<le> b div NINDIRECT" using assms(1) by (simp add: b_def NIND_simps)
  have "bmap_level d a (b div NINDIRECT) w t \<noteq> Ok q" for d a w q and t :: "'a fs_st_scheme"
    using big by (cases "bread d a t") (auto simp: bmap_level_def)
  then show ?thesis
    using assms by (auto simp: bmap_def Let_def res_iff MAXFILE_def simp flip: b_def)
qed

section \<open>Reading and writing files\<close>

definition file_byte :: "'z fs_st_scheme \<Rightarrow> nat \<Rightarrow> nat \<Rightarrow> byte" where
  "file_byte s i k = content s (block_addr s i (k div BSIZE)) ! (k mod BSIZE)"

text \<open>Block \<open>bn\<close> of the file is allocated.\<close>

definition mapped :: "'z fs_st_scheme \<Rightarrow> nat \<Rightarrow> nat \<Rightarrow> bool" where
  "mapped s i bn \<longleftrightarrow> addressable bn \<and> block_addr s i bn \<noteq> 0 \<and> block_addr s i bn < FSSIZE \<and>
     (\<forall>b\<in>set (index_blocks s i bn). b < FSSIZE)"

lemma fs_quiet:
  assumes "quiet s t"
  shows "icache t = icache s" "sb t = sb s" "block_addr t = block_addr s" "index_blocks t = index_blocks s"
    "mapped t = mapped s" "file_byte t = file_byte s" "used t = used s" "layout_ok t = layout_ok s"
    "bitmap_blocks t = bitmap_blocks s"
proof -
  note q = quietD [OF assms]
  show i: "icache t = icache s" "sb t = sb s" using fs_frame [OF q(5)] by simp_all
  show b: "block_addr t = block_addr s" "index_blocks t = index_blocks s"
    by (intro ext; simp add: block_addr_def index_blocks_def i q(3))+
  then show "mapped t = mapped s" "file_byte t = file_byte s"
    using q(3) by (simp_all add: mapped_def file_byte_def fun_eq_iff)
  show u: "used t = used s" "bitmap_blocks t = bitmap_blocks s"
    using i q(3) by (simp_all add: used_def bitmap_blocks_def fun_eq_iff)
  show "layout_ok t = layout_ok s" using u i log_frameD(11) [OF q(5)] by (simp add: layout_ok_def)
qed

lemma chunk:
  assumes "m = min n (BSIZE - off mod BSIZE)" "k < m"
  shows "(off + k) div BSIZE = off div BSIZE" "(off + k) mod BSIZE = off mod BSIZE + k" "off mod BSIZE + k < BSIZE"
proof -
  from assms have "k < BSIZE - off mod BSIZE" by simp
  then show lt: "off mod BSIZE + k < BSIZE" by linarith
  have "off + k = off div BSIZE * BSIZE + (off mod BSIZE + k)" by simp
  then show "(off + k) div BSIZE = off div BSIZE" "(off + k) mod BSIZE = off mod BSIZE + k"
    using lt by (metis add.right_neutral div_less div_mult_self3 less_nat_zero_code, metis mod_less mod_mult_self3)
qed

lemma BSIZE_pos: "0 < BSIZE" "0 < BSIZE - off mod BSIZE"
  by (simp_all add: BSIZE_def)

lemma readi_loop_spec:
  assumes "log_inv s {}" "i_dev (icache s ! i) = ROOTDEV" "\<forall>k. off \<le> k \<and> k < off + n \<longrightarrow> mapped s i (k div BSIZE)"
  shows "\<exists>t. readi_loop i off n s = Ok (map (file_byte s i) [off..<off + n], t) \<and> quiet s t"
  using assms
proof (induction n arbitrary: off s rule: less_induct)
  case (less n)
  note A = less.prems
  show ?case
  proof (cases "n = 0")
    case True
    then show ?thesis using quiet_refl [OF A(1)] by (simp add: readi_loop.simps)
  next
    case False
    define m where "m = min n (BSIZE - off mod BSIZE)"
    have m: "0 < m" "m \<le> n" using False BSIZE_pos(2) [of off] by (simp_all add: m_def)
    let ?a = "block_addr s i (off div BSIZE)"
    have mp: "mapped s i (off div BSIZE)" using A(3) False by simp
    from bmap_mapped [OF A(1) _ A(2), of "off div BSIZE"] mp obtain t where
      t: "bmap i (off div BSIZE) s = Ok (?a, t)" "quiet s t" by (auto simp: mapped_def)
    from log_fetch [OF quietD(2) [OF t(2)], of ?a] mp obtain b u v where
      u: "bread ROOTDEV ?a t = Ok (b, u)" "buf_data u b = content s ?a" "brelse b u = Ok v" "quiet t v"
      by (auto simp: mapped_def quietD(3) [OF t(2)])
    note sv = quiet_trans [OF t(2) u(4)]
    have "\<exists>w. readi_loop i (off + m) (n - m) v = Ok (map (file_byte v i) [off + m..<off + m + (n - m)], w) \<and> quiet v w"
      using m A(2,3) fs_quiet [OF sv] by (intro less.IH quietD(2) [OF sv]) auto
    then obtain w where w: "readi_loop i (off + m) (n - m) v = Ok (map (file_byte s i) [off + m..<off + n], w)" "quiet v w"
      using m(2) fs_quiet(6) [OF sv] by auto
    have "length (content s ?a) = BSIZE" using content_len [OF log_invD(1) [OF A(1)]] .
    moreover have fit: "off mod BSIZE + m \<le> BSIZE" using chunk(3) [OF m_def, of "m - 1"] m(1) by simp
    ultimately have "slice (content s ?a) (off mod BSIZE) m = map (file_byte s i) [off..<off + m]"
      using chunk(1,2) [OF m_def] by (intro nth_equalityI) (simp_all add: length_slice nth_slice file_byte_def)
    moreover have "[off..<off + n] = [off..<off + m] @ [off + m..<off + n]" using upt_add_eq_append [of off "off + m" "n - m"] m by simp
    moreover have "i_dev (icache t ! i) = ROOTDEV" using A(2) fs_quiet(1) [OF t(2)] by simp
    ultimately have "readi_loop i off n s = Ok (map (file_byte s i) [off..<off + n], w)"
      using False t(1) u(1-3) w(1) by (subst readi_loop.simps) (simp add: m_def [symmetric] Let_def)
    with quiet_trans [OF sv w(2)] show ?thesis by blast
  qed
qed

text \<open>
  C30.  Reading a file.  For a regular file whose blocks in the range are allocated, \<open>readi\<close> returns -1 when the
  offset is past the end (or offset plus count wraps around), and otherwise the number of bytes up to the end
  of the file with exactly the bytes of the file, changing no block.
\<close>

theorem readi_reads:
  assumes inv: "log_inv s {}" and ip: "i_dev (icache s ! i) = ROOTDEV" "i_type (icache s ! i) \<noteq> T_DEV" "i_size (icache s ! i) < 2 ^ 32"
    and n: "off < 2 ^ 32" "n < 2 ^ 32"
    and mp: "\<forall>k. off \<le> k \<and> k < off + n \<and> k < i_size (icache s ! i) \<longrightarrow> mapped s i (k div BSIZE)"
  shows "\<exists>t. readi dv i off n s = Ok (if off > i_size (icache s ! i) \<or> 2 ^ 32 \<le> off + n then (-1, [])
      else (int (min n (i_size (icache s ! i) - off)), map (file_byte s i) [off..<min (off + n) (i_size (icache s ! i))]), t) \<and>
    content t = content s \<and> icache t = icache s"
proof -
  let ?z = "i_size (icache s ! i)"
  have wrap: "add32 off n < off \<longleftrightarrow> 2 ^ 32 \<le> off + n"
  proof (cases "off + n < 2 ^ 32")
    case False
    then have "add32 off n = off + n - 2 ^ 32" using n by (simp add: add32_def mod_if)
    with False n show ?thesis by simp
  qed (simp add: add32_def)
  show ?thesis
  proof (cases "off > ?z \<or> 2 ^ 32 \<le> off + n")
    case True
    then show ?thesis using ip wrap by (auto simp: readi_def Let_def)
  next
    case False
    then have add: "add32 off n = off + n" by (simp add: add32_small)
    define m where "m = min n (?z - off)"
    have "\<forall>k. off \<le> k \<and> k < off + m \<longrightarrow> mapped s i (k div BSIZE)" using mp by (auto simp: m_def)
    from readi_loop_spec [OF inv ip(1) this] obtain t where
      t: "readi_loop i off m s = Ok (map (file_byte s i) [off..<off + m], t)" "quiet s t" by blast
    have "(if add32 off n > ?z then ?z - off else n) = m" "off + m = min (off + n) ?z"
      using False by (auto simp: add m_def)
    with t False ip wrap show ?thesis
      using quietD(3) [OF t(2)] fs_quiet(1) [OF t(2)] by (auto simp: readi_def Let_def m_def)
  qed
qed

text \<open>What the loop of \<open>writei\<close> does to the contents of the blocks, for a fixed address of each block of the file.\<close>

function write_blocks :: "(nat \<Rightarrow> byte list) \<Rightarrow> (nat \<Rightarrow> nat) \<Rightarrow> nat \<Rightarrow> byte list \<Rightarrow> nat \<Rightarrow> byte list" where
  "write_blocks c f off src =
     (if src = [] then c
      else let m = min (length src) (BSIZE - off mod BSIZE); a = f (off div BSIZE)
           in write_blocks (c(a := splice (c a) (off mod BSIZE) (take m src))) f (off + m) (drop m src))"
  by pat_completeness auto
termination
  by (relation "measure (\<lambda>(c, f, off, src). length src)") (auto simp: BSIZE_def)

declare write_blocks.simps [simp del]

lemma write_blocks_other:
  assumes "\<And>k. off \<le> k \<Longrightarrow> k < off + length src \<Longrightarrow> f (k div BSIZE) \<noteq> b"
  shows "write_blocks c f off src b = c b"
  using assms
proof (induction "length src" arbitrary: c off src rule: less_induct)
  case less
  show ?case
  proof (cases "src = []")
    case True
    then show ?thesis by (simp add: write_blocks.simps)
  next
    case False
    define m a where "m = min (length src) (BSIZE - off mod BSIZE)" and "a = f (off div BSIZE)"
    have m: "0 < m" "m \<le> length src" using False BSIZE_pos(2) [of off] by (simp_all add: m_def)
    have "a \<noteq> b" using less.prems [of off] False by (simp add: a_def)
    moreover have "write_blocks c' f (off + m) (drop m src) b = c' b" for c'
      using less.prems m by (intro less.hyps) auto
    ultimately show ?thesis using False
      by (subst write_blocks.simps) (simp add: Let_def m_def [symmetric] a_def [symmetric])
  qed
qed

lemma write_blocks_cong:
  assumes "\<And>k. off \<le> k \<Longrightarrow> k < off + length src \<Longrightarrow> f (k div BSIZE) = g (k div BSIZE)"
  shows "write_blocks c f off src = write_blocks c g off src"
  using assms
proof (induction "length src" arbitrary: c off src rule: less_induct)
  case less
  show ?case
  proof (cases "src = []")
    case True
    then show ?thesis by (simp add: write_blocks.simps)
  next
    case False
    define m where "m = min (length src) (BSIZE - off mod BSIZE)"
    have m: "0 < m" "m \<le> length src" using False BSIZE_pos(2) [of off] by (simp_all add: m_def)
    have "f (off div BSIZE) = g (off div BSIZE)" using less.prems [of off] False by simp
    moreover have "write_blocks c' f (off + m) (drop m src) = write_blocks c' g (off + m) (drop m src)" for c'
      using less.prems m by (intro less.hyps) auto
    ultimately show ?thesis using False
      by (simp add: write_blocks.simps [of c _ off src] Let_def m_def [symmetric])
  qed
qed

lemma write_blocks_nth:
  assumes "\<And>b. length (c b) = BSIZE"
    and "\<And>k'. off \<le> k' \<Longrightarrow> k' < off + length src \<Longrightarrow> f (k' div BSIZE) = f (k div BSIZE) \<Longrightarrow> k' div BSIZE = k div BSIZE"
  shows "write_blocks c f off src (f (k div BSIZE)) ! (k mod BSIZE) =
    (if off \<le> k \<and> k < off + length src then src ! (k - off) else c (f (k div BSIZE)) ! (k mod BSIZE))"
  using assms
proof (induction "length src" arbitrary: c off src rule: less_induct)
  case less
  show ?case
  proof (cases "src = []")
    case True
    then show ?thesis by (subst write_blocks.simps) auto
  next
    case False
    define m a where "m = min (length src) (BSIZE - off mod BSIZE)" and "a = f (off div BSIZE)"
    define c' where "c' = c(a := splice (c a) (off mod BSIZE) (take m src))"
    have m: "0 < m" "m \<le> length src" using False BSIZE_pos(2) [of off] by (simp_all add: m_def)
    have fit: "off mod BSIZE + m \<le> BSIZE" using chunk(3) [OF m_def, of "m - 1"] m(1) by simp
    have kb: "k mod BSIZE < BSIZE" by (simp add: BSIZE_def)
    have len: "length (c' b) = BSIZE" for b using less.prems(1) fit m by (simp add: c'_def length_splice)
    have c': "c' (f (k div BSIZE)) ! (k mod BSIZE) =
      (if off \<le> k \<and> k < off + m then src ! (k - off) else c (f (k div BSIZE)) ! (k mod BSIZE))"
    proof (cases "k div BSIZE = off div BSIZE")
      case True
      then obtain q where q: "k = q + k mod BSIZE" "off = q + off mod BSIZE" by (metis div_mult_mod_eq)
      have e: "off \<le> k \<longleftrightarrow> off mod BSIZE \<le> k mod BSIZE" "k - off = k mod BSIZE - off mod BSIZE"
        "k < off + m \<longleftrightarrow> k mod BSIZE < off mod BSIZE + m"
        using q by linarith+
      have n: "splice (c a) (off mod BSIZE) (take m src) ! (k mod BSIZE) = (if off mod BSIZE \<le> k mod BSIZE \<and>
          k mod BSIZE < off mod BSIZE + m then take m src ! (k mod BSIZE - off mod BSIZE) else c a ! (k mod BSIZE))"
        using less.prems(1) fit m kb nth_splice [of "k mod BSIZE" "c a" "off mod BSIZE" "take m src"] by simp
      show ?thesis using m(2) by (auto simp: c'_def a_def True e n [unfolded a_def])
    next
      case False
      then have "f (k div BSIZE) \<noteq> a" using less.prems(2) [of off] m \<open>src \<noteq> []\<close> by (auto simp: a_def)
      moreover have "\<not> (off \<le> k \<and> k < off + m)"
      proof
        assume k: "off \<le> k \<and> k < off + m"
        then have "k - off < m" by linarith
        from chunk(1) [OF m_def this] k False show False by simp
      qed
      ultimately show ?thesis by (auto simp: c'_def)
    qed
    have "write_blocks c' f (off + m) (drop m src) (f (k div BSIZE)) ! (k mod BSIZE) =
      (if off + m \<le> k \<and> k < off + m + length (drop m src) then drop m src ! (k - (off + m))
       else c' (f (k div BSIZE)) ! (k mod BSIZE))"
      using less.prems(2) m len by (intro less.hyps) auto
    with c' m False show ?thesis
      by (subst write_blocks.simps) (auto simp: Let_def m_def [symmetric] a_def [symmetric] c'_def [symmetric])
  qed
qed

text \<open>
  The blocks \<open>N\<close> of a file may be written: they are allocated, outside the log, and none of them is an
  indirect block of these blocks.
\<close>

definition writable :: "'z fs_st_scheme \<Rightarrow> nat \<Rightarrow> nat set \<Rightarrow> bool" where
  "writable s i N \<longleftrightarrow> (\<forall>bn\<in>N. mapped s i bn \<and> block_addr s i bn \<notin> log_region s \<and>
     (\<forall>bn'\<in>N. block_addr s i bn \<notin> set (index_blocks s i bn')))"

lemma same_addrs:
  assumes "i_addrs (icache t ! i) = i_addrs (icache s ! i)" "\<forall>b\<in>set (index_blocks s i bn). content t b = content s b"
  shows "block_addr t i bn = block_addr s i bn" "index_blocks t i bn = index_blocks s i bn"
proof -
  obtain k ks where k: "addr_path bn = (k, ks)" by force
  from assms(2) walk_cong [of "content s" "i_addrs (icache s ! i) ! k" ks "content t"]
  show "block_addr t i bn = block_addr s i bn" "index_blocks t i bn = index_blocks s i bn"
    by (simp_all add: block_addr_def index_blocks_def k assms(1))
qed

lemma writable_update:
  assumes "writable s i N" "i_addrs (icache t ! i) = i_addrs (icache s ! i)" "log_region t = log_region s"
    "\<And>b bn. bn \<in> N \<Longrightarrow> b \<in> set (index_blocks s i bn) \<Longrightarrow> b \<notin> block_addr s i ` N \<Longrightarrow> content t b = content s b"
  shows "writable t i N" "\<And>bn. bn \<in> N \<Longrightarrow> block_addr t i bn = block_addr s i bn"
proof -
  have same: "block_addr t i bn = block_addr s i bn" "index_blocks t i bn = index_blocks s i bn" if "bn \<in> N" for bn
  proof -
    have "\<forall>b\<in>set (index_blocks s i bn). content t b = content s b"
      using that assms(1) by (intro ballI assms(4) [OF that]) (auto simp: writable_def)
    from same_addrs [OF assms(2) this] show "block_addr t i bn = block_addr s i bn"
      "index_blocks t i bn = index_blocks s i bn" by simp_all
  qed
  then show "\<And>bn. bn \<in> N \<Longrightarrow> block_addr t i bn = block_addr s i bn" by simp
  show "writable t i N" using assms(1,3) same by (simp add: writable_def mapped_def)
qed

definition blocks_in :: "nat \<Rightarrow> nat \<Rightarrow> nat" where
  "blocks_in off n = (if n = 0 then 0 else (off mod BSIZE + n + BSIZE - 1) div BSIZE)"

lemma blocks_in_step:
  assumes "0 < n" "m = min n (BSIZE - off mod BSIZE)"
  shows "blocks_in off n = Suc (blocks_in (off + m) (n - m))"
proof (cases "n \<le> BSIZE - off mod BSIZE")
  case True
  have "off mod 512 < 512" by simp
  with True assms have "512 \<le> off mod 512 + n + 511" "off mod 512 + n + 511 < 1024" "m = n" by (simp_all add: BSIZE_def)
  then show ?thesis using assms(1) by (simp add: blocks_in_def BSIZE_def)
next
  case False
  then have m: "m = BSIZE - off mod BSIZE" using assms by simp
  obtain q r where qr: "off = q * 512 + r" "r = off mod 512" "r < 512" by (metis div_mult_mod_eq mod_less_divisor zero_less_numeral)
  then have "off + m = (q + 1) * 512" unfolding m BSIZE_def qr(2) [symmetric] by simp
  then have "(off + m) mod BSIZE = 0" unfolding BSIZE_def by simp
  moreover have "n - m \<noteq> 0" "off mod 512 + n + 511 = (n - m + 511) + 512"
    using False m qr(2,3) by (simp_all add: BSIZE_def)
  ultimately show ?thesis using assms(1) by (simp add: blocks_in_def BSIZE_def del: diff_is_0_eq)
qed

lemma writei_loop_spec:
  assumes "tx_inv s {}" "i_dev (icache s ! i) = ROOTDEV" "blocks_in off (length src) \<le> tx_left s"
    "writable s i N" "\<And>k. off \<le> k \<Longrightarrow> k < off + length src \<Longrightarrow> k div BSIZE \<in> N"
  shows "\<exists>t. writei_loop i off src s = Ok t \<and> fs_keeps s {} t \<and>
    content t = write_blocks (content s) (block_addr s i) off src \<and>
    tx_left s \<le> tx_left t + blocks_in off (length src)"
  using assms
proof (induction "length src" arbitrary: off s src rule: less_induct)
  case less
  note A = less.prems
  show ?case
  proof (cases "src = []")
    case True
    then show ?thesis using A(1) by (simp add: writei_loop.simps write_blocks.simps fs_keeps_def)
  next
    case False
    define m a where "m = min (length src) (BSIZE - off mod BSIZE)" and "a = block_addr s i (off div BSIZE)"
    let ?f = "\<lambda>d. splice d (off mod BSIZE) (take m src)"
    have m: "0 < m" "m \<le> length src" using False BSIZE_pos(2) [of off] by (simp_all add: m_def)
    have fit: "off mod BSIZE + m \<le> BSIZE" using chunk(3) [OF m_def, of "m - 1"] m(1) by simp
    have bl: "blocks_in off (length src) = Suc (blocks_in (off + m) (length (drop m src)))"
      using blocks_in_step [OF _ m_def] False by simp
    have N: "off div BSIZE \<in> N" using A(5) [of off] False by simp
    then have w: "mapped s i (off div BSIZE)" "a \<notin> log_region s" "a < FSSIZE"
      using A(4) by (auto simp: writable_def a_def mapped_def)
    from bmap_mapped [OF tx_invD(1) [OF A(1)] _ A(2), of "off div BSIZE"] w(1) obtain t where
      t: "bmap i (off div BSIZE) s = Ok (a, t)" "quiet s t" by (auto simp: mapped_def a_def)
    note q = quietD [OF t(2)] note qf = fs_quiet [OF t(2)]
    have tt: "tx_inv t {}" "0 < tx_left t" "a \<notin> log_region t" "length (?f (content t a)) = BSIZE"
      using q(6,7) A(1,3) bl w(2) log_frameD(11) [OF q(5)] tx.cont_len [OF A(1), of a] fit m
      by (simp_all add: q(3) length_splice)
    from tx.update [OF tt(1) finite.emptyI _ w(3) _ tt(2,3), of ?f, OF _ _ tt(4)] obtain b u v x where
      v: "bread ROOTDEV a t = Ok (b, u)" "buf_data u b = content s a" "log_write b (set_data b (?f (content s a)) u) = Ok v"
        "brelse b v = Ok x" "tx_inv x {}" "content x = (content s)(a := ?f (content s a))" "tx_left t \<le> tx_left x + 1"
        "log_frame t x" by (auto simp: q(3))
    have sx: "log_frame s x" using log_frame_trans [OF q(5) v(8)] .
    note F = fs_frame [OF sx]
    have keep: "fs_keeps s {} x" using sx v(5) by (simp add: fs_keeps_def)
    have nN: "\<And>b. b \<notin> block_addr s i ` N \<Longrightarrow> content x b = content s b" using N by (auto simp: v(6) a_def)
    note wr = writable_update [OF A(4) arg_cong [OF F(2), of "\<lambda>x. i_addrs (x ! i)"] log_frameD(11) [OF sx] nN]
    have "\<exists>y. writei_loop i (off + m) (drop m src) x = Ok y \<and> fs_keeps x {} y \<and>
      content y = write_blocks (content x) (block_addr x i) (off + m) (drop m src) \<and>
      tx_left x \<le> tx_left y + blocks_in (off + m) (length (drop m src))"
      using m A(2,3,5) bl v(7) q(7) F(2) by (intro less.hyps [OF _ v(5)] wr(1)) auto
    then obtain y where y: "writei_loop i (off + m) (drop m src) x = Ok y" "fs_keeps x {} y"
      "content y = write_blocks (content x) (block_addr x i) (off + m) (drop m src)"
      "tx_left x \<le> tx_left y + blocks_in (off + m) (length (drop m src))" by blast
    have "write_blocks (content x) (block_addr x i) (off + m) (drop m src) =
      write_blocks (content x) (block_addr s i) (off + m) (drop m src)"
      using A(5) m wr(2) by (intro write_blocks_cong) auto
    then have "content y = write_blocks (content s) (block_addr s i) off src"
      using False by (subst write_blocks.simps) (simp add: y(3) v(6) Let_def m_def [symmetric] a_def [symmetric])
    moreover have "writei_loop i off src s = Ok y"
      using False t(1) v(1-4) y(1) A(2) qf(1)
      by (subst writei_loop.simps) (simp add: Let_def m_def [symmetric])
    moreover have "fs_keeps s {} y" by (rule fs_keeps_trans [OF keep y(2)])
    ultimately show ?thesis using y(4) v(7) q(7) bl by (intro exI [of _ y]) simp
  qed
qed

text \<open>The block numbers of a range of bytes.\<close>

definition range_blocks :: "nat \<Rightarrow> nat \<Rightarrow> nat set" where
  "range_blocks off n = (\<lambda>k. k div BSIZE) ` {off..<off + n}"

text \<open>
  The on-disk inode lies apart from the file: its block is outside the log, and neither one of the blocks of the
  range nor one of the indirect blocks that lead to them.
\<close>

definition inode_apart :: "'z fs_st_scheme \<Rightarrow> nat \<Rightarrow> nat set \<Rightarrow> bool" where
  "inode_apart s i N \<longleftrightarrow> (let B = IBLOCK (i_inum (icache s ! i)) (sb s) in B < FSSIZE \<and> B \<notin> log_region s \<and>
     B \<notin> block_addr s i ` N \<and> (\<forall>bn\<in>N. B \<notin> set (index_blocks s i bn)))"

lemma writei_run:
  assumes inv: "tx_inv s {}" "blocks_in off (length src) + 1 \<le> tx_left s"
    and i: "i < length (icache s)" and ip: "ip = icache s ! i" "i_dev ip = ROOTDEV" "i_type ip \<noteq> T_DEV" "inode_ok ip"
    and n: "off + length src \<le> MAXFILE * BSIZE"
    and N: "N = range_blocks off (length src)" "writable s i N" "inode_apart s i N"
  shows "\<exists>t. writei dv i off src s = Ok (int (length src), t) \<and> tx_inv t {} \<and>
    icache t = (icache s)[i := ip\<lparr>i_size := (if src = [] then i_size ip else max (i_size ip) (off + length src))\<rparr>] \<and>
    writable t i N \<and> (\<forall>bn\<in>N. block_addr t i bn = block_addr s i bn) \<and>
    (\<forall>b. b \<noteq> IBLOCK (i_inum ip) (sb s) \<longrightarrow> content t b = write_blocks (content s) (block_addr s i) off src b)"
proof -
  let ?B = "IBLOCK (i_inum ip) (sb s)"
  have big: "add32 off (length src) = off + length src"
    using n by (intro add32_small) (simp add: MAXFILE_def NIND_simps NDIRECT_def BSIZE_def)
  have B: "?B < FSSIZE" "?B \<notin> log_region s" "?B \<notin> block_addr s i ` N" "\<And>bn. bn \<in> N \<Longrightarrow> ?B \<notin> set (index_blocks s i bn)"
    using N(3) by (auto simp: inode_apart_def Let_def ip(1))
  have "\<And>k. off \<le> k \<Longrightarrow> k < off + length src \<Longrightarrow> k div BSIZE \<in> N" by (auto simp: N(1) range_blocks_def)
  from writei_loop_spec [OF inv(1) _ _ N(2) this, of off src] inv(2) ip obtain t where t: "writei_loop i off src s = Ok t" "fs_keeps s {} t"
    "content t = write_blocks (content s) (block_addr s i) off src" "tx_left s \<le> tx_left t + blocks_in off (length src)"
    by auto
  note k = fs_keepsD [OF t(2)]
  have oth: "content t b = content s b" if "b \<notin> block_addr s i ` N" for b
    unfolding t(3) using that by (intro write_blocks_other) (auto simp: N(1) range_blocks_def)
  show ?thesis
  proof (cases "src \<noteq> [] \<and> off + length src > i_size ip")
    case True
    define ip' where "ip' = ip\<lparr>i_size := off + length src\<rparr>"
    define t1 where "t1 = upd_inode i (\<lambda>x. x\<lparr>i_size := off + length src\<rparr>) t"
    have ic: "icache t1 = (icache s)[i := ip']" by (simp add: t1_def k(6) ip'_def ip(1))
    then have at: "icache t1 ! i = ip'" "i_dev ip' = ROOTDEV" "i_inum ip' = i_inum ip" "i_addrs ip' = i_addrs ip"
      using i ip(2) by (simp_all add: ip'_def)
    have "inode_ok ip'" using ip(4) n by (simp add: inode_ok_def ip'_def MAXFILE_def NIND_simps NDIRECT_def BSIZE_def)
    with iupdate_spec [of t1 i] B(1,2) k(2,5,8) at inv(2) t(4) obtain u where
      u: "iupdate i t1 = Ok u" "fs_keeps t1 {} u" "\<forall>c. c \<noteq> ?B \<longrightarrow> content u c = content t c" by (auto simp: t1_def)
    note ku = fs_keepsD [OF u(2)]
    have "writable u i N \<and> (\<forall>bn\<in>N. block_addr u i bn = block_addr s i bn)"
      using writable_update [OF N(2), of u] oth u(3) B(4) ku(6,8) k(8) at(1,4)
      by (simp add: t1_def [symmetric] ip(1)) (metis t1_def upd_inode_log(6))
    moreover have "writei dv i off src s = Ok (int (length src), u)"
      using True t(1) u(1) n ip(1,3) k(6) big by (simp add: writei_def Let_def t1_def)
    moreover have "icache u = (icache s)[i := ip\<lparr>i_size := (if src = [] then i_size ip else max (i_size ip) (off + length src))\<rparr>]"
      using True by (simp add: ku(6) ic ip'_def max_def)
    ultimately show ?thesis using ku(2) u(3) t(3) by (intro exI [of _ u]) simp
  next
    case False
    have "i_addrs (icache t ! i) = i_addrs (icache s ! i)" by (simp add: k(6))
    from writable_update [OF N(2) this k(8)] oth have w: "writable t i N" "\<forall>bn\<in>N. block_addr t i bn = block_addr s i bn"
      by blast+
    have "writei dv i off src s = Ok (int (length src), t)"
      using False t(1) n ip(1,3) k(6) big by (auto simp: writei_def Let_def)
    moreover have "ip\<lparr>i_size := (if src = [] then i_size ip else max (i_size ip) (off + length src))\<rparr> = ip"
      using False by auto
    then have "icache t = (icache s)[i := ip\<lparr>i_size := (if src = [] then i_size ip else max (i_size ip) (off + length src))\<rparr>]"
      using ip(1) by (simp add: k(6))
    ultimately show ?thesis using w k(2) t(3) by (intro exI [of _ t]) simp
  qed
qed

text \<open>
  C2.  Writing a file and reading it back.  Inside a transaction with room in the log, for a regular file whose
  blocks in the range are allocated and distinct, \<open>writei\<close> returns the number of bytes, grows the size to the
  end of the range if that is past the old end, changes no byte of the file outside the range and no other block
  than those of the range and the one of the inode; \<open>readi\<close> of the range then returns the bytes written.
\<close>

theorem writei_readi_roundtrip:
  assumes inv: "tx_inv s {}" "blocks_in off (length src) + 1 \<le> tx_left s"
    and i: "i < length (icache s)" "i_dev (icache s ! i) = ROOTDEV" "i_type (icache s ! i) \<noteq> T_DEV" "inode_ok (icache s ! i)"
    and n: "off + length src \<le> MAXFILE * BSIZE" "src \<noteq> []"
    and N: "writable s i (range_blocks off (length src))" "inode_apart s i (range_blocks off (length src))"
      "inj_on (block_addr s i) (range_blocks off (length src))"
  shows "\<exists>t u. writei dv i off src s = Ok (int (length src), t) \<and>
    readi dv i off (length src) t = Ok ((int (length src), src), u) \<and>
    icache t = (icache s)[i := (icache s ! i)\<lparr>i_size := max (i_size (icache s ! i)) (off + length src)\<rparr>] \<and>
    (\<forall>k. k div BSIZE \<in> range_blocks off (length src) \<and> \<not> (off \<le> k \<and> k < off + length src) \<longrightarrow> file_byte t i k = file_byte s i k) \<and>
    (\<forall>b. b \<notin> block_addr s i ` range_blocks off (length src) \<and> b \<noteq> IBLOCK (i_inum (icache s ! i)) (sb s) \<longrightarrow> content t b = content s b)"
proof -
  define N where "N = range_blocks off (length src)"
  define ip where "ip = icache s ! i"
  let ?B = "IBLOCK (i_inum ip) (sb s)"
  have NN: "writable s i N" "inode_apart s i N" "inj_on (block_addr s i) N" using N by (simp_all add: N_def)
  have inN: "k div BSIZE \<in> N" if "off \<le> k" "k < off + length src" for k using that by (auto simp: N_def range_blocks_def)
  from writei_run [OF inv i(1) ip_def _ _ _ n(1) N_def NN(1,2), of dv] i n(2) obtain t where
    t: "writei dv i off src s = Ok (int (length src), t)" "tx_inv t {}"
      "icache t = (icache s)[i := ip\<lparr>i_size := max (i_size ip) (off + length src)\<rparr>]" "writable t i N"
      "\<forall>bn\<in>N. block_addr t i bn = block_addr s i bn"
      "\<forall>b. b \<noteq> ?B \<longrightarrow> content t b = write_blocks (content s) (block_addr s i) off src b" by (auto simp: ip_def)
  have "?B \<notin> block_addr s i ` N" using NN(2) by (simp add: inode_apart_def Let_def ip_def)
  then have notB: "block_addr s i bn \<noteq> ?B" if "bn \<in> N" for bn using that by (metis imageI)
  have fb: "file_byte t i k = (if off \<le> k \<and> k < off + length src then src ! (k - off) else file_byte s i k)"
    if k: "k div BSIZE \<in> N" for k
  proof -
    have "write_blocks (content s) (block_addr s i) off src (block_addr s i (k div BSIZE)) ! (k mod BSIZE) =
      (if off \<le> k \<and> k < off + length src then src ! (k - off) else file_byte s i k)"
      unfolding file_byte_def
      by (rule write_blocks_nth [OF tx.cont_len [OF inv(1)]]) (use NN(3) k inN in \<open>auto dest: inj_onD\<close>)
    with t(5,6) notB [OF k] k show ?thesis by (simp add: file_byte_def)
  qed
  have sz: "i_size (icache t ! i) = max (i_size ip) (off + length src)" "i_dev (icache t ! i) = ROOTDEV"
    using i by (simp_all add: t(3) ip_def)
  have "\<forall>k. off \<le> k \<and> k < off + length src \<longrightarrow> mapped t i (k div BSIZE)" using t(4) inN by (auto simp: writable_def)
  from readi_loop_spec [OF tx_invD(1) [OF t(2)] sz(2) this] obtain u where
    u: "readi_loop i off (length src) t = Ok (map (file_byte t i) [off..<off + length src], u)" by blast
  have "map (file_byte t i) [off..<off + length src] = src"
    using fb inN by (intro nth_equalityI) auto
  moreover have "add32 off (length src) = off + length src"
    using n(1) by (intro add32_small) (simp add: MAXFILE_def NIND_simps NDIRECT_def BSIZE_def)
  ultimately have "readi dv i off (length src) t = Ok ((int (length src), src), u)"
    using u sz(1) i(1,3) by (simp add: readi_def Let_def t(3) ip_def)
  moreover have "content t b = content s b" if "b \<notin> block_addr s i ` N" "b \<noteq> ?B" for b
    using that t(6) inN by (auto intro!: write_blocks_other)
  ultimately show ?thesis using t(1,3) fb unfolding N_def [symmetric] ip_def [symmetric]
    by (intro exI [of _ t] exI [of _ u]) auto
qed

lemma balloc_no_trans:
  assumes inv: "log_inv s {}" "layout_ok s" "outstanding s = 0" "lh_n s < int LOGSIZE - 1"
    and "quiet s t" "\<forall>k\<in>set K. k * BPB < sb_size (sb s)"
      "\<exists>k\<in>set K. \<exists>bi<BPB. k * BPB + bi < sb_size (sb s) \<and> \<not> used s (k * BPB + bi)"
  shows "balloc_loop ROOTDEV (map (\<lambda>k. k * BPB) K) t = Panic ''log_write outside of trans''"
  using assms(5-7)
proof (induction K arbitrary: t)
  case (Cons k K)
  note q = quietD [OF Cons.prems(1)] note qf = fs_quiet [OF Cons.prems(1)]
  define B where "B = BBLOCK (k * BPB) (sb s)"
  have k: "k * BPB < sb_size (sb s)" using Cons.prems(2) by simp
  have B: "B < FSSIZE" using layout_okD(2) [OF inv(2) k] by (simp add: B_def)
  from log_fetch [OF q(2) B] obtain b u v where u: "bread ROOTDEV B t = Ok (b, u)" "buf_data u b = content s B"
    "brelse b u = Ok v" "bio_frame t u" "quiet t v" by (auto simp: q(3))
  have sbu: "sb u = sb s" using fs_frame(1) [OF bio_log_frame [OF u(4)]] qf(2) by simp
  have lo: "outstanding u = 0" "lh_n u = lh_n s" "lg_size u = int LOGSIZE"
    using bio_frame_log [OF u(4)] bio_frame_log [OF q(1)] inv(3) log_invD(3) [OF inv(1)] by simp_all
  let ?find = "find (\<lambda>bi. \<not> bit_at (content s B) bi) [0..<min BPB (sb_size (sb s) - k * BPB)]"
  show ?case
  proof (cases ?find)
    case None
    have "used s (k * BPB + bi)" if "bi < BPB" "k * BPB + bi < sb_size (sb s)" for bi
      using None that by (simp add: find_None_iff used_def BBLOCK_add B_def)
    with Cons.prems(3) have "\<exists>k\<in>set K. \<exists>bi<BPB. k * BPB + bi < sb_size (sb s) \<and> \<not> used s (k * BPB + bi)" by auto
    with Cons.IH [OF quiet_trans [OF Cons.prems(1) u(5)]] Cons.prems(2) u(1-3) sbu None qf(2) show ?thesis
      by (simp add: B_def [symmetric])
  next
    case (Some bi)
    with u(1,2) sbu lo inv(4) qf(2) show ?thesis
      by (simp add: B_def [symmetric] log_write_def set_data_def)
  qed
qed simp

text \<open>
  C32.  Reading a hole.  \<open>writei\<close> may extend a file past its end, leaving blocks without an address.  \<open>fileread\<close> calls
  \<open>readi\<close> outside a transaction, and for such a block \<open>bmap\<close> allocates one, so that a read of
  a hole in the direct blocks panics in \<open>log_write\<close>.
\<close>

theorem readi_hole_panics:
  assumes inv: "log_inv s {}" "outstanding s = 0" "layout_ok s" "f < sb_size (sb s)" "\<not> used s f"
      "lh_n s < int LOGSIZE - 1"
    and ip: "i_dev (icache s ! i) = ROOTDEV" "i_type (icache s ! i) \<noteq> T_DEV"
    and hole: "off < i_size (icache s ! i)" "i_size (icache s ! i) < 2 ^ 32" "off div BSIZE < NDIRECT"
      "i_addrs (icache s ! i) ! (off div BSIZE) = 0"
  shows "readi dv i off 1 s = Panic ''log_write outside of trans''"
proof -
  have BPB: "BPB = 4096" by (simp add: BPB_def BSIZE_def)
  let ?K = "[0..<(sb_size (sb s) + BPB - 1) div BPB]"
  have "f div BPB \<in> set ?K" "f mod BPB < BPB" "f div BPB * BPB + f mod BPB = f" using inv(4) by (auto simp: BPB)
  with inv(4,5) have "\<exists>k\<in>set ?K. \<exists>bi<BPB. k * BPB + bi < sb_size (sb s) \<and> \<not> used s (k * BPB + bi)" by metis
  moreover have "\<forall>k\<in>set ?K. k * BPB < sb_size (sb s)" by (auto simp: BPB)
  ultimately have "balloc ROOTDEV s = Panic ''log_write outside of trans''"
    using balloc_no_trans [OF inv(1,3,2,6) quiet_refl [OF inv(1)]] by (simp add: balloc_def)
  then have "bmap i (off div BSIZE) s = Panic ''log_write outside of trans''"
    using hole(3,4) ip(1) by (simp add: bmap_def bmap_slot_def Let_def)
  moreover have "add32 off 1 = off + 1" using hole by (intro add32_small) simp
  ultimately show ?thesis using ip(2) hole by (simp add: readi_def Let_def readi_loop.simps)
qed

section \<open>The theorems on a concrete file\<close>

lemma sample_inode_ok: "inode_ok sample_inode"
  by (auto simp: inode_ok_def sample_inode_def short_ok_def T_FILE_def NDIRECT_def)

lemma sample_block: "block_addr (sample_fs n (sample_inode # ic) z) 0 0 = 100"
  "index_blocks (sample_fs n (sample_inode # ic) z) 0 0 = []"
  by (simp_all add: block_addr_def index_blocks_def addr_path_def NDIRECT_def sample_fs_sel sample_inode_def)

lemma sample_mapped: "mapped (sample_fs n (sample_inode # ic) z) 0 0"
  by (simp add: mapped_def sample_block addressable_def NDIRECT_def FSSIZE_def)

theorem iupdate_ilock_roundtrip_witness:
  "\<exists>t u. iupdate 0 (sample_fs 1 [sample_inode, sample_inode\<lparr>i_valid := False\<rparr>] ()) = Ok t \<and>
     ilock (Some 1) t = Ok u \<and> i_addrs (icache u ! 1) = i_addrs sample_inode"
proof -
  let ?s = "sample_fs 1 [sample_inode, sample_inode\<lparr>i_valid := False\<rparr>] ()"
  have B: "IBLOCK (i_inum (icache ?s ! 0)) (sb ?s) = 33"
    by (simp add: sample_fs_sel IBLOCK_def IPB_simps sample_inode_def sample_sb_def)
  note r = iupdate_ilock_roundtrip [of ?s 0 1, OF sample_fs_tx]
  have "\<exists>t u lk. iupdate 0 ?s = Ok t \<and> ilock (Some 1) t = Ok u \<and>
    icache u = (icache ?s)[1 := (copy_fields (icache ?s ! 0) (icache ?s ! 1))\<lparr>i_lock := lk, i_valid := True\<rparr>] \<and>
    (\<forall>n ip. n \<noteq> i_inum (icache ?s ! 0) \<longrightarrow> disk_inode t n ip = disk_inode ?s n ip)"
    by (rule r) (simp_all add: B, simp_all add: sample_fs_sel sample_inode_ok, simp_all add: sample_inode_def FSSIZE_def T_FILE_def)
  then show ?thesis by (auto simp: sample_fs_sel copy_fields_def)
qed

theorem bmap_triple_out_of_range_witness: "\<nexists>r. bmap 0 40000 (sample_fs 1 [sample_inode] ()) = Ok r"
  using bmap_triple_out_of_range [of 40000 0 "sample_fs 1 [sample_inode] ()"]
  by (simp add: NIND_simps NDIRECT_def MAXFILE_def)

theorem readi_reads_witness:
  "\<exists>t. readi (\<lambda>_. (None, None)) 0 1 2 (sample_fs 0 [sample_inode] ()) = Ok ((2, [0, 97]), t)"
proof -
  let ?s = "sample_fs 0 [sample_inode] ()"
  have m: "\<forall>k. 1 \<le> k \<and> k < 1 + 2 \<and> k < i_size (icache ?s ! 0) \<longrightarrow> mapped ?s 0 (k div BSIZE)"
    using sample_mapped [of 0 "[]"] by (auto simp: BSIZE_def)
  have "file_byte ?s 0 1 = 0" "file_byte ?s 0 (Suc (Suc 0)) = 97"
    by (simp_all add: file_byte_def BSIZE_def sample_block sample_fs_inv sample_disk_def)
  moreover have "[1..<3] = [1, 2 :: nat]" by (simp add: upt_rec)
  moreover have "i_size (icache ?s ! 0) = 1024" "i_dev (icache ?s ! 0) = ROOTDEV" "i_type (icache ?s ! 0) \<noteq> T_DEV"
    by (simp_all add: sample_fs_sel sample_inode_def T_FILE_def T_DEV_def)
  ultimately show ?thesis
    using readi_reads [OF sample_fs_inv(1) _ _ _ _ _ m, where dv = "\<lambda>_. (None, None)"] by auto
qed

theorem writei_readi_roundtrip_witness:
  "\<exists>t u. writei (\<lambda>_. (None, None)) 0 5 [7, 8, 9] (sample_fs 1 [sample_inode] ()) = Ok (3, t) \<and>
     readi (\<lambda>_. (None, None)) 0 5 3 t = Ok ((3, [7, 8, 9]), u)"
proof -
  let ?s = "sample_fs 1 [sample_inode] ()"
  have r: "range_blocks 5 (length [7, 8, 9 :: byte]) = {0}"
    by (auto simp: range_blocks_def BSIZE_def intro!: image_eqI [of _ _ 5])
  have w: "writable ?s 0 {0}" by (simp add: writable_def sample_mapped sample_block sample_fs_sel)
  have a: "inode_apart ?s 0 {0}"
    using sample_block [of 1 "[]" "()"]
    by (simp add: inode_apart_def sample_fs_sel IBLOCK_def IPB_simps sample_sb_def FSSIZE_def) (simp add: sample_inode_def)
  have ip: "i_dev (icache ?s ! 0) = ROOTDEV" "i_type (icache ?s ! 0) \<noteq> T_DEV" "inode_ok (icache ?s ! 0)"
    by (simp_all add: sample_fs_sel sample_inode_ok) (simp_all add: sample_inode_def T_FILE_def T_DEV_def)
  have b: "blocks_in 5 (length [7, 8, 9 :: byte]) + 1 \<le> tx_left ?s" by (simp add: blocks_in_def BSIZE_def sample_fs_sel)
  have "5 + length [7, 8, 9 :: byte] \<le> MAXFILE * BSIZE" by (simp add: MAXFILE_def NIND_simps NDIRECT_def BSIZE_def)
  from writei_readi_roundtrip [OF sample_fs_tx b _ ip this, unfolded r, OF _ _ _ w a, where dv = "\<lambda>_. (None, None)"]
  show ?thesis by (auto simp: sample_fs_sel numeral_3_eq_3)
qed

theorem readi_hole_panics_witness:
  "readi (\<lambda>_. (None, None)) 0 600 1 (sample_fs 0 [sample_inode] ()) = Panic ''log_write outside of trans''"
proof -
  let ?s = "sample_fs 0 [sample_inode] ()"
  have f: "100 < sb_size (sb ?s)" "\<not> used ?s 100" by (simp_all add: sample_fs_sel sample_sb_def sample_fs_used)
  show ?thesis
    by (rule readi_hole_panics [OF sample_fs_inv(1) _ sample_fs_layout f])
      (simp_all add: sample_fs_sel sample_inode_def LOGSIZE_def T_FILE_def T_DEV_def BSIZE_def NDIRECT_def)
qed

end
