(* ===== verification/Dir.thy ===== *)
theory Dir
  imports Fdata
begin

text \<open>
  \<^verbatim>\<open>fs.c\<close>, part 2: directories and path names.  A C string is the list of its bytes before the
  terminator; the \<open>name\<close> of a directory entry is the list of its \<open>DIRSIZ\<close> bytes.
\<close>

section \<open>Names\<close>

definition DIRSIZ :: nat where "DIRSIZ = 14"
definition DIRENT_SIZE :: nat where "DIRENT_SIZE = 2 + DIRSIZ"

definition hd0 :: "byte list \<Rightarrow> byte" where
  "hd0 xs = (case xs of [] \<Rightarrow> 0 | x # _ \<Rightarrow> x)"

fun strncmp_list :: "nat \<Rightarrow> byte list \<Rightarrow> byte list \<Rightarrow> int" where
  "strncmp_list 0 p q = 0"
| "strncmp_list (Suc n) p q =
     (if hd0 p \<noteq> 0 \<and> hd0 p = hd0 q then strncmp_list n (tl p) (tl q)
      else int (unat (hd0 p)) - int (unat (hd0 q)))"

definition namecmp :: "byte list \<Rightarrow> byte list \<Rightarrow> int" where
  "namecmp s t = strncmp_list DIRSIZ s t"

definition strncpy_list :: "nat \<Rightarrow> byte list \<Rightarrow> byte list" where
  "strncpy_list n t = take n t @ replicate (n - length t) 0"

section \<open>Directories\<close>

definition read_dirent :: "'z fs_st_scheme devsw \<Rightarrow> string \<Rightarrow> nat \<Rightarrow> nat \<Rightarrow> 'z fs_st_scheme \<Rightarrow>
    ((nat \<times> byte list) \<times> 'z fs_st_scheme) res" where
  "read_dirent dv msg dp off s =
     bnd (readi dv dp off DIRENT_SIZE s) (\<lambda>((r, d), s).
     if r \<noteq> int DIRENT_SIZE then Panic msg else Ok ((rd16 d 0, slice d 2 DIRSIZ), s))"

text \<open>The offsets of the entries: \<open>0, sizeof(de), ...\<close> below the size of the directory.\<close>

definition dir_offs :: "nat \<Rightarrow> nat list" where
  "dir_offs sz = map (\<lambda>k. k * DIRENT_SIZE) [0..<(sz + DIRENT_SIZE - 1) div DIRENT_SIZE]"

fun dirlookup_loop :: "'z fs_st_scheme devsw \<Rightarrow> nat \<Rightarrow> byte list \<Rightarrow> nat list \<Rightarrow> 'z fs_st_scheme \<Rightarrow>
    ((nat \<times> nat) option \<times> 'z fs_st_scheme) res" where
  "dirlookup_loop dv dp name [] s = Ok (None, s)"
| "dirlookup_loop dv dp name (off # offs) s =
     bnd (read_dirent dv ''dirlookup read'' dp off s) (\<lambda>((inum, dname), s).
     if inum \<noteq> 0 \<and> namecmp name dname = 0 then
       bnd (iget (i_dev (icache s ! dp)) inum s) (\<lambda>(ip, s). Ok (Some (ip, off), s))
     else dirlookup_loop dv dp name offs s)"

text \<open>\<open>dirlookup\<close> returns the inode and the offset that the source stores through \<open>poff\<close>.\<close>

definition dirlookup :: "'z fs_st_scheme devsw \<Rightarrow> nat \<Rightarrow> byte list \<Rightarrow> 'z fs_st_scheme \<Rightarrow>
    ((nat \<times> nat) option \<times> 'z fs_st_scheme) res" where
  "dirlookup dv dp name s =
     (if i_type (icache s ! dp) \<noteq> T_DIR then Panic ''dirlookup not DIR''
      else dirlookup_loop dv dp name (dir_offs (i_size (icache s ! dp))) s)"

fun dirlink_loop :: "'z fs_st_scheme devsw \<Rightarrow> nat \<Rightarrow> nat \<Rightarrow> nat list \<Rightarrow> 'z fs_st_scheme \<Rightarrow>
    (nat \<times> 'z fs_st_scheme) res" where
  "dirlink_loop dv dp end_off [] s = Ok (end_off, s)"
| "dirlink_loop dv dp end_off (off # offs) s =
     bnd (read_dirent dv ''dirlink read'' dp off s) (\<lambda>((inum, dname), s).
     if inum = 0 then Ok (off, s) else dirlink_loop dv dp end_off offs s)"

definition dirlink :: "'z fs_st_scheme devsw \<Rightarrow> nat \<Rightarrow> byte list \<Rightarrow> nat \<Rightarrow> 'z fs_st_scheme \<Rightarrow>
    (int \<times> 'z fs_st_scheme) res" where
  "dirlink dv dp name inum s =
     bnd (dirlookup dv dp name s) (\<lambda>(r, s).
     case r of Some (ip, off) \<Rightarrow> bnd (iput ip s) (\<lambda>s. Ok (-1, s))
     | None \<Rightarrow>
         let offs = dir_offs (i_size (icache s ! dp))
         in bnd (dirlink_loop dv dp (length offs * DIRENT_SIZE) offs s) (\<lambda>(off, s).
            bnd (writei dv dp off (le16 inum @ strncpy_list DIRSIZ name) s) (\<lambda>(r, s).
            if r \<noteq> int DIRENT_SIZE then Panic ''dirlink'' else Ok (0, s))))"

section \<open>Paths\<close>

definition slash :: byte where "slash = 47"

text \<open>\<open>skipelem\<close> returns the rest of the path and the element it copied to \<open>name\<close>.\<close>

definition skipelem :: "byte list \<Rightarrow> (byte list \<times> byte list) option" where
  "skipelem path =
     (let path = dropWhile (\<lambda>c. c = slash) path
      in if path = [] then None
         else let s = takeWhile (\<lambda>c. c \<noteq> slash) path; path = dropWhile (\<lambda>c. c \<noteq> slash) path
              in Some (dropWhile (\<lambda>c. c = slash) path, take DIRSIZ s))"

lemma skipelem_shorter:
  assumes "skipelem path = Some (rest, name)"
  shows "length rest < length path"
proof -
  let ?p = "dropWhile (\<lambda>c. c = slash) path"
  have p: "?p \<noteq> []" "rest = dropWhile (\<lambda>c. c = slash) (dropWhile (\<lambda>c. c \<noteq> slash) ?p)"
    using assms by (auto simp: skipelem_def Let_def split: if_splits)
  then have "hd ?p \<noteq> slash" using hd_dropWhile by fast
  with p(1) have "dropWhile (\<lambda>c. c \<noteq> slash) ?p = dropWhile (\<lambda>c. c \<noteq> slash) (tl ?p)"
    by (cases ?p) simp_all
  then have "length rest \<le> length (tl ?p)"
    using p(2) by (metis length_dropWhile_le order_trans)
  also have "\<dots> < length ?p" using p(1) by simp
  also have "\<dots> \<le> length path" by (rule length_dropWhile_le)
  finally show ?thesis .
qed

function namex_loop :: "'z fs_st_scheme devsw \<Rightarrow> bool \<Rightarrow> byte list \<Rightarrow> byte list \<Rightarrow> nat \<Rightarrow> 'z fs_st_scheme \<Rightarrow>
    ((nat option \<times> byte list) \<times> 'z fs_st_scheme) res" where
  "namex_loop dv parent path name ip s =
     (case skipelem path of
        None \<Rightarrow>
          if parent then bnd (iput ip s) (\<lambda>s. Ok ((None, name), s)) else Ok ((Some ip, name), s)
      | Some (path, name) \<Rightarrow>
          bnd (ilock (Some ip) s) (\<lambda>s.
          if i_type (icache s ! ip) \<noteq> T_DIR then bnd (iunlockput ip s) (\<lambda>s. Ok ((None, name), s))
          else if parent \<and> path = [] then bnd (iunlock (Some ip) s) (\<lambda>s. Ok ((Some ip, name), s))
          else bnd (dirlookup dv ip name s) (\<lambda>(r, s).
               case r of None \<Rightarrow> bnd (iunlockput ip s) (\<lambda>s. Ok ((None, name), s))
               | Some (nxt, off) \<Rightarrow> bnd (iunlockput ip s) (namex_loop dv parent path name nxt))))"
  by pat_completeness auto
termination
  by (relation "measure (\<lambda>(dv, parent, path, name, ip, s). length path)") (auto dest: skipelem_shorter)

declare namex_loop.simps [simp del]

definition namex :: "'z fs_st_scheme devsw \<Rightarrow> byte list \<Rightarrow> bool \<Rightarrow> 'z fs_st_scheme \<Rightarrow>
    ((nat option \<times> byte list) \<times> 'z fs_st_scheme) res" where
  "namex dv path parent s =
     bnd (if path \<noteq> [] \<and> hd path = slash then iget ROOTDEV ROOTINO s
          else bnd (curproc s) (\<lambda>p.
               case p_cwd (ptable s ! p) of None \<Rightarrow> Fault ''cwd: null'' | Some d \<Rightarrow> Ok (idup d s)))
       (\<lambda>(ip, s). namex_loop dv parent path [] ip s)"

definition namei :: "'z fs_st_scheme devsw \<Rightarrow> byte list \<Rightarrow> 'z fs_st_scheme \<Rightarrow>
    (nat option \<times> 'z fs_st_scheme) res" where
  "namei dv path s = bnd (namex dv path False s) (\<lambda>((ip, name), s). Ok (ip, s))"

definition nameiparent :: "'z fs_st_scheme devsw \<Rightarrow> byte list \<Rightarrow> 'z fs_st_scheme \<Rightarrow>
    ((nat option \<times> byte list) \<times> 'z fs_st_scheme) res" where
  "nameiparent dv path s = namex dv path True s"

section \<open>Path elements\<close>

text \<open>The elements that repeated calls of \<open>skipelem\<close> return.\<close>

function path_names :: "byte list \<Rightarrow> byte list list" where
  "path_names path = (case skipelem path of None \<Rightarrow> [] | Some (rest, name) \<Rightarrow> name # path_names rest)"
  by pat_completeness auto
termination
  by (relation "measure length") (auto dest: skipelem_shorter)

declare path_names.simps [simp del]

text \<open>The reference: split the path at every slash and drop the empty pieces.\<close>

fun split_path :: "byte list \<Rightarrow> byte list list" where
  "split_path [] = [[]]"
| "split_path (c # cs) =
     (if c = slash then [] # split_path cs
      else case split_path cs of e # es \<Rightarrow> (c # e) # es | [] \<Rightarrow> [[c]])"

definition elements :: "byte list \<Rightarrow> byte list list" where
  "elements path = filter (\<lambda>e. e \<noteq> []) (split_path path)"

lemma split_path_ne [simp]: "split_path path \<noteq> []"
  by (cases path) (auto split: list.splits)

lemma split_path_Cons:
  "split_path path = takeWhile (\<lambda>c. c \<noteq> slash) path #
     (case dropWhile (\<lambda>c. c \<noteq> slash) path of [] \<Rightarrow> [] | _ # r \<Rightarrow> split_path r)"
  by (induction path) (auto split: list.splits)

lemma elements_slash: "elements (dropWhile (\<lambda>c. c = slash) path) = elements path"
  by (induction path) (auto simp: elements_def)

lemma elements_Nil [simp]: "elements [] = []"
  by (simp add: elements_def)

lemma skipelem_elements:
  "elements path = (case skipelem path of None \<Rightarrow> [] | Some (rest, name) \<Rightarrow>
     takeWhile (\<lambda>c. c \<noteq> slash) (dropWhile (\<lambda>c. c = slash) path) # elements rest)"
proof (cases "dropWhile (\<lambda>c. c = slash) path")
  case Nil
  have "elements path = []" using elements_slash [of path] unfolding Nil by simp
  with Nil show ?thesis by (simp add: skipelem_def Let_def)
next
  case (Cons c cs)
  then have c: "c \<noteq> slash" using hd_dropWhile [of "\<lambda>c. c = slash" path] by simp
  let ?d = "dropWhile (\<lambda>c. c \<noteq> slash) (c # cs)"
  have "elements (c # cs) = takeWhile (\<lambda>c. c \<noteq> slash) (c # cs) # (case ?d of [] \<Rightarrow> [] | _ # r \<Rightarrow> elements r)"
    using c unfolding elements_def
    by (subst split_path_Cons, cases "dropWhile (\<lambda>c. c \<noteq> slash) cs") (simp_all del: dropWhile_eq_Nil_conv)
  also have "(case ?d of [] \<Rightarrow> [] | _ # r \<Rightarrow> elements r) = elements (dropWhile (\<lambda>c. c = slash) ?d)"
  proof (cases ?d)
    case (Cons x r)
    then have "x = slash" using hd_dropWhile [of "\<lambda>c. c \<noteq> slash" "c # cs"] by simp
    then show ?thesis using Cons elements_slash [of r] by simp
  qed simp
  finally show ?thesis using elements_slash [of path] by (simp add: skipelem_def Let_def Cons)
qed

text \<open>
  C33.  Path names.  Repeated calls of \<open>skipelem\<close> return exactly the non-empty pieces of the path between
  slashes, in order, each cut to \<open>DIRSIZ\<close> bytes.
\<close>

theorem skipelem_splits_path: "path_names path = map (take DIRSIZ) (elements path)"
proof (induction path rule: path_names.induct)
  case (1 path)
  show ?case
  proof (cases "skipelem path")
    case None
    then show ?thesis by (subst path_names.simps, subst skipelem_elements) simp
  next
    case (Some p)
    then obtain rest name where p: "skipelem path = Some (rest, name)" by (cases p) auto
    then have "name = take DIRSIZ (takeWhile (\<lambda>c. c \<noteq> slash) (dropWhile (\<lambda>c. c = slash) path))"
      by (auto simp: skipelem_def Let_def split: if_splits)
    with p 1 [OF p] show ?thesis by (subst path_names.simps, subst skipelem_elements) simp
  qed
qed

section \<open>Looking up a name\<close>

lemma strncmp_list_0:
  "strncmp_list n p q = 0 \<longleftrightarrow> takeWhile (\<lambda>c. c \<noteq> 0) (take n p) = takeWhile (\<lambda>c. c \<noteq> 0) (take n q)"
proof (induction n arbitrary: p q)
  case (Suc n)
  have h: "int (unat (a :: byte)) - int (unat b) = 0 \<longleftrightarrow> a = b" for a b
    by (metis eq_iff_diff_eq_0 of_nat_eq_iff word_unat_eq_iff)
  have t: "takeWhile (\<lambda>c. c \<noteq> 0) (take (Suc n) r) =
    (if hd0 r = 0 then [] else hd0 r # takeWhile (\<lambda>c. c \<noteq> 0) (take n (tl r)))" for r
    by (cases r) (simp_all add: hd0_def)
  show ?case
  proof (cases "hd0 p \<noteq> 0 \<and> hd0 p = hd0 q")
    case True
    then show ?thesis by (simp add: t Suc)
  next
    case False
    then have "strncmp_list (Suc n) p q = 0 \<longleftrightarrow> hd0 p = hd0 q" unfolding strncmp_list.simps h [symmetric] by (simp only: if_False)
    with False show ?thesis by (auto simp: t)
  qed
qed simp

definition dirent :: "'z fs_st_scheme \<Rightarrow> nat \<Rightarrow> nat \<Rightarrow> nat \<times> byte list" where
  "dirent s dp off = (let d = map (file_byte s dp) [off..<off + DIRENT_SIZE] in (rd16 d 0, slice d 2 DIRSIZ))"

definition dir_ok :: "'z fs_st_scheme \<Rightarrow> nat \<Rightarrow> bool" where
  "dir_ok s dp \<longleftrightarrow> i_dev (icache s ! dp) = ROOTDEV \<and> i_type (icache s ! dp) = T_DIR \<and>
     i_size (icache s ! dp) < 2 ^ 31 \<and> DIRENT_SIZE dvd i_size (icache s ! dp) \<and>
     (\<forall>k<i_size (icache s ! dp). mapped s dp (k div BSIZE))"

lemma dir_quiet: "quiet s t \<Longrightarrow> dir_ok t dp = dir_ok s dp \<and> dirent t dp = dirent s dp"
  using fs_quiet [of s t] by (simp add: dir_ok_def dirent_def [abs_def])

lemma read_dirent_spec:
  assumes "log_inv s {}" "dir_ok s dp" "off + DIRENT_SIZE \<le> i_size (icache s ! dp)"
  shows "\<exists>t. read_dirent dv m dp off s = Ok (dirent s dp off, t) \<and> quiet s t"
proof -
  have ip: "i_dev (icache s ! dp) = ROOTDEV" "i_type (icache s ! dp) \<noteq> T_DEV" "i_size (icache s ! dp) < 2 ^ 31"
    using assms(2) by (auto simp: dir_ok_def T_DIR_def T_DEV_def)
  have "\<forall>k. off \<le> k \<and> k < off + DIRENT_SIZE \<longrightarrow> mapped s dp (k div BSIZE)" using assms(2,3) by (auto simp: dir_ok_def)
  from readi_loop_spec [OF assms(1) ip(1) this] obtain t where
    t: "readi_loop dp off DIRENT_SIZE s = Ok (map (file_byte s dp) [off..<off + DIRENT_SIZE], t)" "quiet s t" by blast
  have "add32 off DIRENT_SIZE = off + DIRENT_SIZE" using ip(3) assms(3) by (intro add32_small) simp
  then have "readi dv dp off DIRENT_SIZE s = Ok ((int DIRENT_SIZE, map (file_byte s dp) [off..<off + DIRENT_SIZE]), t)"
    using ip t(1) assms(3) by (simp add: readi_def Let_def)
  with t(2) show ?thesis by (simp add: read_dirent_def dirent_def Let_def)
qed

definition name_at :: "'z fs_st_scheme \<Rightarrow> nat \<Rightarrow> byte list \<Rightarrow> nat \<Rightarrow> bool" where
  "name_at s dp name off \<longleftrightarrow> fst (dirent s dp off) \<noteq> 0 \<and>
     takeWhile (\<lambda>c. c \<noteq> 0) (take DIRSIZ (snd (dirent s dp off))) = takeWhile (\<lambda>c. c \<noteq> 0) (take DIRSIZ name)"

lemma dirlookup_loop_spec:
  assumes "log_inv s {}" "dir_ok s dp" "\<forall>off\<in>set offs. off + DIRENT_SIZE \<le> i_size (icache s ! dp)"
  shows "\<exists>t. quiet s t \<and> dirlookup_loop dv dp name offs s =
    (case find (name_at s dp name) offs of None \<Rightarrow> Ok (None, t)
     | Some off \<Rightarrow> bnd (iget ROOTDEV (fst (dirent s dp off)) t) (\<lambda>(ip, u). Ok (Some (ip, off), u)))"
  using assms
proof (induction offs arbitrary: s)
  case Nil
  then show ?case using quiet_refl by auto
next
  case (Cons off offs)
  note A = Cons.prems
  have "off + DIRENT_SIZE \<le> i_size (icache s ! dp)" using A(3) by simp
  from read_dirent_spec [OF A(1,2) this, of dv "''dirlookup read''"] obtain t where
    t: "read_dirent dv ''dirlookup read'' dp off s = Ok (dirent s dp off, t)" "quiet s t" by blast
  note q = fs_quiet(1) [OF t(2)] dir_quiet [OF t(2), of dp]
  have na: "name_at t dp name = name_at s dp name" using q by (simp add: name_at_def fun_eq_iff)
  have m: "name_at s dp name off \<longleftrightarrow> fst (dirent s dp off) \<noteq> 0 \<and> namecmp name (snd (dirent s dp off)) = 0"
    by (auto simp: name_at_def namecmp_def strncmp_list_0)
  show ?case
  proof (cases "name_at s dp name off")
    case True
    then show ?thesis using t m A(2) q(1) by (intro exI [of _ t]) (auto simp: split_beta dir_ok_def)
  next
    case False
    from Cons.IH [OF quietD(2) [OF t(2)], unfolded q(1) na conjunct2 [OF q(2)]] A(2,3) q(2) obtain u where "quiet t u"
      "dirlookup_loop dv dp name offs t = (case find (name_at s dp name) offs of None \<Rightarrow> Ok (None, u)
       | Some off \<Rightarrow> bnd (iget ROOTDEV (fst (dirent s dp off)) u) (\<lambda>(ip, u). Ok (Some (ip, off), u)))" by auto
    with False t m quiet_trans [OF t(2)] show ?thesis by (intro exI [of _ u]) (auto simp: split_beta)
  qed
qed

lemma dir_offs_bound:
  assumes "DIRENT_SIZE dvd sz" "off \<in> set (dir_offs sz)"
  shows "off + DIRENT_SIZE \<le> sz"
proof -
  obtain q where "sz = DIRENT_SIZE * q" using assms(1) by (elim dvdE)
  with assms(2) show ?thesis by (auto simp: dir_offs_def DIRENT_SIZE_def DIRSIZ_def)
qed

text \<open>
  C34.  Directory lookup.  In a well-formed directory, \<open>dirlookup\<close> scans the entries in order and returns the inode
  number (through \<open>iget\<close>) and the offset of the first entry in use whose name agrees with the given name up to
  \<open>DIRSIZ\<close> bytes, and null if there is none; it changes no block.
\<close>

theorem dirlookup_finds:
  assumes "log_inv s {}" "dir_ok s dp"
  shows "\<exists>t. content t = content s \<and> icache t = icache s \<and> dirlookup dv dp name s =
    (case find (name_at s dp name) (dir_offs (i_size (icache s ! dp))) of None \<Rightarrow> Ok (None, t)
     | Some off \<Rightarrow> bnd (iget ROOTDEV (fst (dirent s dp off)) t) (\<lambda>(ip, u). Ok (Some (ip, off), u)))"
proof -
  have "\<forall>off\<in>set (dir_offs (i_size (icache s ! dp))). off + DIRENT_SIZE \<le> i_size (icache s ! dp)"
    using assms(2) dir_offs_bound by (auto simp: dir_ok_def)
  from dirlookup_loop_spec [OF assms this] obtain t where "quiet s t"
    "dirlookup_loop dv dp name (dir_offs (i_size (icache s ! dp))) s =
      (case find (name_at s dp name) (dir_offs (i_size (icache s ! dp))) of None \<Rightarrow> Ok (None, t)
       | Some off \<Rightarrow> bnd (iget ROOTDEV (fst (dirent s dp off)) t) (\<lambda>(ip, u). Ok (Some (ip, off), u)))" by blast
  then show ?thesis
    using quietD(3) fs_quiet(1) assms(2) by (intro exI [of _ t]) (auto simp: dirlookup_def dir_ok_def)
qed

theorem dirlookup_finds_witness:
  "\<exists>t. dirlookup (\<lambda>_. (None, None)) 0 [97] (sample_fs 0 [sample_inode\<lparr>i_type := T_DIR, i_size := 32\<rparr>] ()) =
     bnd (iget ROOTDEV 5 t) (\<lambda>(ip, u). Ok (Some (ip, 0), u))"
proof -
  let ?s = "sample_fs 0 [sample_inode\<lparr>i_type := T_DIR, i_size := 32\<rparr>] ()"
  have b: "block_addr ?s 0 0 = 100" "index_blocks ?s 0 0 = []"
    by (simp_all add: block_addr_def index_blocks_def addr_path_def NDIRECT_def sample_fs_sel sample_inode_def)
  have "mapped ?s 0 0" by (simp add: mapped_def b addressable_def NDIRECT_def FSSIZE_def)
  then have d: "dir_ok ?s 0"
    by (auto simp: dir_ok_def sample_fs_sel sample_inode_def DIRENT_SIZE_def DIRSIZ_def BSIZE_def)
  have fb: "file_byte ?s 0 k = ([5, 0, 97] @ replicate 509 0) ! k" if "k < 512" for k
    using that by (simp add: file_byte_def b BSIZE_def sample_fs_inv sample_disk_def)
  have "map (file_byte ?s 0) [0..<16] = [5, 0, 97] @ replicate 13 0"
    by (intro nth_equalityI) (auto simp: fb nth_Cons split: nat.split)
  then have "dirent ?s 0 0 = (rd16 ([5, 0, 97] @ replicate 13 0) 0, slice ([5, 0, 97] @ replicate 13 0) 2 14)"
    unfolding dirent_def DIRENT_SIZE_def DIRSIZ_def Let_def by simp
  then have e: "dirent ?s 0 0 = (5, 97 # replicate 13 0)" by (simp add: rd16_def slice_def)
  have "dir_offs 32 = [0, 16]" by (simp add: dir_offs_def DIRENT_SIZE_def DIRSIZ_def upt_rec)
  with dirlookup_finds [OF sample_fs_inv(1) d, of "\<lambda>_. (None, None)" "[97]"] show ?thesis
    by (auto simp: name_at_def e sample_fs_sel DIRSIZ_def)
qed

end
