(* ===== verification/Fifo.thy ===== *)
theory Fifo
  imports Base
begin

text \<open>
  Bounded queues in ring buffers.  The kernel has three of them: the bytes of a pipe, the
  integer queue of \<^verbatim>\<open>proc.c\<close>, and the input line of the console.  \<open>ring\<close> is the list of elements that
  a ring buffer holds; the locale \<open>fifo\<close> is what their users rely on.
\<close>

section \<open>Ring buffers\<close>

definition ring :: "nat \<Rightarrow> 'a list \<Rightarrow> nat \<Rightarrow> nat \<Rightarrow> 'a list" where
  "ring N buf r n = map (\<lambda>k. buf ! ((r + k) mod N)) [0..<n]"

lemma length_ring [simp]: "length (ring N buf r n) = n"
  by (simp add: ring_def)

lemma ring_0 [simp]: "ring N buf r 0 = []"
  by (simp add: ring_def)

lemma ring_mod [simp]: "ring N buf (r mod N) n = ring N buf r n"
  by (simp add: ring_def mod_add_left_eq)

lemma ring_slots_differ:
  assumes "k < n" "n < (N::nat)"
  shows "(r + k) mod N \<noteq> (r + n) mod N"
proof
  assume "(r + k) mod N = (r + n) mod N"
  then have "N dvd (r + n) - (r + k)" using assms mod_eq_dvd_iff_nat [of "r + k" "r + n" N] by simp
  then have "N dvd n - k" by simp
  then show False using assms by (auto dest: dvd_imp_le)
qed

lemma ring_put:
  assumes "n < N" "N \<le> length buf"
  shows "ring N (buf[(r + n) mod N := x]) r (Suc n) = ring N buf r n @ [x]"
proof -
  have "(r + n) mod N < N" using assms by simp
  then have "(r + n) mod N < length buf" using assms(2) by (rule less_le_trans)
  moreover have "buf[(r + n) mod N := x] ! ((r + k) mod N) = buf ! ((r + k) mod N)" if "k < n" for k
    using ring_slots_differ [OF that assms(1), of r] by simp
  ultimately show ?thesis by (simp add: ring_def)
qed

lemma ring_get: "ring N buf r (Suc n) = buf ! (r mod N) # ring N buf (r + 1) n"
proof -
  have "[0..<Suc n] = 0 # map Suc [0..<n]" by (simp add: map_Suc_upt upt_conv_Cons)
  then show ?thesis by (simp add: ring_def del: upt_Suc)
qed

text \<open>The elements between two counters that run modulo \<open>2 ^ 32\<close>, a multiple of the size of the buffer.\<close>

definition cring :: "nat \<Rightarrow> 'a list \<Rightarrow> u32 \<Rightarrow> u32 \<Rightarrow> 'a list" where
  "cring N buf r w = ring N buf (unat r) (unat (w - r))"

lemma length_cring [simp]: "length (cring N buf r w) = unat (w - r)"
  by (simp add: cring_def)

lemma cring_empty_iff: "cring N buf r w = [] \<longleftrightarrow> w = r"
  by (auto simp: cring_def ring_def unsigned_eq_0_iff)

lemma counter_slot: "N dvd 2 ^ 32 \<Longrightarrow> unat (a + b :: u32) mod N = (unat a + unat b) mod N"
  by (simp add: unat_word_ariths mod_mod_cancel)

lemma counter_next: "unat (w - r :: u32) < N \<Longrightarrow> N < 2 ^ 32 \<Longrightarrow> unat (w + 1 - r) = Suc (unat (w - r))"
proof -
  assume "unat (w - r) < N" "N < 2 ^ 32"
  then have "w - r \<noteq> - 1" by (auto simp: unsigned_minus_1_eq_mask mask_eq_exp_minus_1)
  then have "1 + (w - r) \<noteq> 0" by (metis add_eq_0_iff)
  then have "unat (1 + (w - r)) = Suc (unat (w - r))" by (rule unatSuc)
  then show ?thesis by (simp add: algebra_simps)
qed

lemma counter_pred: "(d :: u32) \<noteq> 0 \<Longrightarrow> unat d = Suc (unat (d - 1))"
proof -
  assume d: "d \<noteq> 0"
  then have "unat d \<noteq> 0" by (simp add: unsigned_eq_0_iff)
  with unat_minus_one [OF d] show ?thesis by simp
qed

lemma cring_put:
  assumes "N dvd 2 ^ 32" "N < 2 ^ 32" "length buf = N" "unat (w - r) < N"
  shows "cring N (buf[unat w mod N := x]) r (w + 1) = cring N buf r w @ [x]"
proof -
  have "unat w mod N = (unat r + unat (w - r)) mod N" using counter_slot [OF assms(1), of r "w - r"] by simp
  then show ?thesis using ring_put [of "unat (w - r)" N buf "unat r" x] assms counter_next [OF assms(4,2)]
    by (simp add: cring_def)
qed

lemma cring_get:
  assumes "N dvd 2 ^ 32" "w \<noteq> r"
  shows "unat (w - r) = Suc (unat (w - (r + 1)))" "cring N buf r w = buf ! (unat r mod N) # cring N buf (r + 1) w"
proof -
  have "w - (r + 1) = w - r - 1" by simp
  then show c: "unat (w - r) = Suc (unat (w - (r + 1)))" using counter_pred [of "w - r"] assms by (simp only: right_minus_eq) simp
  have "ring N buf (unat (r + 1)) n = ring N buf (unat r + 1) n" for n
    using ring_mod [of N buf "unat (r + 1)" n] ring_mod [of N buf "unat r + 1" n] counter_slot [OF assms(1), of r 1] by simp
  then show "cring N buf r w = buf ! (unat r mod N) # cring N buf (r + 1) w" by (simp add: cring_def c ring_get)
qed

lemma cring_unput:
  assumes "w \<noteq> r"
  shows "unat (w - r) = Suc (unat (w - 1 - r))" "cring N buf r (w - 1) = butlast (cring N buf r w)"
proof -
  have "w - 1 - r = w - r - 1" by simp
  then show c: "unat (w - r) = Suc (unat (w - 1 - r))" using counter_pred [of "w - r"] assms by (simp only: right_minus_eq) simp
  show "cring N buf r (w - 1) = butlast (cring N buf r w)" unfolding cring_def c by (simp add: ring_def)
qed

section \<open>The interface\<close>

locale fifo =
  fixes inv :: "'s \<Rightarrow> bool"
    and contents :: "'s \<Rightarrow> 'a list"
    and put :: "'a \<Rightarrow> 's \<Rightarrow> 's"
    and get :: "'s \<Rightarrow> 'a \<times> 's"
    and room :: nat
  assumes put_law: "inv s \<Longrightarrow> length (contents s) < room \<Longrightarrow> inv (put x s) \<and> contents (put x s) = contents s @ [x]"
    and get_law: "inv s \<Longrightarrow> contents s = x # xs \<Longrightarrow>
      fst (get s) = x \<and> inv (snd (get s)) \<and> contents (snd (get s)) = xs"
begin

fun gets :: "nat \<Rightarrow> 's \<Rightarrow> 'a list \<times> 's" where
  "gets 0 s = ([], s)"
| "gets (Suc n) s = (let (x, s) = get s; (xs, s) = gets n s in (x # xs, s))"

lemma puts_spec:
  "inv s \<Longrightarrow> length (contents s) + length xs \<le> room \<Longrightarrow>
   inv (fold put xs s) \<and> contents (fold put xs s) = contents s @ xs"
  by (induction xs arbitrary: s) (auto simp: put_law)

lemma gets_spec:
  "inv s \<Longrightarrow> n \<le> length (contents s) \<Longrightarrow>
   fst (gets n s) = take n (contents s) \<and> inv (snd (gets n s)) \<and> contents (snd (gets n s)) = drop n (contents s)"
proof (induction n arbitrary: s)
  case (Suc n)
  then obtain x xs where c: "contents s = x # xs" by (cases "contents s") auto
  with Suc.prems get_law [OF _ c] have "inv (snd (get s))" "contents (snd (get s)) = xs" "fst (get s) = x" by auto
  with Suc.IH [of "snd (get s)"] Suc.prems c show ?case by (auto simp: split_def Let_def)
qed simp

text \<open>What was put into an empty queue comes out, in order.\<close>

lemma puts_gets:
  assumes "inv s" "contents s = []" "length xs \<le> room"
  shows "fst (gets (length xs) (fold put xs s)) = xs"
  using puts_spec [OF assms(1), of xs] gets_spec [of "fold put xs s" "length xs"] assms by simp

end

end
