(* ===== verification/File.thy ===== *)
theory File
  imports Dir Fifo
begin

text \<open>
  \<^verbatim>\<open>file.c\<close> and \<^verbatim>\<open>pipe.c\<close>: the table of open files, reads and writes at the file offset and at
  given offsets (\<open>pread\<close>, \<open>pwrite\<close>), and pipes.  A pipe is known by the address of the page it
  lives in; its counters are 32-bit words and wrap around.
\<close>

section \<open>Files and pipes\<close>

definition NFILE :: nat where "NFILE = 100"
definition PIPESIZE :: nat where "PIPESIZE = 512"

datatype fd_type = FD_NONE | FD_PIPE | FD_INODE

record ofile =
  f_type :: fd_type
  f_ref :: int
  f_readable :: bool
  f_writable :: bool
  f_pipe :: u32
  f_ip :: nat
  f_off :: nat

record pipe =
  pi_data :: "byte list"
  nread :: u32
  nwrite :: u32
  readopen :: bool
  writeopen :: bool

record file_st = fs_st +
  ftable :: "ofile list"
  pipes :: "u32 \<Rightarrow> pipe"

definition upd_file :: "nat \<Rightarrow> (ofile \<Rightarrow> ofile) \<Rightarrow> 'z file_st_scheme \<Rightarrow> 'z file_st_scheme" where
  "upd_file i f s = s\<lparr>ftable := (ftable s)[i := f (ftable s ! i)]\<rparr>"

definition upd_pipe :: "u32 \<Rightarrow> (pipe \<Rightarrow> pipe) \<Rightarrow> 'z file_st_scheme \<Rightarrow> 'z file_st_scheme" where
  "upd_pipe p f s = s\<lparr>pipes := (pipes s)(p := f (pipes s p))\<rparr>"

definition filealloc :: "'z file_st_scheme \<Rightarrow> nat option \<times> 'z file_st_scheme" where
  "filealloc s =
     (case find_idx (\<lambda>f. f_ref f = 0) (ftable s) of
        Some i \<Rightarrow> (Some i, upd_file i (\<lambda>f. f\<lparr>f_ref := 1\<rparr>) s)
      | None \<Rightarrow> (None, s))"

definition filedup :: "nat \<Rightarrow> 'z file_st_scheme \<Rightarrow> (nat \<times> 'z file_st_scheme) res" where
  "filedup i s =
     (if f_ref (ftable s ! i) < 1 then Panic ''filedup''
      else Ok (i, upd_file i (\<lambda>f. f\<lparr>f_ref := f_ref f + 1\<rparr>) s))"

definition pipeclose :: "u32 \<Rightarrow> bool \<Rightarrow> 'z file_st_scheme \<Rightarrow> 'z file_st_scheme res" where
  "pipeclose p w s =
     bnd (if w
          then wakeup (PipeReadChan (unat p)) (upd_pipe p (\<lambda>x. x\<lparr>writeopen := False\<rparr>) s)
          else wakeup (PipeWriteChan (unat p)) (upd_pipe p (\<lambda>x. x\<lparr>readopen := False\<rparr>) s)) (\<lambda>s.
     if \<not> readopen (pipes s p) \<and> \<not> writeopen (pipes s p) then kfree s p else Ok s)"

definition fileclose :: "nat \<Rightarrow> 'z file_st_scheme \<Rightarrow> 'z file_st_scheme res" where
  "fileclose i s =
     (if f_ref (ftable s ! i) < 1 then Panic ''fileclose''
      else let s = upd_file i (\<lambda>f. f\<lparr>f_ref := f_ref f - 1\<rparr>) s
           in if f_ref (ftable s ! i) > 0 then Ok s
              else let ff = ftable s ! i; s = upd_file i (\<lambda>f. f\<lparr>f_ref := 0, f_type := FD_NONE\<rparr>) s
                   in case f_type ff of
                        FD_PIPE \<Rightarrow> pipeclose (f_pipe ff) (f_writable ff) s
                      | FD_INODE \<Rightarrow> bnd (begin_op s) (\<lambda>s. bnd (iput (f_ip ff) s) end_op)
                      | FD_NONE \<Rightarrow> Ok s)"

definition filestat :: "nat \<Rightarrow> 'z file_st_scheme \<Rightarrow> (stat option \<times> 'z file_st_scheme) res" where
  "filestat i s =
     (let f = ftable s ! i
      in if f_type f = FD_INODE then
           bnd (ilock (Some (f_ip f)) s) (\<lambda>s.
           let st = stati (f_ip f) s
           in bnd (iunlock (Some (f_ip f)) s) (\<lambda>s. Ok (Some st, s)))
         else Ok (None, s))"

section \<open>Pipes\<close>

text \<open>The files and the pipe are set up only when all three allocations succeed; otherwise what was allocated is released.\<close>

definition close_opt :: "nat option \<Rightarrow> 'z file_st_scheme \<Rightarrow> 'z file_st_scheme res" where
  "close_opt f s = (case f of Some i \<Rightarrow> fileclose i s | None \<Rightarrow> Ok s)"

definition pipealloc :: "'z file_st_scheme \<Rightarrow> ((nat \<times> nat) option \<times> 'z file_st_scheme) res" where
  "pipealloc s =
     (let (f0, s) = filealloc s;
          (f1, s) = (if f0 = None then (None, s) else filealloc s);
          (p, s) = (if f0 = None \<or> f1 = None then (0, s) else kalloc s)
      in if p = 0 then bnd (close_opt f0 s) (\<lambda>s. bnd (close_opt f1 s) (\<lambda>s. Ok (None, s)))
         else let s = upd_pipe p (\<lambda>x. x\<lparr>readopen := True, writeopen := True, nwrite := 0, nread := 0\<rparr>) s;
                  s = upd_file (the f0) (\<lambda>f. f\<lparr>f_type := FD_PIPE, f_readable := True, f_writable := False, f_pipe := p\<rparr>) s;
                  s = upd_file (the f1) (\<lambda>f. f\<lparr>f_type := FD_PIPE, f_readable := False, f_writable := True, f_pipe := p\<rparr>) s
              in Ok (Some (the f0, the f1), s))"

text \<open>
  A call that has to wait for the other end stops with \<open>Waits\<close> (for a write, with the number of bytes already in
  the pipe); when the process is woken up it goes on from there.
\<close>

datatype 'a call = Returns 'a | Waits nat

definition put_byte :: "byte \<Rightarrow> pipe \<Rightarrow> pipe" where
  "put_byte b x = x\<lparr>pi_data := (pi_data x)[unat (nwrite x) mod PIPESIZE := b], nwrite := nwrite x + 1\<rparr>"

fun pipewrite_loop :: "u32 \<Rightarrow> byte list \<Rightarrow> nat \<Rightarrow> 'z file_st_scheme \<Rightarrow> (int call \<times> 'z file_st_scheme) res" where
  "pipewrite_loop p [] i s = bnd (wakeup (PipeReadChan (unat p)) s) (\<lambda>s. Ok (Returns (int i), s))"
| "pipewrite_loop p (b # bs) i s =
     (if nwrite (pipes s p) = nread (pipes s p) + of_nat PIPESIZE then
        if \<not> readopen (pipes s p) then Ok (Returns (-1), s)
        else bnd (curproc s) (\<lambda>c.
             if p_killed (ptable s ! c) then Ok (Returns (-1), s)
             else bnd (wakeup (PipeReadChan (unat p)) s) (\<lambda>s. Ok (Waits i, s)))
      else pipewrite_loop p bs (Suc i) (upd_pipe p (put_byte b) s))"

fun take_bytes :: "nat \<Rightarrow> pipe \<Rightarrow> byte list \<times> pipe" where
  "take_bytes 0 x = ([], x)"
| "take_bytes (Suc n) x =
     (if nread x = nwrite x then ([], x)
      else let b = pi_data x ! (unat (nread x) mod PIPESIZE); (bs, x) = take_bytes n (x\<lparr>nread := nread x + 1\<rparr>)
           in (b # bs, x))"

definition piperead_loop :: "u32 \<Rightarrow> nat \<Rightarrow> 'z file_st_scheme \<Rightarrow> ((int \<times> byte list) call \<times> 'z file_st_scheme) res" where
  "piperead_loop p n s =
     (if nread (pipes s p) = nwrite (pipes s p) \<and> writeopen (pipes s p) then
        bnd (curproc s) (\<lambda>c.
        if p_killed (ptable s ! c) then Ok (Returns (-1, []), s) else Ok (Waits 0, s))
      else let (bs, x) = take_bytes n (pipes s p); s = upd_pipe p (\<lambda>_. x) s
           in bnd (wakeup (PipeWriteChan (unat p)) s) (\<lambda>s. Ok (Returns (int (length bs), bs), s)))"

text \<open>The calls as the file layer sees them: to wait is \<open>Sleeps\<close>.\<close>

definition pipewrite :: "u32 \<Rightarrow> byte list \<Rightarrow> 'z file_st_scheme \<Rightarrow> (int \<times> 'z file_st_scheme) res" where
  "pipewrite p bs s =
     bnd (pipewrite_loop p bs 0 s) (\<lambda>(c, s).
     case c of Returns r \<Rightarrow> Ok (r, s) | Waits i \<Rightarrow> Sleeps (PipeWriteChan (unat p)))"

definition piperead :: "u32 \<Rightarrow> nat \<Rightarrow> 'z file_st_scheme \<Rightarrow> ((int \<times> byte list) \<times> 'z file_st_scheme) res" where
  "piperead p n s =
     bnd (piperead_loop p n s) (\<lambda>(c, s).
     case c of Returns r \<Rightarrow> Ok (r, s) | Waits i \<Rightarrow> Sleeps (PipeReadChan (unat p)))"

section \<open>Reading and writing open files\<close>

definition fileread :: "'z file_st_scheme devsw \<Rightarrow> nat \<Rightarrow> nat \<Rightarrow> 'z file_st_scheme \<Rightarrow>
    ((int \<times> byte list) \<times> 'z file_st_scheme) res" where
  "fileread dv i n s =
     (let f = ftable s ! i
      in if \<not> f_readable f then Ok ((-1, []), s)
         else case f_type f of
           FD_PIPE \<Rightarrow> piperead (f_pipe f) n s
         | FD_INODE \<Rightarrow>
             bnd (ilock (Some (f_ip f)) s) (\<lambda>s.
             bnd (readi dv (f_ip f) (f_off f) n s) (\<lambda>((r, d), s).
             let s = (if r > 0 then upd_file i (\<lambda>f. f\<lparr>f_off := add32 (f_off f) (nat r)\<rparr>) s else s)
             in bnd (iunlock (Some (f_ip f)) s) (\<lambda>s. Ok ((r, d), s))))
         | FD_NONE \<Rightarrow> Panic ''fileread'')"

definition write_max :: nat where
  "write_max = (nat MAXOPBLOCKS - 1 - 1 - 2) div 2 * 512"

text \<open>One round of the loop of \<open>filewrite\<close>; the flag says whether the loop goes on.\<close>

definition filewrite_round :: "'z file_st_scheme devsw \<Rightarrow> nat \<Rightarrow> byte list \<Rightarrow> 'z file_st_scheme \<Rightarrow>
    (bool \<times> 'z file_st_scheme) res" where
  "filewrite_round dv i bs s =
     (let ip = f_ip (ftable s ! i)
      in bnd (begin_op s) (\<lambda>s.
         bnd (ilock (Some ip) s) (\<lambda>s.
         bnd (writei dv ip (f_off (ftable s ! i)) bs s) (\<lambda>(r, s).
         let s = (if r > 0 then upd_file i (\<lambda>f. f\<lparr>f_off := add32 (f_off f) (nat r)\<rparr>) s else s)
         in bnd (iunlock (Some ip) s) (\<lambda>s.
            bnd (end_op s) (\<lambda>s.
            if r < 0 then Ok (False, s)
            else if r \<noteq> int (length bs) then Panic ''short filewrite''
            else Ok (True, s)))))))"

function filewrite_loop :: "'z file_st_scheme devsw \<Rightarrow> nat \<Rightarrow> byte list \<Rightarrow> 'z file_st_scheme \<Rightarrow>
    (bool \<times> 'z file_st_scheme) res" where
  "filewrite_loop dv i bs s =
     (if bs = [] then Ok (True, s)
      else bnd (filewrite_round dv i (take write_max bs) s) (\<lambda>(go, s).
           if go then filewrite_loop dv i (drop write_max bs) s else Ok (False, s)))"
  by pat_completeness auto
termination
  by (relation "measure (\<lambda>(dv, i, bs, s). length bs)") (auto simp: write_max_def MAXOPBLOCKS_def)

definition filewrite :: "'z file_st_scheme devsw \<Rightarrow> nat \<Rightarrow> byte list \<Rightarrow> 'z file_st_scheme \<Rightarrow>
    (int \<times> 'z file_st_scheme) res" where
  "filewrite dv i bs s =
     (let f = ftable s ! i
      in if \<not> f_writable f then Ok (-1, s)
         else case f_type f of
           FD_PIPE \<Rightarrow> pipewrite (f_pipe f) bs s
         | FD_INODE \<Rightarrow> bnd (filewrite_loop dv i bs s) (\<lambda>(ok, s). Ok (if ok then int (length bs) else -1, s))
         | FD_NONE \<Rightarrow> Panic ''filewrite'')"

definition pread :: "'z file_st_scheme devsw \<Rightarrow> nat \<Rightarrow> nat \<Rightarrow> nat \<Rightarrow> 'z file_st_scheme \<Rightarrow>
    ((int \<times> byte list) \<times> 'z file_st_scheme) res" where
  "pread dv i n off s =
     (let f = ftable s ! i
      in if \<not> f_readable f then Ok ((-1, []), s)
         else case f_type f of
           FD_PIPE \<Rightarrow> piperead (f_pipe f) n s
         | FD_INODE \<Rightarrow>
             bnd (ilock (Some (f_ip f)) s) (\<lambda>s.
             bnd (readi dv (f_ip f) off n s) (\<lambda>((r, d), s).
             bnd (iunlock (Some (f_ip f)) s) (\<lambda>s. Ok ((r, d), s))))
         | FD_NONE \<Rightarrow> Panic ''fileread'')"

definition pwrite_round :: "'z file_st_scheme devsw \<Rightarrow> nat \<Rightarrow> nat \<Rightarrow> byte list \<Rightarrow> 'z file_st_scheme \<Rightarrow>
    (bool \<times> 'z file_st_scheme) res" where
  "pwrite_round dv ip off bs s =
     bnd (begin_op s) (\<lambda>s.
     bnd (ilock (Some ip) s) (\<lambda>s.
     bnd (writei dv ip off bs s) (\<lambda>(r, s).
     bnd (iunlock (Some ip) s) (\<lambda>s.
     bnd (end_op s) (\<lambda>s.
     if r < 0 then Ok (False, s)
     else if r \<noteq> int (length bs) then Panic ''short filewrite''
     else Ok (True, s))))))"

function pwrite_loop :: "'z file_st_scheme devsw \<Rightarrow> nat \<Rightarrow> nat \<Rightarrow> byte list \<Rightarrow> 'z file_st_scheme \<Rightarrow>
    (bool \<times> 'z file_st_scheme) res" where
  "pwrite_loop dv ip off bs s =
     (if bs = [] then Ok (True, s)
      else bnd (pwrite_round dv ip off (take write_max bs) s) (\<lambda>(go, s).
           if go then pwrite_loop dv ip (add32 off (min write_max (length bs))) (drop write_max bs) s
           else Ok (False, s)))"
  by pat_completeness auto
termination
  by (relation "measure (\<lambda>(dv, ip, off, bs, s). length bs)") (auto simp: write_max_def MAXOPBLOCKS_def)

declare filewrite_loop.simps [simp del] pwrite_loop.simps [simp del]

definition pwrite :: "'z file_st_scheme devsw \<Rightarrow> nat \<Rightarrow> byte list \<Rightarrow> nat \<Rightarrow> 'z file_st_scheme \<Rightarrow>
    (int \<times> 'z file_st_scheme) res" where
  "pwrite dv i bs off s =
     (let f = ftable s ! i
      in if \<not> f_writable f then Ok (-1, s)
         else case f_type f of
           FD_PIPE \<Rightarrow> pipewrite (f_pipe f) bs s
         | FD_INODE \<Rightarrow> bnd (pwrite_loop dv (f_ip f) off bs s) (\<lambda>(ok, s). Ok (if ok then int (length bs) else -1, s))
         | FD_NONE \<Rightarrow> Panic ''filewrite'')"

section \<open>The pipe as a queue of bytes\<close>

definition pipe_bytes :: "pipe \<Rightarrow> byte list" where
  "pipe_bytes x = cring PIPESIZE (pi_data x) (nread x) (nwrite x)"

definition pipe_ok :: "pipe \<Rightarrow> bool" where
  "pipe_ok x \<longleftrightarrow> length (pi_data x) = PIPESIZE \<and> unat (nwrite x - nread x) \<le> PIPESIZE"

definition get_byte :: "pipe \<Rightarrow> byte \<times> pipe" where
  "get_byte x = (pi_data x ! (unat (nread x) mod PIPESIZE), x\<lparr>nread := nread x + 1\<rparr>)"

lemma PIPESIZE_counter: "PIPESIZE dvd 2 ^ 32" "PIPESIZE < 2 ^ 32"
  by (simp_all add: PIPESIZE_def)

lemma pipe_full_iff: "pipe_ok x \<Longrightarrow> nwrite x = nread x + of_nat PIPESIZE \<longleftrightarrow> length (pipe_bytes x) = PIPESIZE"
proof -
  have "nwrite x = nread x + of_nat PIPESIZE \<longleftrightarrow> nwrite x - nread x = of_nat PIPESIZE"
    by (simp add: diff_eq_eq add.commute)
  also have "\<dots> \<longleftrightarrow> unat (nwrite x - nread x) = PIPESIZE"
    by (simp add: word_unat_eq_iff PIPESIZE_def)
  finally show ?thesis by (simp add: pipe_bytes_def)
qed

lemma pipe_empty_iff: "nread x = nwrite x \<longleftrightarrow> pipe_bytes x = []"
  by (auto simp: pipe_bytes_def cring_empty_iff)

lemma put_byte_law:
  assumes "pipe_ok x" "length (pipe_bytes x) < PIPESIZE"
  shows "pipe_ok (put_byte b x) \<and> pipe_bytes (put_byte b x) = pipe_bytes x @ [b]"
proof -
  have n: "unat (nwrite x - nread x) < PIPESIZE" using assms(2) by (simp add: pipe_bytes_def)
  show ?thesis using assms(1) n counter_next [OF n PIPESIZE_counter(2)]
      cring_put [OF PIPESIZE_counter _ n, of "pi_data x" b] by (simp add: pipe_ok_def pipe_bytes_def put_byte_def)
qed

lemma get_byte_law:
  assumes "pipe_ok x" "pipe_bytes x = b # bs"
  shows "fst (get_byte x) = b \<and> pipe_ok (snd (get_byte x)) \<and> pipe_bytes (snd (get_byte x)) = bs"
proof -
  have n: "nwrite x \<noteq> nread x" using assms(2) pipe_empty_iff [of x] by auto
  show ?thesis using assms cring_get(1) [OF PIPESIZE_counter(1) n] cring_get(2) [OF PIPESIZE_counter(1) n, of "pi_data x"]
    by (simp add: pipe_ok_def pipe_bytes_def get_byte_def)
qed

interpretation pipe_q: fifo pipe_ok pipe_bytes put_byte get_byte PIPESIZE
  by unfold_locales (use put_byte_law get_byte_law in blast)+

text \<open>Reading takes bytes until the pipe is empty: the shorter of what is asked for and what is there.\<close>

lemma take_bytes_Suc:
  "take_bytes (Suc n) x = (if pipe_bytes x = [] then ([], x)
     else let (b, x) = get_byte x; (bs, x) = take_bytes n x in (b # bs, x))"
  by (simp add: get_byte_def flip: pipe_empty_iff)

lemma take_bytes_gets: "pipe_ok x \<Longrightarrow> take_bytes n x = pipe_q.gets (min n (length (pipe_bytes x))) x"
proof (induction n arbitrary: x)
  case (Suc n)
  show ?case
  proof (cases "pipe_bytes x")
    case Nil
    then show ?thesis by (simp add: take_bytes_Suc del: take_bytes.simps)
  next
    case (Cons b bs)
    from get_byte_law [OF Suc.prems Cons] have "take_bytes n (snd (get_byte x)) =
        pipe_q.gets (min n (length bs)) (snd (get_byte x))" using Suc.IH by auto
    with Cons show ?thesis by (simp add: take_bytes_Suc split_def Let_def del: take_bytes.simps)
  qed
qed simp

lemma gets_fields:
  "nwrite (snd (pipe_q.gets n x)) = nwrite x \<and> readopen (snd (pipe_q.gets n x)) = readopen x \<and>
   writeopen (snd (pipe_q.gets n x)) = writeopen x"
  by (induction n arbitrary: x) (simp_all add: split_def Let_def get_byte_def)

lemma take_bytes_spec:
  assumes "pipe_ok x"
  shows "fst (take_bytes n x) = take n (pipe_bytes x)" "pipe_ok (snd (take_bytes n x))"
    "pipe_bytes (snd (take_bytes n x)) = drop n (pipe_bytes x)"
    "nwrite (snd (take_bytes n x)) = nwrite x" "readopen (snd (take_bytes n x)) = readopen x"
    "writeopen (snd (take_bytes n x)) = writeopen x"
  using pipe_q.gets_spec [OF assms, of "min n (length (pipe_bytes x))"] gets_fields [of "min n (length (pipe_bytes x))" x]
  by (simp_all add: take_bytes_gets [OF assms] min_def split: if_splits)

section \<open>Writing and reading a pipe\<close>

lemma wakeup_pipes: "wakeup c s = Ok t \<Longrightarrow> pipes t = pipes s \<and> ftable t = ftable s"
  by (auto simp: wakeup_def wakeup1_def upd_all_def res_iff)

lemma upd_pipe_same [simp]: "pipes (upd_pipe p f s) p = f (pipes s p)"
  by (simp add: upd_pipe_def)

text \<open>
  What a call of \<open>pipewrite\<close> does until it returns or waits: it appends a prefix of its bytes,
  all of them when it returns their number, and up to a full buffer when it stops before.
\<close>

lemma pipewrite_loop_spec:
  assumes "pipe_ok (pipes s p)" "pipewrite_loop p bs i s = Ok (c, t)"
  shows "\<exists>k. k \<le> length bs \<and> pipe_ok (pipes t p) \<and>
     pipe_bytes (pipes t p) = pipe_bytes (pipes s p) @ take k bs \<and>
     nwrite (pipes t p) = nwrite (pipes s p) + of_nat k \<and>
     (k < length bs \<longrightarrow> length (pipe_bytes (pipes t p)) = PIPESIZE) \<and>
     (c = Returns (int (i + length bs)) \<and> k = length bs \<or> c = Returns (-1) \<or> c = Waits (i + k))"
  using assms
proof (induction bs arbitrary: i s)
  case Nil
  then show ?case by (auto simp: res_iff dest: wakeup_pipes)
next
  case (Cons b bs)
  let ?x = "pipes s p"
  show ?case
  proof (cases "nwrite ?x = nread ?x + of_nat PIPESIZE")
    case True
    then have "length (pipe_bytes ?x) = PIPESIZE" using pipe_full_iff Cons.prems(1) by blast
    moreover from True Cons.prems(2) have "pipes t = pipes s" "c = Returns (-1) \<or> c = Waits i"
      by (auto simp: res_iff curproc_def dest: wakeup_pipes split: if_splits option.splits)
    ultimately show ?thesis using Cons.prems(1) by (intro exI [of _ 0]) auto
  next
    case False
    let ?s = "upd_pipe p (put_byte b) s"
    have "length (pipe_bytes ?x) \<noteq> PIPESIZE" using False pipe_full_iff Cons.prems(1) by blast
    moreover have "length (pipe_bytes ?x) \<le> PIPESIZE" using Cons.prems(1) by (simp add: pipe_ok_def pipe_bytes_def)
    ultimately have put: "pipe_ok (pipes ?s p)" "pipe_bytes (pipes ?s p) = pipe_bytes ?x @ [b]"
      using put_byte_law [OF Cons.prems(1), of b] by simp_all
    have w: "nwrite (pipes ?s p) = nwrite ?x + 1" by (simp add: put_byte_def)
    from False Cons.prems(2) have "pipewrite_loop p bs (Suc i) ?s = Ok (c, t)" by simp
    from Cons.IH [OF put(1) this] obtain k where "k \<le> length bs" "pipe_ok (pipes t p)"
        "pipe_bytes (pipes t p) = pipe_bytes (pipes ?s p) @ take k bs" "nwrite (pipes t p) = nwrite (pipes ?s p) + of_nat k"
        "k < length bs \<longrightarrow> length (pipe_bytes (pipes t p)) = PIPESIZE"
        "c = Returns (int (Suc i + length bs)) \<and> k = length bs \<or> c = Returns (-1) \<or> c = Waits (Suc i + k)" by blast
    then show ?thesis by (intro exI [of _ "Suc k"]) (auto simp: put(2) [simplified] w [simplified] algebra_simps)
  qed
qed

lemma piperead_loop_spec:
  assumes "pipe_ok (pipes s p)" "piperead_loop p n s = Ok (Returns (k, d), t)"
  shows "pipe_ok (pipes t p)" "pipe_bytes (pipes s p) = d @ pipe_bytes (pipes t p)"
    "nwrite (pipes t p) = nwrite (pipes s p)"
proof -
  have "d = [] \<and> pipes t = pipes s \<or> d = fst (take_bytes n (pipes s p)) \<and> pipes t p = snd (take_bytes n (pipes s p))"
    using assms(2) by (auto simp: piperead_loop_def res_iff split_def Let_def dest!: wakeup_pipes split: if_splits)
  then show "pipe_ok (pipes t p)" "pipe_bytes (pipes s p) = d @ pipe_bytes (pipes t p)"
      "nwrite (pipes t p) = nwrite (pipes s p)"
    using assms(1) take_bytes_spec [OF assms(1), of n] by auto
qed

text \<open>
  The life of the pipe at \<open>p\<close> from the state \<open>s0\<close> on: calls of \<open>pipewrite\<close> (started, or going on
  after they have been woken up), calls of \<open>piperead\<close>, and anything else that does not touch the
  pipe, in any order.  The two lists are the bytes that have been written and those that the readers got.
\<close>

inductive pipe_trace :: "u32 \<Rightarrow> 'z file_st_scheme \<Rightarrow> 'z file_st_scheme \<Rightarrow> byte list \<Rightarrow> byte list \<Rightarrow> bool"
  for p s0 where
  pt_start: "pipe_trace p s0 s0 [] []"
| pt_write: "pipe_trace p s0 s w r \<Longrightarrow> pipewrite_loop p bs i s = Ok (c, t) \<Longrightarrow>
    pipe_trace p s0 t (w @ take (unat (nwrite (pipes t p) - nwrite (pipes s p))) bs) r"
| pt_read: "pipe_trace p s0 s w r \<Longrightarrow> piperead_loop p n s = Ok (Returns (k, d), t) \<Longrightarrow> pipe_trace p s0 t w (r @ d)"
| pt_other: "pipe_trace p s0 s w r \<Longrightarrow> pipes t p = pipes s p \<Longrightarrow> pipe_trace p s0 t w r"

text \<open>
  C5.  A pipe is a first-in first-out stream.  From an empty pipe on, however reads, writes and
  writes that had to wait interleave, the bytes written are the bytes delivered followed by
  those still in the buffer, in the order of writing: none is lost, repeated or reordered, also
  when the 32-bit counters wrap around; and the buffer never holds more than \<open>PIPESIZE\<close> bytes.
\<close>

theorem pipe_stream:
  assumes "pipe_trace p s0 s w r" "pipe_ok (pipes s0 p)" "nread (pipes s0 p) = nwrite (pipes s0 p)"
  shows "w = r @ pipe_bytes (pipes s p) \<and> length (pipe_bytes (pipes s p)) \<le> PIPESIZE"
proof -
  from assms have "pipe_ok (pipes s p) \<and> w = r @ pipe_bytes (pipes s p)"
  proof (induction)
    case pt_start
    then show ?case using pipe_empty_iff by auto
  next
    case (pt_write s w r bs i c t)
    from pt_write.IH pt_write.prems have ok: "pipe_ok (pipes s p)" and w: "w = r @ pipe_bytes (pipes s p)" by auto
    from pipewrite_loop_spec [OF ok pt_write.hyps(2)] obtain k where k: "pipe_ok (pipes t p)"
      "pipe_bytes (pipes t p) = pipe_bytes (pipes s p) @ take k bs" "nwrite (pipes t p) = nwrite (pipes s p) + of_nat k"
      "k \<le> length bs" by blast
    have "length (pipe_bytes (pipes t p)) \<le> 512" using k(1) by (simp add: pipe_ok_def pipe_bytes_def PIPESIZE_def)
    then have "k \<le> 512" using k(2,4) by simp
    then have "unat (nwrite (pipes t p) - nwrite (pipes s p)) = k" by (simp add: k(3) unat_of_nat)
    with k w show ?case by simp
  next
    case (pt_read s w r n k d t)
    then show ?case using piperead_loop_spec [OF _ pt_read.hyps(2)] by auto
  qed auto
  then show ?thesis by (simp add: pipe_ok_def pipe_bytes_def)
qed

text \<open>A pipe whose counters are about to wrap around, in a kernel with no open files.\<close>

definition sample_pipe :: pipe where
  "sample_pipe = \<lparr>pi_data = replicate PIPESIZE 0, nread = - 1, nwrite = - 1, readopen = True, writeopen = True\<rparr>"

definition no_file :: ofile where
  "no_file = \<lparr>f_type = FD_NONE, f_ref = 0, f_readable = False, f_writable = False, f_pipe = 0, f_ip = 0, f_off = 0\<rparr>"

definition sample_file :: "'z \<Rightarrow> 'z file_st_scheme" where
  "sample_file z = sample_fs 0 [] \<lparr>ftable = replicate NFILE no_file, pipes = (\<lambda>_. sample_pipe), \<dots> = z\<rparr>"

lemma sample_file_sel:
  "pipes (sample_file z) = (\<lambda>_. sample_pipe)" "ftable (sample_file z) = replicate NFILE no_file"
  "\<not> ptable_held (sample_file z)" "cur (sample_file z) = Some 0" "ptable (sample_file z) = ptable sample"
proof -
  have "fs_st.more (sample_file z) = \<lparr>ftable = replicate NFILE no_file, pipes = (\<lambda>_. sample_pipe), \<dots> = z\<rparr>"
    by (simp add: sample_file_def sample_fs_sel)
  then show "pipes (sample_file z) = (\<lambda>_. sample_pipe)" "ftable (sample_file z) = replicate NFILE no_file"
    by (cases "sample_file z"; simp)+
  show "\<not> ptable_held (sample_file z)" "cur (sample_file z) = Some 0" "ptable (sample_file z) = ptable sample"
    by (simp_all add: sample_file_def sample_fs_def sample_log_def sample_bio_def proc_st.defs sample_def)
qed

lemma pipe_stream_witness:
  "\<exists>s. pipe_trace 0x80200000 (sample_file ()) s [7, 8] [7] \<and> pipe_bytes (pipes s 0x80200000) = [8]"
proof -
  let ?p = "0x80200000 :: u32" and ?s0 = "sample_file ()"
  let ?s1 = "upd_pipe ?p (put_byte 8) (upd_pipe ?p (put_byte 7) ?s0)"
  have x: "pipes ?s0 ?p = sample_pipe" by (simp add: sample_file_sel)
  have m1: "unat (- 1 :: u32) mod 512 = 511" by (simp add: unsigned_minus_1_eq_mask mask_eq_exp_minus_1)
  have "\<not> ptable_held ?s1" by (simp add: upd_pipe_def sample_file_sel)
  from wakeup_frame [OF this, of "PipeReadChan (unat ?p)"] obtain pt where
    "wakeup (PipeReadChan (unat ?p)) ?s1 = Ok (?s1\<lparr>ptable := pt\<rparr>)" by blast
  then have wr: "pipewrite_loop ?p [7, 8] 0 ?s0 = Ok (Returns 2, ?s1\<lparr>ptable := pt\<rparr>)"
    by (simp add: x sample_pipe_def put_byte_def PIPESIZE_def)
  let ?s2 = "?s1\<lparr>ptable := pt\<rparr>"
  have y: "pipes ?s2 ?p = put_byte 8 (put_byte 7 sample_pipe)" by (simp add: x)
  have "nwrite (pipes ?s2 ?p) - nwrite (pipes ?s0 ?p) = 2" by (simp add: x put_byte_def sample_pipe_def)
  then have t1: "pipe_trace ?p ?s0 ?s2 [7, 8] []" using pt_write [OF pt_start wr] by simp
  let ?s3 = "upd_pipe ?p (\<lambda>_. snd (take_bytes 1 (pipes ?s2 ?p))) ?s2"
  have "\<not> ptable_held ?s3" by (simp add: upd_pipe_def sample_file_sel)
  from wakeup_frame [OF this, of "PipeWriteChan (unat ?p)"] obtain pt' where
    "wakeup (PipeWriteChan (unat ?p)) ?s3 = Ok (?s3\<lparr>ptable := pt'\<rparr>)" by blast
  then have "piperead_loop ?p 1 ?s2 = Ok (Returns (1, [7]), ?s3\<lparr>ptable := pt'\<rparr>)"
    unfolding piperead_loop_def y by (simp add: put_byte_def sample_pipe_def PIPESIZE_def m1)
  from pt_read [OF t1 this] have "pipe_trace ?p ?s0 (?s3\<lparr>ptable := pt'\<rparr>) [7, 8] [7]" by simp
  moreover from pipe_stream [OF this] have "pipe_bytes (pipes (?s3\<lparr>ptable := pt'\<rparr>) ?p) = [8]"
    by (simp add: x pipe_ok_def sample_pipe_def)
  ultimately show ?thesis by blast
qed

end
