(* ===== verification/Vmframe.thy ===== *)
theory Vmframe
  imports Vm
begin

text \<open>
  What the routines on pages and page tables leave alone: they change memory and the free list
  and nothing else of the kernel state.  The components above rely on it for every field
  that they add to the state.
\<close>

definition mem_only :: "'z kmem_st_scheme \<Rightarrow> 'z kmem_st_scheme \<Rightarrow> bool" where
  "mem_only s t \<longleftrightarrow> use_lock t = use_lock s \<and> kernel_end t = kernel_end s \<and>
     kernel_data t = kernel_data s \<and> kmem_st.more t = kmem_st.more s"

named_theorems mem_frame \<open>routines that change only memory and the free list\<close>

lemma mem_only_refl [simp, intro]: "mem_only s s"
  by (simp add: mem_only_def)

lemma mem_only_trans [trans]: "mem_only s t \<Longrightarrow> mem_only t u \<Longrightarrow> mem_only s u"
  by (simp add: mem_only_def)

lemma mem_only_upd [simp]:
  "mem_only s (t\<lparr>memory := m\<rparr>) = mem_only s t" "mem_only s (t\<lparr>freelist := f\<rparr>) = mem_only s t"
  "mem_only (s\<lparr>memory := m\<rparr>) t = mem_only s t" "mem_only (s\<lparr>freelist := f\<rparr>) t = mem_only s t"
  by (simp_all add: mem_only_def)

lemma mem_onlyD: "mem_only s t \<Longrightarrow> t = s\<lparr>memory := memory t, freelist := freelist t\<rparr>"
  by (cases s, cases t) (simp add: mem_only_def)

lemma kalloc_frame: "kalloc s = (p, t) \<Longrightarrow> mem_only s t"
  by (auto simp: kalloc_def Let_def split: if_splits)

lemma kfree_frame [mem_frame]: "kfree s v = Ok t \<Longrightarrow> mem_only s t"
  by (auto simp: kfree_def Let_def mem_only_def split: if_splits)

lemma walkpgdir_frame: "walkpgdir s pd va al = (p, t) \<Longrightarrow> mem_only s t"
  by (auto simp: walkpgdir_def Let_def split: if_splits prod.splits dest: kalloc_frame)

lemma mappages_loop_frame: "mappages_loop n pd a pa perm s = Ok (r, t) \<Longrightarrow> mem_only s t"
proof (induction n arbitrary: a pa s)
  case 0
  then show ?case
    by (auto split: prod.splits if_splits dest!: walkpgdir_frame)
next
  case (Suc n)
  obtain pte u where w: "walkpgdir s pd a True = (pte, u)" by fastforce
  with Suc.prems have "pte = 0 \<and> t = u \<or>
      mappages_loop n pd (a + PGSIZE) (pa + PGSIZE) perm (u\<lparr>memory := store32 (memory u) pte (pa OR perm OR PTE_P)\<rparr>) = Ok (r, t)"
    by (auto split: if_splits)
  moreover have "mem_only s u" using w by (rule walkpgdir_frame)
  ultimately show ?case by (auto dest!: Suc.IH intro: mem_only_trans)
qed

lemma mappages_frame [mem_frame]: "mappages s pd va len pa perm = Ok (r, t) \<Longrightarrow> mem_only s t"
  unfolding mappages_def Let_def by (rule mappages_loop_frame)

lemma addr_loop_frame:
  assumes "\<And>a s r u. body a s = Ok (Inl (r, u)) \<Longrightarrow> mem_only s u"
    and "\<And>a s a' u. body a s = Ok (Inr (a', u)) \<Longrightarrow> mem_only s u"
    and "addr_loop bound body a s = Ok (r, t)"
  shows "mem_only s t"
  using assms
proof (induction bound body a s rule: addr_loop.induct)
  case (1 bound body a s)
  show ?case
  proof (cases "a < bound")
    case False
    with 1(4) show ?thesis by (simp add: addr_loop.simps [of bound body a s])
  next
    case True
    with 1(4) obtain x where x: "body a s = Ok x" and c: "(case x of Inl (r, s) \<Rightarrow> Ok (Some r, s)
        | Inr (a', s) \<Rightarrow> if a < a' then addr_loop bound body a' s else Spins) = Ok (r, t)"
      by (auto simp: addr_loop.simps [of bound body a s] res_iff)
    show ?thesis
    proof (cases x)
      case (Inl y)
      with c x 1(2) show ?thesis by (cases y) auto
    next
      case (Inr y)
      obtain a' u where y: "y = (a', u)" by (cases y)
      with Inr c have "a < a'" "addr_loop bound body a' u = Ok (r, t)" by (auto split: if_splits)
      with 1(1) [OF True x Inr y [symmetric]] 1(2,3) have "mem_only u t" by blast
      moreover have "mem_only s u" using 1(3) x Inr y by blast
      ultimately show ?thesis using mem_only_trans by blast
    qed
  qed
qed

lemma for_each_frame:
  assumes "\<And>i s t. f i s = Ok t \<Longrightarrow> mem_only s t" "for_each is f s = Ok t"
  shows "mem_only s t"
  using assms(2)
proof (induction "is" arbitrary: s)
  case (Cons i "is")
  then obtain u where "f i s = Ok u" "for_each is f u = Ok t" by (auto simp: res_iff)
  with Cons.IH assms(1) show ?case by (blast intro: mem_only_trans)
qed simp

lemma deallocuvm_frame [mem_frame]:
  assumes "deallocuvm s pd old new = Ok (r, t)"
  shows "mem_only s t"
proof -
  have "mem_only s t" if "addr_loop old (\<lambda>a s.
             let (pte, s) = walkpgdir s pd a False
             in if pte = 0 then Ok (Inr (PGADDR (PDX a + 1) 0 0 - PGSIZE + PGSIZE, s))
                else if load32 (memory s) pte AND PTE_P \<noteq> 0 then
                  let pa = PTE_ADDR (load32 (memory s) pte)
                  in if pa = 0 then Panic ''kfree''
                     else bnd (kfree s (P2V pa)) (\<lambda>s.
                       Ok (Inr (a + PGSIZE, s\<lparr>memory := store32 (memory s) pte 0\<rparr>)))
                else Ok (Inr (a + PGSIZE, s))) (PGROUNDUP new) s = Ok (x :: unit option, t)" for x
    by (rule addr_loop_frame [OF _ _ that])
      (auto simp: Let_def res_iff split: prod.splits if_splits dest!: walkpgdir_frame kfree_frame
        intro: mem_only_trans)
  with assms show ?thesis by (auto simp: deallocuvm_def res_iff split: if_splits)
qed

lemma freevm_frame [mem_frame]:
  assumes "freevm s pd = Ok t"
  shows "mem_only s t"
proof -
  let ?f = "\<lambda>i s. let e = load32 (memory s) (pd + 4 * word_of_nat i)
    in if e AND PTE_P \<noteq> 0 then kfree s (P2V (PTE_ADDR e)) else Ok s"
  from assms obtain r u v where u: "deallocuvm s pd KERNBASE 0 = Ok (r, u)" "for_each [0..<NPDENTRIES] ?f u = Ok v"
    "kfree v pd = Ok t" by (auto simp: freevm_def res_iff split: if_splits)
  have "mem_only u v" using u(2)
    by (rule for_each_frame [rotated]) (auto simp: Let_def split: if_splits dest: kfree_frame)
  with u(1,3) show ?thesis by (blast intro: mem_only_trans deallocuvm_frame kfree_frame)
qed

lemma allocuvm_frame [mem_frame]:
  assumes "allocuvm s pd old new = Ok (r, t)"
  shows "mem_only s t"
proof -
  have "mem_only s t" if "addr_loop new (\<lambda>a s.
             let (pg, s) = kalloc s
             in if pg = 0 then
                  bnd (deallocuvm s pd new old) (\<lambda>(_, s). Ok (Inl (0, s)))
                else
                  let s = s\<lparr>memory := memset (memory s) pg 0 PGSIZE\<rparr>
                  in bnd (mappages s pd a PGSIZE (V2P pg) (PTE_W OR PTE_U)) (\<lambda>(r, s).
                     if r < 0 then
                       bnd (deallocuvm s pd new old) (\<lambda>(_, s).
                       bnd (kfree s pg) (\<lambda>s. Ok (Inl (0, s))))
                     else Ok (Inr (a + PGSIZE, s)))) (PGROUNDUP old) s = Ok (x, t)" for x :: "u32 option"
    by (rule addr_loop_frame [OF _ _ that])
      (auto simp: Let_def res_iff mem_only_def split: prod.splits if_splits
        dest!: kalloc_frame deallocuvm_frame mappages_frame kfree_frame)
  with assms show ?thesis by (auto simp: allocuvm_def res_iff split: if_splits option.splits)
qed

lemma map_kmap_frame: "map_kmap ks pd s = Ok (r, t) \<Longrightarrow> mem_only s t"
proof (induction ks pd s rule: map_kmap.induct)
  case (2 virt phys_start phys_end perm ks pd s)
  then obtain q u where "mappages s pd virt (phys_end - phys_start) phys_start perm = Ok (q, u)"
    "(if q < 0 then bnd (freevm u pd) (\<lambda>s. Ok (0, s)) else map_kmap ks pd u) = Ok (r, t)" by (auto simp: res_iff)
  with 2(1) [OF this(1) refl] show ?case
    by (auto simp: res_iff split: if_splits dest!: mappages_frame freevm_frame intro: mem_only_trans)
qed simp

lemma setupkvm_frame [mem_frame]: "setupkvm s = Ok (r, t) \<Longrightarrow> mem_only s t"
  by (auto simp: setupkvm_def Let_def split: prod.splits if_splits dest!: kalloc_frame map_kmap_frame
      intro: mem_only_trans)

lemma copyuvm_frame [mem_frame]:
  assumes "copyuvm s pd sz = Ok (r, t)"
  shows "mem_only s t"
proof -
  have loop: "mem_only s t" if "addr_loop sz (\<lambda>i s.
            case walkpgdir s pd i False of (pte, s) \<Rightarrow>
               if pte = 0 then Panic ''copyuvm: pte should exist''
               else if load32 (memory s) pte AND PTE_P = 0 then Panic ''copyuvm: page not present''
               else let pa = PTE_ADDR (load32 (memory s) pte);
                        flags = PTE_FLAGS (load32 (memory s) pte);
                        (pg, s) = kalloc s
                    in if pg = 0 then bnd (freevm s d) (\<lambda>s. Ok (Inl (0, s)))
                       else let s = s\<lparr>memory := memmove (memory s) pg (P2V pa) PGSIZE\<rparr>
                            in bnd (mappages s d i PGSIZE (V2P pg) flags) (\<lambda>(r, s).
                               if r < 0 then bnd (kfree s pg) (\<lambda>s.
                                  bnd (freevm s d) (\<lambda>s. Ok (Inl (0, s))))
                               else Ok (Inr (i + PGSIZE, s)))) 0 s = Ok (x, t)" for d x s and t :: "'z kmem_st_scheme"
    by (rule addr_loop_frame [OF _ _ that])
      (auto simp: Let_def res_iff mem_only_def split: prod.splits if_splits
        dest!: walkpgdir_frame kalloc_frame freevm_frame mappages_frame kfree_frame)
  from assms show ?thesis
    by (auto simp: copyuvm_def res_iff split: if_splits option.splits dest!: setupkvm_frame loop intro: mem_only_trans)
qed

lemma clearpteu_frame [mem_frame]: "clearpteu s pd va = Ok t \<Longrightarrow> mem_only s t"
  by (auto simp: clearpteu_def Let_def split: prod.splits if_splits dest!: walkpgdir_frame)

lemma inituvm_frame [mem_frame]: "inituvm s pd init sz = Ok t \<Longrightarrow> mem_only s t"
  by (auto simp: inituvm_def Let_def res_iff split: prod.splits if_splits dest!: kalloc_frame mappages_frame
      intro: mem_only_trans)

lemma copyout_frame [mem_frame]: "copyout s pd va buf = Ok (r, t) \<Longrightarrow> mem_only s t"
proof (induction s pd va buf rule: copyout.induct)
  case (1 s pd va buf)
  show ?case
  proof (cases "length buf > 0")
    case False
    with 1(2) show ?thesis by (simp add: copyout.simps [of s pd va buf])
  next
    case True
    with 1(2) obtain pa where pa: "uva2ka s pd (PGROUNDDOWN va) = Ok pa"
      by (auto simp: copyout.simps [of s pd va buf] res_iff Let_def)
    with True 1(2) 1(1) [OF True refl pa] show ?thesis
      by (auto simp: copyout.simps [of s pd va buf] Let_def split: if_splits)
  qed
qed

end
