(* ===== verification/Process.thy ===== *)
theory Process
  imports File Vmframe
begin

text \<open>
  The life of a process and of its threads (\<^verbatim>\<open>proc.c\<close>): the first process, \<open>growproc\<close>, \<open>fork\<close>,
  \<open>exit\<close>, \<open>wait\<close>, \<open>thread_create\<close>, \<open>thread_exit\<close>, \<open>thread_join\<close> and \<open>forkret\<close>.  A call that
  goes to sleep on its own process (\<open>wait\<close>, \<open>thread_join\<close>) gives \<open>Sleeps\<close>; when it is woken up
  it scans the table again, so that one scan is all it does between two switches.
\<close>

section \<open>Accesses through the page table of the running process\<close>

text \<open>
  The kernel reads and writes user memory through the page directory that is loaded.  An
  access to a page that is not present, and a write to one that is not writable
  (\<open>CR0_WP\<close> is set), is a page fault in the kernel.
\<close>

definition translate :: "'z kmem_st_scheme \<Rightarrow> u32 \<Rightarrow> bool \<Rightarrow> u32 \<Rightarrow> u32 option" where
  "translate s pgdir wr va =
     (let pte = fst (walkpgdir s pgdir va False); e = load32 (memory s) pte
      in if pte = 0 \<or> e AND PTE_P = 0 \<or> (wr \<and> e AND PTE_W = 0) then None
         else Some (P2V (PTE_ADDR e) + va mod PGSIZE))"

fun uread :: "'z kmem_st_scheme \<Rightarrow> u32 \<Rightarrow> u32 \<Rightarrow> nat \<Rightarrow> byte list res" where
  "uread s pgdir va 0 = Ok []"
| "uread s pgdir va (Suc n) =
     (case translate s pgdir False va of None \<Rightarrow> Fault ''page fault''
      | Some a \<Rightarrow> bnd (uread s pgdir (va + 1) n) (\<lambda>bs. Ok (memory s a # bs)))"

fun uwrite :: "'z kmem_st_scheme \<Rightarrow> u32 \<Rightarrow> u32 \<Rightarrow> byte list \<Rightarrow> 'z kmem_st_scheme res" where
  "uwrite s pgdir va [] = Ok s"
| "uwrite s pgdir va (b # bs) =
     (case translate s pgdir True va of None \<Rightarrow> Fault ''page fault''
      | Some a \<Rightarrow> uwrite (s\<lparr>memory := (memory s)(a := b)\<rparr>) pgdir (va + 1) bs)"

text \<open>The little-endian bytes of a 32-bit number.\<close>

definition bytes32 :: "u32 \<Rightarrow> byte list" where
  "bytes32 v = [ucast v, ucast (drop_bit 8 v), ucast (drop_bit 16 v), ucast (drop_bit 24 v)]"

section \<open>Names\<close>

text \<open>
  \<open>safestrcpy\<close> on the \<open>name\<close> array of a process: when the loop stops at a zero byte, it has
  stored it, and a second zero follows.
\<close>

definition safestrcpy_name :: "byte list \<Rightarrow> byte list \<Rightarrow> nat \<Rightarrow> byte list" where
  "safestrcpy_name dst src n =
     (let k = takeWhile (\<lambda>c. c \<noteq> 0) (take (n - 1) src)
      in splice dst 0 (if length k < n - 1 then k @ [0, 0] else k @ [0]))"

section \<open>The first process, and the size of a process\<close>

definition SEG_UCODE :: u32 where "SEG_UCODE = 3"
definition SEG_UDATA :: u32 where "SEG_UDATA = 4"
definition DPL_USER :: u32 where "DPL_USER = 3"
definition FL_IF :: u32 where "FL_IF = 0x200"

text \<open>The trap frame of the first process, in an area of zeros.\<close>

definition init_tf :: "mem \<Rightarrow> u32 \<Rightarrow> mem" where
  "init_tf m tf =
     (let m = memset m tf 0 TF_SIZE;
          m = store32 m (tf + TF_CS) (push_bit 3 SEG_UCODE OR DPL_USER);
          m = store32 m (tf + TF_DS) (push_bit 3 SEG_UDATA OR DPL_USER);
          m = store32 m (tf + TF_ES) (push_bit 3 SEG_UDATA OR DPL_USER);
          m = store32 m (tf + TF_SS) (push_bit 3 SEG_UDATA OR DPL_USER);
          m = store32 m (tf + TF_EFLAGS) FL_IF;
          m = store32 m (tf + TF_ESP) PGSIZE
      in store32 m (tf + TF_EIP) 0)"

text \<open>\<open>init\<close> and \<open>sz\<close> are the place and the size of the linked-in \<open>initcode\<close>.\<close>

definition userinit :: "'z file_st_scheme devsw \<Rightarrow> u32 \<Rightarrow> u32 \<Rightarrow> 'z file_st_scheme \<Rightarrow> 'z file_st_scheme res" where
  "userinit dv init sz s =
     bnd (allocproc s) (\<lambda>(np, s).
     case np of None \<Rightarrow> Fault ''userinit: null''
     | Some i \<Rightarrow>
         let s = s\<lparr>initproc := Some i\<rparr> in
         bnd (setupkvm s) (\<lambda>(pd, s).
         if pd = 0 then Panic ''userinit: out of memory?''
         else let s = upd_proc i (\<lambda>p. p\<lparr>p_pgdir := pd\<rparr>) s in
           bnd (inituvm s pd init sz) (\<lambda>s.
           let s = upd_proc i (\<lambda>p. p\<lparr>p_sz := PGSIZE\<rparr>) s;
               s = s\<lparr>memory := init_tf (memory s) (p_tf (ptable s ! i))\<rparr>;
               s = upd_proc i (\<lambda>p. p\<lparr>p_name := safestrcpy_name (p_name p)
                     [0x69, 0x6e, 0x69, 0x74, 0x63, 0x6f, 0x64, 0x65] 16\<rparr>) s
           in bnd (namei dv [0x2f] s) (\<lambda>(ip, s).
              let s = upd_proc i (\<lambda>p. p\<lparr>p_cwd := ip\<rparr>) s
              in bnd (acquire_ptable s) (\<lambda>s.
                 release_ptable (upd_proc i (\<lambda>p. p\<lparr>p_state := RUNNABLE\<rparr>) s))))))"

definition growproc :: "int \<Rightarrow> 'z proc_st_scheme \<Rightarrow> (int \<times> 'z proc_st_scheme) res" where
  "growproc n s =
     bnd (curproc s) (\<lambda>i.
     let p = ptable s ! i; sz = p_sz p
     in bnd (if n > 0 then allocuvm s (p_pgdir p) sz (sz + word_of_int n)
             else if n < 0 then deallocuvm s (p_pgdir p) sz (sz + word_of_int n)
             else Ok (sz, s)) (\<lambda>(sz, s).
        if n \<noteq> 0 \<and> sz = 0 then Ok (-1, s)
        else let s = upd_proc i (\<lambda>p. p\<lparr>p_sz := sz\<rparr>) s
             in bnd (switchuvm s (Some (p_kstack (ptable s ! i), p_pgdir (ptable s ! i)))) (\<lambda>s.
                Ok (0, s))))"

section \<open>Fork\<close>

text \<open>The loop over the open files, and the working directory, of a new process or thread.\<close>

definition dup_files :: "nat \<Rightarrow> nat \<Rightarrow> 'z file_st_scheme \<Rightarrow> 'z file_st_scheme res" where
  "dup_files c n =
     for_each [0..<NOFILE] (\<lambda>k s.
       case p_ofile (ptable s ! c) ! k of None \<Rightarrow> Ok s
       | Some f \<Rightarrow> bnd (filedup f s) (\<lambda>(g, s).
           Ok (upd_proc n (\<lambda>p. p\<lparr>p_ofile := (p_ofile p)[k := Some g]\<rparr>) s)))"

definition dup_cwd :: "nat \<Rightarrow> nat \<Rightarrow> 'z fs_st_scheme \<Rightarrow> 'z fs_st_scheme res" where
  "dup_cwd c n s =
     (case p_cwd (ptable s ! c) of None \<Rightarrow> Fault ''idup: null''
      | Some d \<Rightarrow> let (d, s) = idup d s in Ok (upd_proc n (\<lambda>p. p\<lparr>p_cwd := Some d\<rparr>) s))"

definition copy_name :: "nat \<Rightarrow> nat \<Rightarrow> 'z proc_st_scheme \<Rightarrow> 'z proc_st_scheme" where
  "copy_name c n s = upd_proc n (\<lambda>p. p\<lparr>p_name := safestrcpy_name (p_name p) (p_name (ptable s ! c)) 16\<rparr>) s"

text \<open>\<open>*np->tf = *p->tf\<close>.\<close>

definition copy_tf :: "nat \<Rightarrow> nat \<Rightarrow> 'z proc_st_scheme \<Rightarrow> 'z proc_st_scheme" where
  "copy_tf c n s = s\<lparr>memory := memmove (memory s) (p_tf (ptable s ! n)) (p_tf (ptable s ! c)) TF_SIZE\<rparr>"

text \<open>The part that \<open>fork\<close> and \<open>create_thread\<close> have in common: \<open>None\<close> is the failure.\<close>

definition fork_copy :: "nat \<Rightarrow> 'z file_st_scheme \<Rightarrow> (nat option \<times> 'z file_st_scheme) res" where
  "fork_copy c s =
     bnd (allocproc s) (\<lambda>(np, s).
     case np of None \<Rightarrow> Ok (None, s)
     | Some n \<Rightarrow>
         bnd (copyuvm s (p_pgdir (ptable s ! c)) (p_sz (ptable s ! c))) (\<lambda>(d, s).
         let s = upd_proc n (\<lambda>p. p\<lparr>p_pgdir := d\<rparr>) s
         in if d = 0 then
              bnd (kfree s (p_kstack (ptable s ! n))) (\<lambda>s.
              Ok (None, upd_proc n (\<lambda>p. p\<lparr>p_kstack := 0, p_state := UNUSED\<rparr>) s))
            else
              let s = upd_proc n (\<lambda>p. p\<lparr>p_sz := p_sz (ptable s ! c), p_parent := Some c\<rparr>) s;
                  s = copy_tf c n s;
                  s = s\<lparr>memory := store32 (memory s) (p_tf (ptable s ! n) + TF_EAX) 0\<rparr>
              in bnd (dup_files c n s) (\<lambda>s.
                 bnd (dup_cwd c n s) (\<lambda>s. Ok (Some n, copy_name c n s)))))"

definition fork :: "'z file_st_scheme \<Rightarrow> (int \<times> 'z file_st_scheme) res" where
  "fork s =
     bnd (curproc s) (\<lambda>c.
     bnd (fork_copy c s) (\<lambda>(np, s).
     case np of None \<Rightarrow> Ok (-1, s)
     | Some n \<Rightarrow>
         let pid = p_pid (ptable s ! n)
         in bnd (acquire_ptable s) (\<lambda>s.
            bnd (release_ptable (upd_proc n (\<lambda>p. p\<lparr>p_state := RUNNABLE\<rparr>) s)) (\<lambda>s. Ok (pid, s)))))"

definition create_thread :: "nat \<Rightarrow> 'z file_st_scheme \<Rightarrow> (int \<times> 'z file_st_scheme) res" where
  "create_thread c s =
     bnd (fork_copy c s) (\<lambda>(np, s).
     case np of None \<Rightarrow> Ok (-1, s)
     | Some n \<Rightarrow>
         Ok (0, upd_proc n (\<lambda>p. p\<lparr>main_thread := Some c, ptid := p_pid (ptable s ! c),
           p_state := RUNNABLE\<rparr>) s))"

section \<open>Exit and wait\<close>

text \<open>Closing everything the process \<open>c\<close> has open: the same in \<open>exit\<close> and \<open>thread_exit\<close>.\<close>

definition close_files :: "nat \<Rightarrow> 'z file_st_scheme \<Rightarrow> 'z file_st_scheme res" where
  "close_files c =
     for_each [0..<NOFILE] (\<lambda>k s.
       case p_ofile (ptable s ! c) ! k of None \<Rightarrow> Ok s
       | Some f \<Rightarrow> bnd (fileclose f s) (\<lambda>s.
           Ok (upd_proc c (\<lambda>p. p\<lparr>p_ofile := (p_ofile p)[k := None]\<rparr>) s)))"

definition drop_cwd :: "nat \<Rightarrow> 'z fs_st_scheme \<Rightarrow> 'z fs_st_scheme res" where
  "drop_cwd c s =
     bnd (begin_op s) (\<lambda>s.
     case p_cwd (ptable s ! c) of None \<Rightarrow> Fault ''iput: null''
     | Some d \<Rightarrow> bnd (iput d s) (\<lambda>s. bnd (end_op s) (\<lambda>s.
         Ok (upd_proc c (\<lambda>p. p\<lparr>p_cwd := None\<rparr>) s))))"

text \<open>\<open>wakeup1\<close> on a process; no process sleeps on the null channel.\<close>

definition wakeup1_proc :: "nat option \<Rightarrow> 'z proc_st_scheme \<Rightarrow> 'z proc_st_scheme" where
  "wakeup1_proc q s = (case q of None \<Rightarrow> s | Some i \<Rightarrow> wakeup1 (ProcChan i) s)"

definition reparent :: "nat \<Rightarrow> 'z proc_st_scheme \<Rightarrow> 'z proc_st_scheme" where
  "reparent c s =
     foldl (\<lambda>s k.
       if p_parent (ptable s ! k) = Some c then
         let s = upd_proc k (\<lambda>p. p\<lparr>p_parent := initproc s\<rparr>) s
         in if p_state (ptable s ! k) = ZOMBIE then wakeup1_proc (initproc s) s else s
       else s) s [0..<length (ptable s)]"

text \<open>What \<open>exit\<close> does to the threads of the process, and a thread to its siblings.\<close>

definition zombie_threads :: "nat \<Rightarrow> 'z proc_st_scheme \<Rightarrow> 'z proc_st_scheme" where
  "zombie_threads c s =
     upd_all (\<lambda>_ k. if ptid k = p_pid (ptable s ! c) \<and> p_state k \<noteq> UNUSED
       then k\<lparr>p_state := ZOMBIE\<rparr> else k) s"

definition kill_siblings :: "nat \<Rightarrow> 'z proc_st_scheme \<Rightarrow> 'z proc_st_scheme" where
  "kill_siblings c s =
     (let p = ptable s ! c
      in if t_flag p = 1
         then upd_all (\<lambda>i j. if ptid p = ptid j \<or> main_thread p = Some i
                then j\<lparr>p_killed := True\<rparr> else j) s
         else s)"

definition exit :: "'z file_st_scheme \<Rightarrow> 'z file_st_scheme res" where
  "exit s =
     bnd (curproc s) (\<lambda>c.
     if initproc s = Some c then Panic ''init exiting''
     else
       bnd (close_files c s) (\<lambda>s.
       bnd (drop_cwd c s) (\<lambda>s.
       bnd (acquire_ptable s) (\<lambda>s.
       let s = wakeup1_proc (p_parent (ptable s ! c)) s;
           s = reparent c s;
           s = zombie_threads c s;
           s = kill_siblings c s
       in sched (upd_proc c (\<lambda>p. p\<lparr>p_state := ZOMBIE\<rparr>) s)))))"

text \<open>The loop of \<open>wait\<close> over the threads of the zombie \<open>i\<close>.\<close>

definition wait_threads :: "nat \<Rightarrow> 'z proc_st_scheme \<Rightarrow> 'z proc_st_scheme res" where
  "wait_threads i s =
     for_each [0..<length (ptable s)] (\<lambda>k s.
       if main_thread (ptable s ! k) = Some i then
         let s = upd_proc k (\<lambda>q. q\<lparr>p_kstack := 0, p_pid := 0, p_parent := None,
                   p_name := (p_name q)[0 := 0], p_killed := False, p_state := UNUSED,
                   t_flag := 0, tid := 0\<rparr>) s;
             p = ptable s ! i
         in bnd (deallocuvm s (p_pgdir p) (p_start p) (p_start p - 2 * PGSIZE)) (\<lambda>(sz, s).
            Ok (upd_proc k (\<lambda>q. q\<lparr>p_sz := sz\<rparr>) s))
       else Ok s) s"

definition wait_reap :: "nat \<Rightarrow> 'z proc_st_scheme \<Rightarrow> (int \<times> 'z proc_st_scheme) res" where
  "wait_reap i s =
     bnd (wait_threads i s) (\<lambda>s.
     let pid = p_pid (ptable s ! i)
     in bnd (kfree s (p_kstack (ptable s ! i))) (\<lambda>s.
        let s = upd_proc i (\<lambda>p. p\<lparr>p_kstack := 0\<rparr>) s
        in bnd (freevm s (p_pgdir (ptable s ! i))) (\<lambda>s.
           bnd (release_ptable (upd_proc i (\<lambda>p. p\<lparr>p_pid := 0, p_parent := None,
              p_name := (p_name p)[0 := 0], p_killed := False, p_state := UNUSED\<rparr>) s)) (\<lambda>s.
           Ok (pid, s)))))"

definition wait :: "'z proc_st_scheme \<Rightarrow> (int \<times> 'z proc_st_scheme) res" where
  "wait s =
     bnd (curproc s) (\<lambda>c.
     bnd (acquire_ptable s) (\<lambda>s.
     case find_idx (\<lambda>p. p_parent p = Some c \<and> p_state p = ZOMBIE) (ptable s) of
       Some i \<Rightarrow> wait_reap i s
     | None \<Rightarrow>
         if (\<forall>p \<in> set (ptable s). p_parent p \<noteq> Some c) \<or> p_killed (ptable s ! c)
         then bnd (release_ptable s) (\<lambda>s. Ok (-1, s))
         else Sleeps (ProcChan c)))"

section \<open>Threads\<close>

text \<open>The loops that set the size of every process of the group of \<open>p\<close>.\<close>

definition set_group_sz :: "int \<Rightarrow> u32 \<Rightarrow> 'z proc_st_scheme \<Rightarrow> 'z proc_st_scheme" where
  "set_group_sz g sz = upd_all (\<lambda>_ q. if ptid q = g then q\<lparr>p_sz := sz\<rparr> else q)"

text \<open>The scheduling class that the new thread \<open>q\<close> takes over from \<open>p\<close>.\<close>

definition inherit_class :: "proc \<Rightarrow> proc \<Rightarrow> proc" where
  "inherit_class p q =
     (if checkMLFQ p = 0
      then q\<lparr>qLevel := qLevel p, runTime := runTime p, round := round p,
             quantumtick := quantumtick p, checkMLFQ := 0\<rparr>
      else q\<lparr>pass := pass p, stride := stride p, myPortion := myPortion p, runTime := runTime p,
             quantumtick := quantumtick p, checkMLFQ := 1\<rparr>)"

text \<open>
  \<open>thread_create\<close> from the copy of the arguments on, with \<open>ptable.lock\<close> held: \<open>sp\<close> is the
  stack pointer and \<open>sz\<close> the new size of the address space.
\<close>

definition thread_start :: "nat \<Rightarrow> nat \<Rightarrow> u32 \<Rightarrow> u32 \<Rightarrow> u32 \<Rightarrow> u32 \<Rightarrow> 'z file_st_scheme \<Rightarrow>
    (int \<times> 'z file_st_scheme) res" where
  "thread_start c n th start_routine sp sz s =
     (let p = ptable s ! c;
          s = upd_proc n (\<lambda>q. q\<lparr>ptid := (if t_flag p = 0 then p_pid p else ptid p), t_flag := 1\<rparr>) s;
          s = upd_proc n (inherit_class p) s;
          s = upd_proc c (\<lambda>p. p\<lparr>havet := 1\<rparr>) s;
          s = upd_proc n (\<lambda>q. q\<lparr>main_thread := Some c\<rparr>) s;
          s = upd_proc c (\<lambda>p. p\<lparr>thread_count := thread_count p + 1\<rparr>) s;
          s = upd_proc n (\<lambda>q. q\<lparr>tid := nexttid s\<rparr>) s;
          s = s\<lparr>nexttid := nexttid s + 1\<rparr>
      in bnd (uwrite s (p_pgdir p) th (bytes32 (word_of_int (tid (ptable s ! n))))) (\<lambda>s.
         let s = upd_proc n (\<lambda>q. q\<lparr>p_pgdir := p_pgdir p\<rparr>) s;
             s = copy_tf c n s;
             tf = p_tf (ptable s ! n);
             s = s\<lparr>memory := store32 (memory s) (tf + TF_EIP) start_routine\<rparr>;
             s = s\<lparr>memory := store32 (memory s) (tf + TF_ESP) sp\<rparr>;
             s = set_group_sz (ptid (ptable s ! c)) sz s
         in bnd (release_ptable s) (\<lambda>s.
            bnd (dup_files c n s) (\<lambda>s.
            bnd (dup_cwd c n s) (\<lambda>s.
            let s = copy_name c n s
            in bnd (acquire_ptable s) (\<lambda>s.
               bnd (release_ptable (upd_proc n (\<lambda>q. q\<lparr>p_state := RUNNABLE\<rparr>) s)) (\<lambda>s.
               Ok (0, s))))))))"

definition thread_create :: "u32 \<Rightarrow> u32 \<Rightarrow> u32 \<Rightarrow> 'z file_st_scheme \<Rightarrow> (int \<times> 'z file_st_scheme) res" where
  "thread_create th start_routine arg s =
     bnd (curproc s) (\<lambda>c.
     let sz = p_sz (ptable s ! c); pd = p_pgdir (ptable s ! c)
     in bnd (allocproc s) (\<lambda>(np, s).
        case np of None \<Rightarrow> Ok (-1, s)
        | Some n \<Rightarrow>
            bnd (allocuvm s pd sz (sz + 2 * PGSIZE)) (\<lambda>(sz, s).
            if sz = 0 then Ok (-1, s)
            else
              bnd (clearpteu s pd (p_sz (ptable s ! c) - 2 * PGSIZE)) (\<lambda>s.
              bnd (acquire_ptable s) (\<lambda>s.
              bnd (release_ptable (set_group_sz (ptid (ptable s ! c)) sz s)) (\<lambda>s.
              bnd (acquire_ptable s) (\<lambda>s.
              let sp = p_sz (ptable s ! c);
                  s = upd_proc n (\<lambda>q. q\<lparr>p_start := sp, p_end := sp - 2 * PGSIZE\<rparr>) s;
                  sp = sp - 8
              in bnd (copyout s pd sp (bytes32 0xffffffff @ bytes32 arg)) (\<lambda>(r, s).
                 if r < 0 then Ok (-1, s)
                 else thread_start c n th start_routine sp sz s))))))))"

text \<open>The loop of \<open>thread_exit\<close> over the threads of the current one.\<close>

definition adopt_threads :: "nat \<Rightarrow> 'z proc_st_scheme \<Rightarrow> 'z proc_st_scheme" where
  "adopt_threads c s =
     foldl (\<lambda>s k.
       if main_thread (ptable s ! k) = Some c then
         let s = upd_proc k (\<lambda>p. p\<lparr>main_thread := initproc s\<rparr>) s
         in if p_state (ptable s ! k) = ZOMBIE then wakeup1_proc (initproc s) s else s
       else s) s [0..<length (ptable s)]"

definition thread_exit :: "u32 \<Rightarrow> 'z file_st_scheme \<Rightarrow> 'z file_st_scheme res" where
  "thread_exit rv s =
     bnd (curproc s) (\<lambda>c.
     bnd (close_files c s) (\<lambda>s.
     bnd (drop_cwd c s) (\<lambda>s.
     bnd (acquire_ptable s) (\<lambda>s.
     let s = wakeup1_proc (main_thread (ptable s ! c)) s;
         s = adopt_threads c s
     in sched (upd_proc c (\<lambda>p. p\<lparr>retval := rv, p_state := ZOMBIE\<rparr>) s)))))"

text \<open>
  The stack areas of the threads of a process are chained by \<open>start\<close> and \<open>end\<close>: the area
  above that of the joined thread takes over its lower bound.
\<close>

definition merge_area :: "nat \<Rightarrow> 'z proc_st_scheme \<Rightarrow> 'z proc_st_scheme" where
  "merge_area i s =
     (case find_idx (\<lambda>k. p_end k = p_start (ptable s ! i)) (ptable s) of
        Some k \<Rightarrow> upd_proc k (\<lambda>q. q\<lparr>p_end := p_end (ptable s ! i)\<rparr>) s
      | None \<Rightarrow> s)"

definition thread_reap :: "nat \<Rightarrow> nat \<Rightarrow> u32 \<Rightarrow> 'z proc_st_scheme \<Rightarrow> (int \<times> 'z proc_st_scheme) res" where
  "thread_reap c i rv s =
     bnd (kfree s (p_kstack (ptable s ! i))) (\<lambda>s.
     let s = upd_proc i (\<lambda>p. p\<lparr>p_kstack := 0, p_pid := 0, p_parent := None,
               p_name := (p_name p)[0 := 0], p_killed := False, p_state := UNUSED,
               t_flag := 0, tid := 0, p_sz := 0\<rparr>) s
     in bnd (uwrite s (p_pgdir (ptable s ! c)) rv (bytes32 (retval (ptable s ! i)))) (\<lambda>s.
        let s = merge_area i s;
            p = ptable s ! i;
            s = (if p_start p = p_sz (ptable s ! c)
                 then upd_all (\<lambda>_ k. if p_state k \<noteq> UNUSED \<and> ptid k = ptid (ptable s ! c)
                        then k\<lparr>p_sz := p_end p\<rparr> else k) s
                 else s)
        in bnd (deallocuvm s (p_pgdir p) (p_start p) (p_start p - 2 * PGSIZE)) (\<lambda>(_, s).
           bnd (release_ptable (upd_proc i (\<lambda>p. p\<lparr>p_start := 0, p_end := 0\<rparr>) s)) (\<lambda>s.
           Ok (0, s)))))"

definition thread_join :: "int \<Rightarrow> u32 \<Rightarrow> 'z proc_st_scheme \<Rightarrow> (int \<times> 'z proc_st_scheme) res" where
  "thread_join th rv s =
     bnd (curproc s) (\<lambda>c.
     bnd (acquire_ptable s) (\<lambda>s.
     let mine = (\<lambda>p. main_thread p = Some c \<and> tid p = th)
     in case find_idx (\<lambda>p. mine p \<and> p_state p = ZOMBIE) (ptable s) of
          Some i \<Rightarrow> thread_reap c i rv s
        | None \<Rightarrow>
            if (\<forall>p \<in> set (ptable s). \<not> mine p) \<or> p_killed (ptable s ! c)
            then bnd (release_ptable s) (\<lambda>s. Ok (-1, s))
            else Sleeps (ProcChan c)))"

text \<open>\<open>forkret\<close>; \<open>first\<close> is its static variable.\<close>

definition forkret :: "bool \<Rightarrow> 'z fs_st_scheme \<Rightarrow> (bool \<times> 'z fs_st_scheme) res" where
  "forkret first s =
     bnd (release_ptable s) (\<lambda>s.
     if first then bnd (iinit ROOTDEV s) (\<lambda>s. bnd (initlog ROOTDEV s) (\<lambda>s. Ok (False, s)))
     else Ok (first, s))"

section \<open>The process table stays well formed\<close>

definition proc_ok :: "proc \<Rightarrow> bool" where
  "proc_ok p \<longleftrightarrow> length (p_ofile p) = NOFILE \<and> length (p_name p) = 16 \<and> (\<forall>f. Some f \<in> set (p_ofile p) \<longrightarrow> f < NFILE)"

definition ptable_ok :: "'z proc_st_scheme \<Rightarrow> bool" where
  "ptable_ok s \<longleftrightarrow> length (ptable s) = NPROC \<and> (\<forall>i<NPROC. proc_ok (ptable s ! i)) \<and> (\<forall>i. cur s = Some i \<longrightarrow> i < NPROC)"

definition live :: "nat \<Rightarrow> 'z proc_st_scheme \<Rightarrow> bool" where
  "live i s \<longleftrightarrow> i < length (ptable s) \<and> p_state (ptable s ! i) \<noteq> UNUSED"

definition pids_ok :: "'z proc_st_scheme \<Rightarrow> bool" where
  "pids_ok s \<longleftrightarrow> 0 < nextpid s \<and> (\<forall>i. live i s \<longrightarrow> 0 < p_pid (ptable s ! i) \<and> p_pid (ptable s ! i) < nextpid s) \<and>
     (\<forall>i j. live i s \<longrightarrow> live j s \<longrightarrow> p_pid (ptable s ! i) = p_pid (ptable s ! j) \<longrightarrow> i = j)"

text \<open>
  \<open>keeps_ok\<close>: a step keeps both; \<open>grows\<close>: it also frees no slot.  The routines on memory and the
  changes of single slots are the building blocks.
\<close>

definition keeps_ok :: "'z proc_st_scheme \<Rightarrow> 'z proc_st_scheme \<Rightarrow> bool" where
  "keeps_ok s t \<longleftrightarrow> (ptable_ok s \<and> pids_ok s \<longrightarrow> ptable_ok t \<and> pids_ok t)"

definition grows :: "'z proc_st_scheme \<Rightarrow> 'z proc_st_scheme \<Rightarrow> bool" where
  "grows s t \<longleftrightarrow> keeps_ok s t \<and> (\<forall>i. live i s \<longrightarrow> live i t)"

lemma keeps_refl [simp]: "keeps_ok s s" "grows s s"
  by (simp_all add: keeps_ok_def grows_def)

lemma keeps_trans [trans]: "keeps_ok s t \<Longrightarrow> keeps_ok t u \<Longrightarrow> keeps_ok s u"
  by (simp add: keeps_ok_def)

lemma grows_trans [trans]: "grows s t \<Longrightarrow> grows t u \<Longrightarrow> grows s u"
  by (simp add: grows_def keeps_ok_def)

lemma grows_keeps: "grows s t \<Longrightarrow> keeps_ok s t"
  by (simp add: grows_def)

lemma grows_same: "ptable t = ptable s \<Longrightarrow> cur t = cur s \<Longrightarrow> nextpid t = nextpid s \<Longrightarrow> grows s t"
  by (simp add: grows_def keeps_ok_def ptable_ok_def pids_ok_def live_def)

lemma mem_only_proc:
  assumes "mem_only s t"
  shows "ptable t = ptable s" "cur t = cur s" "nextpid t = nextpid s" "ptable_held t = ptable_held s"
    "initproc t = initproc s"
  by (subst mem_onlyD [OF assms], simp)+

lemma grows_mem: "mem_only s t \<Longrightarrow> grows s t"
  by (intro grows_same mem_only_proc)

text \<open>Slot by slot: what each slot keeps, and when it may be in use afterwards.\<close>

definition slot_ok :: "proc \<Rightarrow> proc \<Rightarrow> bool" where
  "slot_ok p q \<longleftrightarrow> (proc_ok p \<longrightarrow> proc_ok q) \<and> (p_state q \<noteq> UNUSED \<longrightarrow> p_state p \<noteq> UNUSED \<and> p_pid q = p_pid p)"

lemma slot_ok_refl [simp]: "slot_ok p p"
  by (simp add: slot_ok_def)

lemma nth_update_if: "xs[i := x] ! j = (if i = j \<and> j < length xs then x else xs ! j)"
  by (cases "i < length xs") (auto simp: list_update_beyond not_less)

lemma keeps_slots:
  assumes "length (ptable t) = length (ptable s)" "\<forall>i<length (ptable s). slot_ok (ptable s ! i) (ptable t ! i)"
    "nextpid t = nextpid s" "cur t = cur s \<or> cur t = None"
  shows "keeps_ok s t"
proof -
  have l: "live i s \<and> p_pid (ptable t ! i) = p_pid (ptable s ! i)" if "live i t" for i
    using that assms(1,2) by (auto simp: live_def slot_ok_def)
  have "ptable_ok t" if "ptable_ok s" using that assms by (auto simp: ptable_ok_def slot_ok_def)
  moreover have "pids_ok t" if "pids_ok s" using that l assms(3) by (metis pids_ok_def)
  ultimately show ?thesis by (simp add: keeps_ok_def)
qed

lemma keeps_upd_proc:
  "slot_ok (ptable s ! i) (f (ptable s ! i)) \<Longrightarrow> keeps_ok s (upd_proc i f s)"
  by (intro keeps_slots) (auto simp: upd_proc_def nth_update_if)

lemma keeps_upd_all: "(\<And>i. slot_ok (ptable s ! i) (f i (ptable s ! i))) \<Longrightarrow> keeps_ok s (upd_all f s)"
  by (intro keeps_slots) (auto simp: upd_all_def)

lemma grows_upd_proc:
  "(proc_ok (ptable s ! i) \<Longrightarrow> proc_ok (f (ptable s ! i))) \<Longrightarrow> p_state (f (ptable s ! i)) = p_state (ptable s ! i) \<Longrightarrow>
   p_pid (f (ptable s ! i)) = p_pid (ptable s ! i) \<Longrightarrow> grows s (upd_proc i f s)"
  unfolding grows_def using keeps_upd_proc [of s i f]
  by (auto simp: slot_ok_def live_def upd_proc_def nth_update_if split: if_splits)

lemma proc_ok_name: "length (p_name p) = 16 \<Longrightarrow> length (safestrcpy_name (p_name p) n 16) = 16"
proof -
  assume l: "length (p_name p) = 16"
  let ?k = "takeWhile (\<lambda>c. c \<noteq> 0) (take 15 n)"
  have "length ?k \<le> 15" by (metis length_takeWhile_le length_take min.cobounded2 le_trans)
  then show ?thesis using l by (auto simp: safestrcpy_name_def Let_def splice_def)
qed

text \<open>While the process \<open>c\<close> fills the slot \<open>n\<close> of a new process or thread.\<close>

definition forking :: "nat \<Rightarrow> nat \<Rightarrow> 'z proc_st_scheme \<Rightarrow> bool" where
  "forking c n s \<longleftrightarrow> ptable_ok s \<and> pids_ok s \<and> cur s = Some c \<and> live n s"

lemma forkingD: "forking c n s \<Longrightarrow> ptable_ok s \<and> pids_ok s"
  by (simp add: forking_def)

lemma forking_grows: "forking c n s \<Longrightarrow> grows s t \<Longrightarrow> cur t = cur s \<Longrightarrow> forking c n t"
  by (simp add: forking_def grows_def keeps_ok_def)

lemma forking_mem: "forking c n s \<Longrightarrow> mem_only s t \<Longrightarrow> forking c n t"
  by (rule forking_grows) (simp_all add: grows_mem mem_only_proc)

lemma forking_memory [simp]: "forking c n (s\<lparr>memory := m\<rparr>) = forking c n s"
  "forking c n (s\<lparr>ptable_held := h\<rparr>) = forking c n s" "forking c n (s\<lparr>nexttid := k\<rparr>) = forking c n s"
  by (simp_all add: forking_def ptable_ok_def pids_ok_def live_def)

lemma forking_upd:
  "forking c n s \<Longrightarrow> (proc_ok (ptable s ! i) \<Longrightarrow> proc_ok (f (ptable s ! i))) \<Longrightarrow>
   p_state (f (ptable s ! i)) = p_state (ptable s ! i) \<Longrightarrow> p_pid (f (ptable s ! i)) = p_pid (ptable s ! i) \<Longrightarrow>
   forking c n (upd_proc i f s)"
  by (erule forking_grows) (simp_all add: grows_upd_proc)

lemma forking_group: "forking c n s \<Longrightarrow> forking c n (set_group_sz g sz s)"
proof (erule forking_grows)
  have "keeps_ok s (set_group_sz g sz s)" unfolding set_group_sz_def
    by (rule keeps_upd_all) (simp add: slot_ok_def proc_ok_def)
  then show "grows s (set_group_sz g sz s)"
    by (auto simp: grows_def live_def set_group_sz_def upd_all_def)
qed (simp add: set_group_sz_def upd_all_def)

lemma forking_file:
  assumes "forking c n s" "p_ofile (ptable s ! c) ! k = Some f" "k < NOFILE"
  shows "f < NFILE"
proof -
  have "c < NPROC" using assms(1) by (simp add: forking_def ptable_ok_def)
  then have "proc_ok (ptable s ! c)" using assms(1) by (simp add: forking_def ptable_ok_def)
  then show ?thesis using assms(2,3) by (metis proc_ok_def nth_mem)
qed

lemma dup_files_forking:
  assumes "forking c n s" "dup_files c n s = Ok t"
  shows "forking c n t"
  using assms(2) unfolding dup_files_def
proof (rule for_each_inv)
  show "forking c n s" by fact
next
  fix k u v
  assume k: "k \<in> set [0..<NOFILE]" and u: "forking c n u"
    and v: "(case p_ofile (ptable u ! c) ! k of None \<Rightarrow> Ok u
      | Some f \<Rightarrow> bnd (filedup f u) (\<lambda>(g, s). Ok (upd_proc n (\<lambda>p. p\<lparr>p_ofile := (p_ofile p)[k := Some g]\<rparr>) s))) = Ok v"
  show "forking c n v"
  proof (cases "p_ofile (ptable u ! c) ! k")
    case None
    with v u show ?thesis by simp
  next
    case (Some f)
    let ?u = "upd_file f (\<lambda>f. f\<lparr>f_ref := f_ref f + 1\<rparr>) u"
    have f: "f < NFILE" using forking_file [OF u Some] k by simp
    have "forking c n ?u" using u by (rule forking_grows) (simp_all add: grows_same upd_file_def)
    moreover have "v = upd_proc n (\<lambda>p. p\<lparr>p_ofile := (p_ofile p)[k := Some f]\<rparr>) ?u"
      using v Some by (auto simp: filedup_def split: if_splits)
    ultimately show ?thesis using f
      by (simp only:, intro forking_upd) (auto simp: proc_ok_def dest: set_update_subset_insert [THEN subsetD])
  qed
qed

lemma dup_cwd_forking: "forking c n s \<Longrightarrow> dup_cwd c n s = Ok t \<Longrightarrow> forking c n t"
proof -
  assume f: "forking c n s" and d: "dup_cwd c n s = Ok t"
  then obtain d where t: "t = upd_proc n (\<lambda>p. p\<lparr>p_cwd := Some d\<rparr>) (upd_inode d (\<lambda>ip. ip\<lparr>i_ref := i_ref ip + 1\<rparr>) s)"
    by (auto simp: dup_cwd_def idup_def split: option.splits)
  have "forking c n (upd_inode d (\<lambda>ip. ip\<lparr>i_ref := i_ref ip + 1\<rparr>) s)" using f
    by (rule forking_grows) (simp_all add: grows_same upd_inode_def)
  then show ?thesis unfolding t by (rule forking_upd) (simp_all add: proc_ok_def)
qed

lemma copy_name_forking: "forking c n s \<Longrightarrow> forking c n (copy_name c n s)"
  unfolding copy_name_def by (rule forking_upd) (auto simp: proc_ok_def proc_ok_name)

lemma forking_runnable:
  assumes "forking c n s"
  shows "ptable_ok (upd_proc n (\<lambda>p. p\<lparr>p_state := RUNNABLE\<rparr>) s) \<and> pids_ok (upd_proc n (\<lambda>p. p\<lparr>p_state := RUNNABLE\<rparr>) s)"
proof -
  have "slot_ok (ptable s ! n) ((ptable s ! n)\<lparr>p_state := RUNNABLE\<rparr>)"
    using assms by (simp add: slot_ok_def proc_ok_def forking_def live_def)
  from keeps_upd_proc [of s n "\<lambda>p. p\<lparr>p_state := RUNNABLE\<rparr>", OF this] show ?thesis
    using assms by (simp add: keeps_ok_def forking_def)
qed

text \<open>\<open>allocproc\<close> gives out a pid that no process has.\<close>

lemma new_pid:
  assumes "ptable_ok s" "pids_ok s" "i < length (ptable s)" "p_state (ptable s ! i) = UNUSED"
    "t = (upd_proc i (init_proc (nextpid s)) s)\<lparr>nextpid := nextpid s + 1, pcount := k\<rparr>"
  shows "ptable_ok t \<and> pids_ok t \<and> live i t"
proof -
  have "live j t \<longleftrightarrow> j = i \<or> live j s" for j
    using assms(3-5) by (auto simp: live_def nth_upd_proc init_proc_def)
  moreover have "p_pid (ptable t ! j) = (if j = i then nextpid s else p_pid (ptable s ! j))" for j
    using assms(3,5) by (simp add: nth_upd_proc init_proc_def)
  moreover have "\<not> live i s" using assms(4) by (simp add: live_def)
  moreover have "nextpid t = nextpid s + 1" using assms(5) by simp
  ultimately have "pids_ok t \<and> live i t" using assms(2) unfolding pids_ok_def
    by (auto split: if_splits)
  moreover have "ptable_ok t"
    using assms(1,3,5) by (auto simp: ptable_ok_def nth_upd_proc init_proc_def proc_ok_def)
  ultimately show ?thesis by blast
qed

lemma allocproc_table:
  assumes "allocproc s = Ok (r, t)" "find_idx (\<lambda>p. p_state p = UNUSED) (ptable s) = Some i"
  shows "\<exists>q. ptable t = (ptable s)[i := q] \<and> nextpid t = nextpid s + 1 \<and> cur t = cur s \<and> p_ofile q = p_ofile (ptable s ! i) \<and>
     p_name q = p_name (ptable s ! i) \<and> p_pid q = nextpid s \<and>
     (r = None \<and> p_state q = UNUSED \<or> r = Some i \<and> p_state q = EMBRYO)"
proof -
  define s1 where "s1 = (upd_proc i (init_proc (nextpid s)) (s\<lparr>ptable_held := True\<rparr>))
    \<lparr>nextpid := nextpid s + 1, pcount := pcount s + 1, ptable_held := False\<rparr>"
  obtain k s2 where k: "kalloc s1 = (k, s2)" by (cases "kalloc s1")
  have i: "i < length (ptable s)" using assms(2) by (rule find_idx_less)
  note f = mem_only_proc [OF kalloc_frame [OF k]]
  have p2: "ptable s2 = (ptable s)[i := init_proc (nextpid s) (ptable s ! i)]" "nextpid s2 = nextpid s + 1" "cur s2 = cur s"
    by (simp_all add: f s1_def upd_proc_def)
  show ?thesis
  proof (cases "k = 0")
    case True
    with assms k have "r = None" "t = upd_proc i (\<lambda>p. p\<lparr>p_state := UNUSED\<rparr>) (upd_proc i (\<lambda>p. p\<lparr>p_kstack := 0\<rparr>) s2)"
      by (simp_all add: allocproc_def res_iff s1_def Let_def acquire_ptable_def release_ptable_def upd_proc_def split: if_splits)
    then show ?thesis using i
      by (intro exI [of _ "(init_proc (nextpid s) (ptable s ! i))\<lparr>p_kstack := 0, p_state := UNUSED\<rparr>"])
        (simp add: upd_proc_def p2 init_proc_def)
  next
    case False
    with assms k obtain m tf cx where "r = Some i" "t = (upd_proc i (\<lambda>p. p\<lparr>p_context := cx\<rparr>)
        (upd_proc i (\<lambda>p. p\<lparr>p_tf := tf\<rparr>) (upd_proc i (\<lambda>p. p\<lparr>p_kstack := k\<rparr>) s2)))\<lparr>memory := m\<rparr>"
      by (auto simp: allocproc_def res_iff s1_def Let_def acquire_ptable_def release_ptable_def upd_proc_def split: if_splits)
    then show ?thesis using i
      by (intro exI [of _ "(init_proc (nextpid s) (ptable s ! i))\<lparr>p_kstack := k, p_tf := tf, p_context := cx\<rparr>"])
        (simp add: upd_proc_def p2 init_proc_def)
  qed
qed

lemma allocproc_keeps:
  assumes "allocproc s = Ok (r, t)" "ptable_ok s" "pids_ok s"
  shows "ptable_ok t \<and> pids_ok t \<and> cur t = cur s \<and> (\<forall>n. r = Some n \<longrightarrow> live n t)"
proof (cases "find_idx (\<lambda>p. p_state p = UNUSED) (ptable s)")
  case None
  then have "t = s \<and> r = None" using assms(1) by (auto simp: allocproc_def res_iff)
  then show ?thesis using assms by simp
next
  case (Some i)
  then have i: "i < length (ptable s)" "p_state (ptable s ! i) = UNUSED" by (auto simp: find_idx_Some)
  let ?s = "(upd_proc i (init_proc (nextpid s)) s)\<lparr>nextpid := nextpid s + 1, pcount := 0\<rparr>"
  have s: "ptable_ok ?s \<and> pids_ok ?s" using new_pid [OF assms(2,3) i refl] by blast
  from allocproc_table [OF assms(1) Some] obtain q where q: "ptable t = (ptable s)[i := q]" "nextpid t = nextpid s + 1"
    "cur t = cur s" "p_ofile q = p_ofile (ptable s ! i)" "p_name q = p_name (ptable s ! i)" "p_pid q = nextpid s"
    "r = None \<and> p_state q = UNUSED \<or> r = Some i \<and> p_state q = EMBRYO" by blast
  have "keeps_ok ?s t"
    using i q by (intro keeps_slots) (auto simp: upd_proc_def nth_update_if slot_ok_def proc_ok_def init_proc_def)
  with s have "ptable_ok t \<and> pids_ok t" by (simp add: keeps_ok_def)
  moreover have "\<forall>n. r = Some n \<longrightarrow> live n t" using i q by (auto simp: live_def)
  ultimately show ?thesis using q(3) by simp
qed

lemma allocproc_forking:
  "allocproc s = Ok (Some n, t) \<Longrightarrow> ptable_ok s \<Longrightarrow> pids_ok s \<Longrightarrow> cur s = Some c \<Longrightarrow> forking c n t"
  using allocproc_keeps [of s "Some n" t] by (simp add: forking_def)

lemma forking_unused:
  assumes "forking c n s"
  shows "ptable_ok (upd_proc n (\<lambda>p. p\<lparr>p_kstack := 0, p_state := UNUSED\<rparr>) s) \<and>
    pids_ok (upd_proc n (\<lambda>p. p\<lparr>p_kstack := 0, p_state := UNUSED\<rparr>) s)"
  using keeps_upd_proc [of s n "\<lambda>p. p\<lparr>p_kstack := 0, p_state := UNUSED\<rparr>"] assms
  by (simp add: keeps_ok_def forking_def slot_ok_def proc_ok_def)

lemma fork_copy_forking:
  assumes "fork_copy c s = Ok (r, t)" "ptable_ok s" "pids_ok s" "cur s = Some c"
  shows "ptable_ok t \<and> pids_ok t \<and> (\<forall>n. r = Some n \<longrightarrow> forking c n t)"
proof -
  from assms(1) obtain np s1 where s1: "allocproc s = Ok (np, s1)" by (auto simp: fork_copy_def res_iff)
  show ?thesis
  proof (cases np)
    case None
    then show ?thesis using assms s1 allocproc_keeps [OF s1] by (auto simp: fork_copy_def)
  next
    case (Some n)
    with s1 assms have f1: "forking c n s1" by (auto intro: allocproc_forking)
    from assms(1) s1 Some obtain d s2 where s2: "copyuvm s1 (p_pgdir (ptable s1 ! c)) (p_sz (ptable s1 ! c)) = Ok (d, s2)"
      by (auto simp: fork_copy_def res_iff)
    let ?s3 = "upd_proc n (\<lambda>p. p\<lparr>p_pgdir := d\<rparr>) s2"
    have f3: "forking c n ?s3"
      by (rule forking_upd [OF forking_mem [OF f1 copyuvm_frame [OF s2]]]) (simp_all add: proc_ok_def)
    show ?thesis
    proof (cases "d = 0")
      case True
      with assms(1) s1 Some s2 obtain u where "kfree ?s3 (p_kstack (ptable ?s3 ! n)) = Ok u" "r = None"
        "t = upd_proc n (\<lambda>p. p\<lparr>p_kstack := 0, p_state := UNUSED\<rparr>) u" by (auto simp: fork_copy_def res_iff Let_def)
      then show ?thesis using forking_unused [OF forking_mem [OF f3 kfree_frame]] by simp
    next
      case False
      let ?s4 = "upd_proc n (\<lambda>p. p\<lparr>p_sz := p_sz (ptable ?s3 ! c), p_parent := Some c\<rparr>) ?s3"
      let ?s5 = "(copy_tf c n ?s4)\<lparr>memory := store32 (memory (copy_tf c n ?s4)) (p_tf (ptable (copy_tf c n ?s4) ! n) + TF_EAX) 0\<rparr>"
      have "forking c n ?s4" by (rule forking_upd [OF f3]) (simp_all add: proc_ok_def)
      then have f5: "forking c n ?s5" by (simp add: copy_tf_def)
      from False assms(1) s1 Some s2 obtain u v where u: "dup_files c n ?s5 = Ok u" "dup_cwd c n u = Ok v" "r = Some n"
        "t = copy_name c n v" by (auto simp: fork_copy_def res_iff Let_def)
      have "forking c n t" unfolding u(4)
        by (rule copy_name_forking [OF dup_cwd_forking [OF dup_files_forking [OF f5 u(1)] u(2)]])
      then show ?thesis using u(3) by (simp add: forking_def)
    qed
  qed
qed

lemma ok_held [simp]: "ptable_ok (s\<lparr>ptable_held := h\<rparr>) = ptable_ok s" "pids_ok (s\<lparr>ptable_held := h\<rparr>) = pids_ok s"
  by (simp_all add: ptable_ok_def pids_ok_def live_def)

lemma fork_keeps:
  assumes "fork s = Ok (r, t)"
  shows "keeps_ok s t"
proof -
  from assms obtain c np u where c: "cur s = Some c" "fork_copy c s = Ok (np, u)" by (auto simp: fork_def res_iff)
  have "ptable_ok t \<and> pids_ok t" if ok: "ptable_ok s" "pids_ok s"
  proof -
    note u = fork_copy_forking [OF c(2) ok c(1)]
    show ?thesis
    proof (cases np)
      case None
      with assms c u show ?thesis by (simp add: fork_def curproc_def)
    next
      case (Some n)
      with u have "forking c n (u\<lparr>ptable_held := True\<rparr>)" by simp
      from forking_runnable [OF this] show ?thesis using assms c Some by (auto simp: fork_def curproc_def res_iff)
    qed
  qed
  then show ?thesis by (simp add: keeps_ok_def)
qed

lemma uwrite_frame [mem_frame]: "uwrite s pd va bs = Ok t \<Longrightarrow> mem_only s t"
  by (induction s pd va bs rule: uwrite.induct) (auto split: option.splits)

lemma growproc_keeps:
  assumes "growproc n s = Ok (r, t)"
  shows "keeps_ok s t"
proof -
  from assms obtain c sz u where u: "cur s = Some c" "(if n > 0 then allocuvm s (p_pgdir (ptable s ! c)) (p_sz (ptable s ! c)) (p_sz (ptable s ! c) + word_of_int n)
      else if n < 0 then deallocuvm s (p_pgdir (ptable s ! c)) (p_sz (ptable s ! c)) (p_sz (ptable s ! c) + word_of_int n)
      else Ok (p_sz (ptable s ! c), s)) = Ok (sz, u)"
    by (auto simp: growproc_def Let_def bnd_eq_Ok curproc_iff)
  have g: "keeps_ok s u" using u(2) by (auto intro!: grows_keeps grows_mem split: if_splits dest: allocuvm_frame deallocuvm_frame)
  let ?v = "upd_proc c (\<lambda>p. p\<lparr>p_sz := sz\<rparr>) u"
  have "keeps_ok u ?v" by (rule keeps_upd_proc) (simp add: slot_ok_def proc_ok_def)
  moreover have "keeps_ok ?v (?v\<lparr>esp0 := a, cr3 := b\<rparr>)" for a b by (rule grows_keeps [OF grows_same]) simp_all
  moreover have "t = u \<or> (\<exists>a b. t = ?v\<lparr>esp0 := a, cr3 := b\<rparr>)"
    using assms u by (auto simp: growproc_def Let_def curproc_def switchuvm_def bnd_eq_Ok split: if_splits)
  ultimately show ?thesis using g by (blast intro: keeps_trans)
qed

text \<open>The loops of \<open>wait\<close> and the ends of \<open>wait\<close> and \<open>thread_join\<close> free slots.\<close>

lemma keeps_free:
  assumes "\<And>p. proc_ok p \<Longrightarrow> proc_ok (f p)" "\<And>p. p_state (f p) = UNUSED"
  shows "keeps_ok s (upd_proc i f s)"
  using assms by (intro keeps_upd_proc) (simp add: slot_ok_def)

lemma wait_threads_keeps:
  fixes s :: "'z proc_st_scheme"
  assumes "wait_threads i s = Ok t"
  shows "keeps_ok s t"
proof -
  show ?thesis using assms unfolding wait_threads_def
  proof (rule for_each_inv)
    fix k and u v :: "'z proc_st_scheme"
    let ?f = "\<lambda>q. q\<lparr>p_kstack := 0, p_pid := 0, p_parent := None, p_name := (p_name q)[0 := 0], p_killed := False,
      p_state := UNUSED, t_flag := 0, tid := 0\<rparr>"
    let ?u = "upd_proc k ?f u"
    assume u: "keeps_ok s u" and v: "(if main_thread (ptable u ! k) = Some i then
         let s = ?u; p = ptable s ! i
         in bnd (deallocuvm s (p_pgdir p) (p_start p) (p_start p - 2 * PGSIZE)) (\<lambda>(sz, s).
            Ok (upd_proc k (\<lambda>q. q\<lparr>p_sz := sz\<rparr>) s))
       else Ok u) = Ok v"
    have f: "keeps_ok u ?u" by (rule keeps_free) (auto simp: proc_ok_def)
    have g: "keeps_ok w (upd_proc k (\<lambda>q. q\<lparr>p_sz := sz\<rparr>) w)" for w :: "'z proc_st_scheme" and sz
      by (rule keeps_upd_proc) (simp add: slot_ok_def proc_ok_def)
    from v have "v = u \<or> (\<exists>w sz. mem_only ?u w \<and> v = upd_proc k (\<lambda>q. q\<lparr>p_sz := sz\<rparr>) w)"
      by (auto simp: Let_def bnd_eq_Ok split: if_splits dest!: deallocuvm_frame)
    then show "keeps_ok s v" using u f g by (meson grows_keeps grows_mem keeps_trans)
  qed simp
qed

lemma wait_keeps:
  fixes s :: "'z proc_st_scheme"
  assumes "wait s = Ok (r, t)"
  shows "keeps_ok s t"
proof -
  from assms obtain c where c: "cur s = Some c" "\<not> ptable_held s" by (auto simp: wait_def res_iff)
  let ?s = "s\<lparr>ptable_held := True\<rparr>"
  have h: "keeps_ok s ?s" "keeps_ok w (w\<lparr>ptable_held := False\<rparr>)" for w :: "'z proc_st_scheme"
    by (rule grows_keeps [OF grows_same], simp_all)+
  show ?thesis
  proof (cases "find_idx (\<lambda>p. p_parent p = Some c \<and> p_state p = ZOMBIE) (ptable s)")
    case None
    with assms c have "t = ?s\<lparr>ptable_held := False\<rparr>" by (auto simp: wait_def curproc_def acquire_ptable_def release_ptable_def split: if_splits)
    with h show ?thesis by (blast intro: keeps_trans)
  next
    case (Some i)
    let ?f = "\<lambda>p. p\<lparr>p_pid := 0, p_parent := None, p_name := (p_name p)[0 := 0], p_killed := False, p_state := UNUSED\<rparr>"
    from assms c Some obtain u v w where w: "wait_threads i ?s = Ok u" "kfree u (p_kstack (ptable u ! i)) = Ok v"
      "freevm (upd_proc i (\<lambda>p. p\<lparr>p_kstack := 0\<rparr>) v) (p_pgdir (ptable (upd_proc i (\<lambda>p. p\<lparr>p_kstack := 0\<rparr>) v) ! i)) = Ok w"
      "t = (upd_proc i ?f w)\<lparr>ptable_held := False\<rparr>"
      by (auto simp: wait_def wait_reap_def curproc_def acquire_ptable_def res_iff Let_def)
    have "keeps_ok v (upd_proc i (\<lambda>p. p\<lparr>p_kstack := 0\<rparr>) v)" by (rule keeps_upd_proc) (simp add: slot_ok_def proc_ok_def)
    moreover have "keeps_ok w (upd_proc i ?f w)" by (rule keeps_free) (auto simp: proc_ok_def)
    ultimately show ?thesis unfolding w(4)
      using h wait_threads_keeps [OF w(1)] grows_keeps [OF grows_mem [OF kfree_frame [OF w(2)]]]
        grows_keeps [OF grows_mem [OF freevm_frame [OF w(3)]]] by (meson keeps_trans)
  qed
qed

lemma thread_start_forking:
  assumes "forking c n s" "thread_start c n th f sp sz s = Ok (r, t)"
  shows "ptable_ok t \<and> pids_ok t"
proof -
  let ?p = "ptable s ! c"
  define s1 where "s1 = upd_proc n (\<lambda>q. q\<lparr>ptid := (if t_flag ?p = 0 then p_pid ?p else ptid ?p), t_flag := 1\<rparr>) s"
  define s2 where "s2 = upd_proc n (inherit_class ?p) s1"
  define s3 where "s3 = upd_proc c (\<lambda>p. p\<lparr>havet := 1\<rparr>) s2"
  define s4 where "s4 = upd_proc n (\<lambda>q. q\<lparr>main_thread := Some c\<rparr>) s3"
  define s5 where "s5 = upd_proc c (\<lambda>p. p\<lparr>thread_count := thread_count p + 1\<rparr>) s4"
  define s6 where "s6 = upd_proc n (\<lambda>q. q\<lparr>tid := nexttid s5\<rparr>) s5"
  have "forking c n s1" unfolding s1_def by (rule forking_upd [OF assms(1)]) (simp_all add: proc_ok_def)
  then have "forking c n s2" unfolding s2_def by (rule forking_upd) (simp_all add: proc_ok_def inherit_class_def)
  then have "forking c n s3" unfolding s3_def by (rule forking_upd) (simp_all add: proc_ok_def)
  then have "forking c n s4" unfolding s4_def by (rule forking_upd) (simp_all add: proc_ok_def)
  then have "forking c n s5" unfolding s5_def by (rule forking_upd) (simp_all add: proc_ok_def)
  then have "forking c n s6" unfolding s6_def by (rule forking_upd) (simp_all add: proc_ok_def)
  then have f6: "forking c n (s6\<lparr>nexttid := nexttid s6 + 1\<rparr>)" by simp
  from assms(2) obtain u where u: "uwrite (s6\<lparr>nexttid := nexttid s6 + 1\<rparr>) (p_pgdir ?p) th (bytes32 (word_of_int (tid (ptable s6 ! n)))) = Ok u"
    unfolding thread_start_def s1_def [symmetric] Let_def s2_def [symmetric] s3_def [symmetric] s4_def [symmetric]
      s5_def [symmetric] s6_def [symmetric] by (auto simp: bnd_eq_Ok)
  define s7 where "s7 = copy_tf c n (upd_proc n (\<lambda>q. q\<lparr>p_pgdir := p_pgdir ?p\<rparr>) u)"
  define s8 where "s8 = s7\<lparr>memory := store32 (store32 (memory s7) (p_tf (ptable s7 ! n) + TF_EIP) f) (p_tf (ptable s7 ! n) + TF_ESP) sp\<rparr>"
  define s9 where "s9 = set_group_sz (ptid (ptable s8 ! c)) sz s8"
  have "forking c n (upd_proc n (\<lambda>q. q\<lparr>p_pgdir := p_pgdir ?p\<rparr>) u)"
    by (rule forking_upd [OF forking_mem [OF f6 uwrite_frame [OF u]]]) (simp_all add: proc_ok_def)
  then have "forking c n s8" by (simp add: s8_def s7_def copy_tf_def)
  then have f9: "forking c n (s9\<lparr>ptable_held := False\<rparr>)" by (simp add: s9_def forking_group)
  from assms(2) u obtain v w where w: "dup_files c n (s9\<lparr>ptable_held := False\<rparr>) = Ok v" "dup_cwd c n v = Ok w"
    "t = (upd_proc n (\<lambda>q. q\<lparr>p_state := RUNNABLE\<rparr>) ((copy_name c n w)\<lparr>ptable_held := True\<rparr>))\<lparr>ptable_held := False\<rparr>"
    unfolding thread_start_def s1_def [symmetric] Let_def s2_def [symmetric] s3_def [symmetric] s4_def [symmetric]
      s5_def [symmetric] s6_def [symmetric] by (auto simp: res_iff s7_def s8_def s9_def)
  have "forking c n ((copy_name c n w)\<lparr>ptable_held := True\<rparr>)"
    using copy_name_forking [OF dup_cwd_forking [OF dup_files_forking [OF f9 w(1)] w(2)]] by simp
  from forking_runnable [OF this] show ?thesis by (simp add: w(3))
qed

lemma thread_create_keeps:
  assumes "thread_create th f arg s = Ok (r, t)"
  shows "keeps_ok s t"
proof -
  from assms obtain c np s1 where c: "cur s = Some c" "allocproc s = Ok (np, s1)"
    by (auto simp: thread_create_def res_iff Let_def)
  let ?pd = "p_pgdir (ptable s ! c)" and ?sz = "p_sz (ptable s ! c)"
  have "ptable_ok t \<and> pids_ok t" if ok: "ptable_ok s" "pids_ok s"
  proof (cases np)
    case None
    with assms c show ?thesis using allocproc_keeps [OF c(2) ok] by (simp add: thread_create_def curproc_def Let_def)
  next
    case (Some n)
    with c ok have f1: "forking c n s1" by (auto intro: allocproc_forking)
    from assms c Some obtain sz s2 where s2: "allocuvm s1 ?pd ?sz (?sz + 2 * PGSIZE) = Ok (sz, s2)"
      by (auto simp: thread_create_def res_iff Let_def)
    have f2: "forking c n s2" by (rule forking_mem [OF f1 allocuvm_frame [OF s2]])
    show ?thesis
    proof (cases "sz = 0")
      case True
      with assms c Some s2 f2 show ?thesis by (simp add: thread_create_def curproc_def Let_def forking_def)
    next
      case False
      with assms c Some s2 obtain s3 where s3: "clearpteu s2 ?pd (p_sz (ptable s2 ! c) - 2 * PGSIZE) = Ok s3"
        by (auto simp: thread_create_def res_iff Let_def)
      define s4 where "s4 = set_group_sz (ptid (ptable s3 ! c)) sz (s3\<lparr>ptable_held := True\<rparr>)"
      define s5 where "s5 = upd_proc n (\<lambda>q. q\<lparr>p_start := p_sz (ptable s4 ! c), p_end := p_sz (ptable s4 ! c) - 2 * PGSIZE\<rparr>)
        (s4\<lparr>ptable_held := True\<rparr>)"
      have "forking c n (s4\<lparr>ptable_held := True\<rparr>)"
        using forking_mem [OF f2 clearpteu_frame [OF s3]] by (simp add: s4_def forking_group)
      then have f5: "forking c n s5" unfolding s5_def by (rule forking_upd) (simp_all add: proc_ok_def)
      from False assms c Some s2 s3 obtain x s6 where s6: "copyout s5 ?pd (p_sz (ptable s4 ! c) - 8) (bytes32 0xffffffff @ bytes32 arg) = Ok (x, s6)"
        and e: "(if x < 0 then Ok (- 1, s6) else thread_start c n th f (p_sz (ptable s4 ! c) - 8) sz s6) = Ok (r, t)"
        by (auto simp: thread_create_def res_iff Let_def s4_def s5_def)
      have "forking c n s6" by (rule forking_mem [OF f5 copyout_frame [OF s6]])
      then show ?thesis using e by (auto split: if_splits dest: thread_start_forking forkingD)
    qed
  qed
  then show ?thesis by (simp add: keeps_ok_def)
qed

lemma thread_reap_keeps:
  fixes s :: "'z proc_st_scheme"
  assumes "thread_reap c i rv s = Ok (r, t)"
  shows "keeps_ok s t"
proof -
  let ?f = "\<lambda>p. p\<lparr>p_kstack := 0, p_pid := 0, p_parent := None, p_name := (p_name p)[0 := 0], p_killed := False,
    p_state := UNUSED, t_flag := 0, tid := 0, p_sz := 0\<rparr>"
  from assms obtain s1 s3 where s1: "kfree s (p_kstack (ptable s ! i)) = Ok s1"
    "uwrite (upd_proc i ?f s1) (p_pgdir (ptable (upd_proc i ?f s1) ! c)) rv (bytes32 (retval (ptable (upd_proc i ?f s1) ! i))) = Ok s3"
    by (auto simp: thread_reap_def bnd_eq_Ok Let_def)
  define s4 where "s4 = merge_area i s3"
  define s5 where "s5 = (if p_start (ptable s4 ! i) = p_sz (ptable s4 ! c)
    then upd_all (\<lambda>_ k. if p_state k \<noteq> UNUSED \<and> ptid k = ptid (ptable s4 ! c) then k\<lparr>p_sz := p_end (ptable s4 ! i)\<rparr> else k) s4
    else s4)"
  from assms s1 obtain x s6 where s6: "deallocuvm s5 (p_pgdir (ptable s4 ! i)) (p_start (ptable s4 ! i)) (p_start (ptable s4 ! i) - 2 * PGSIZE) = Ok (x, s6)"
    "t = (upd_proc i (\<lambda>p. p\<lparr>p_start := 0, p_end := 0\<rparr>) s6)\<lparr>ptable_held := False\<rparr>"
    unfolding s5_def s4_def by (auto simp: thread_reap_def res_iff Let_def)
  have 1: "keeps_ok s1 (upd_proc i ?f s1)" by (rule keeps_free) (auto simp: proc_ok_def)
  have 2: "keeps_ok s3 s4" unfolding s4_def merge_area_def
    by (auto split: option.splits intro!: keeps_upd_proc simp: slot_ok_def proc_ok_def)
  have 3: "keeps_ok s4 s5" unfolding s5_def by (auto intro!: keeps_upd_all simp: slot_ok_def proc_ok_def)
  have 4: "keeps_ok s6 (upd_proc i (\<lambda>p. p\<lparr>p_start := 0, p_end := 0\<rparr>) s6)"
    by (rule keeps_upd_proc) (simp add: slot_ok_def proc_ok_def)
  have 5: "keeps_ok w (w\<lparr>ptable_held := False\<rparr>)" for w :: "'z proc_st_scheme" by (simp add: keeps_ok_def)
  show ?thesis unfolding s6(2)
    using 1 2 3 4 5 s1(1) [THEN kfree_frame, THEN grows_mem, THEN grows_keeps]
      s1(2) [THEN uwrite_frame, THEN grows_mem, THEN grows_keeps] s6(1) [THEN deallocuvm_frame, THEN grows_mem, THEN grows_keeps]
    by (meson keeps_trans)
qed

lemma keeps_held [simp]: "keeps_ok s (t\<lparr>ptable_held := h\<rparr>) = keeps_ok s t" "keeps_ok (s\<lparr>ptable_held := h\<rparr>) t = keeps_ok s t"
  by (simp_all add: keeps_ok_def)

lemma thread_join_keeps:
  assumes "thread_join th rv s = Ok (r, t)"
  shows "keeps_ok s t"
proof -
  from assms obtain c where c: "cur s = Some c" "\<not> ptable_held s" by (auto simp: thread_join_def res_iff)
  with assms have "(\<exists>i. thread_reap c i rv (s\<lparr>ptable_held := True\<rparr>) = Ok (r, t)) \<or> t = s\<lparr>ptable_held := False\<rparr>"
    by (auto simp: thread_join_def curproc_def acquire_ptable_def release_ptable_def Let_def split: option.splits if_splits)
  then show ?thesis by (auto dest: thread_reap_keeps)
qed

lemma wakeup1_keeps: "keeps_ok s (wakeup1 c s)"
  unfolding wakeup1_def by (rule keeps_upd_all) (simp add: slot_ok_def proc_ok_def)

lemma wakeup_keeps: "wakeup c s = Ok t \<Longrightarrow> keeps_ok s t"
  using wakeup1_keeps [of "s\<lparr>ptable_held := True\<rparr>" c] by (auto simp: wakeup_def res_iff)

lemma kill_keeps:
  assumes "kill n s = Ok (r, t)"
  shows "keeps_ok s t"
proof (cases "find_idx (\<lambda>p. p_pid p = n) (ptable s)")
  case None
  with assms show ?thesis by (auto simp: kill_def res_iff)
next
  case (Some i)
  let ?s = "upd_proc i (\<lambda>p. p\<lparr>p_killed := True\<rparr>) (s\<lparr>ptable_held := True\<rparr>)"
  have 1: "keeps_ok (s\<lparr>ptable_held := True\<rparr>) ?s" by (rule keeps_upd_proc) (simp add: slot_ok_def proc_ok_def)
  have 2: "keeps_ok ?s (upd_proc i (\<lambda>p. p\<lparr>p_state := RUNNABLE\<rparr>) ?s)" if "p_state (ptable ?s ! i) = SLEEPING"
    by (rule keeps_upd_proc) (use that in \<open>simp add: slot_ok_def proc_ok_def\<close>)
  from assms Some have "t = (if p_state (ptable ?s ! i) = SLEEPING then upd_proc i (\<lambda>p. p\<lparr>p_state := RUNNABLE\<rparr>) ?s else ?s)\<lparr>ptable_held := False\<rparr>"
    by (auto simp: kill_def res_iff Let_def)
  then show ?thesis using 1 2 by (auto intro: keeps_trans)
qed

lemma sched_keeps: "sched s = Ok t \<Longrightarrow> keeps_ok s t"
  by (auto simp: sched_def scheduler_back_def switchkvm_def res_iff keeps_ok_def ptable_ok_def pids_ok_def live_def
      split: if_splits)

text \<open>A process that runs is in use, so that giving up the CPU does not revive a free slot.\<close>

definition running :: "'z proc_st_scheme \<Rightarrow> bool" where
  "running s \<longleftrightarrow> (\<forall>c. cur s = Some c \<longrightarrow> live c s)"

lemma state_keeps:
  assumes "live c s"
  shows "keeps_ok s (upd_proc c (\<lambda>p. p\<lparr>p_chan := ch p, p_state := st\<rparr>) s)"
  using assms by (intro keeps_upd_proc) (simp add: slot_ok_def proc_ok_def live_def)

lemma yield_keeps: "yield s = Ok t \<Longrightarrow> running s \<Longrightarrow> keeps_ok s t"
  using state_keeps [of _ "s\<lparr>ptable_held := True\<rparr>" RUNNABLE p_chan]
  by (auto simp: yield_def res_iff running_def live_def dest!: sched_keeps intro: keeps_trans)

lemma sleep_enter_keeps:
  assumes "sleep_enter ch b s = Ok t" "running s"
  shows "keeps_ok s t"
proof -
  from assms obtain c where c: "cur s = Some c" "live c s" by (auto simp: sleep_enter_def running_def split: option.splits)
  then have "keeps_ok s (upd_proc c (\<lambda>p. p\<lparr>p_chan := Some ch, p_state := SLEEPING\<rparr>) (s\<lparr>ptable_held := True\<rparr>))"
    "keeps_ok s (upd_proc c (\<lambda>p. p\<lparr>p_chan := Some ch, p_state := SLEEPING\<rparr>) s)"
    using state_keeps [of c "s\<lparr>ptable_held := True\<rparr>" SLEEPING "\<lambda>_. Some ch"] state_keeps [of c s SLEEPING "\<lambda>_. Some ch"]
    by (simp_all add: live_def)
  then show ?thesis using assms(1) c
    by (auto simp: sleep_enter_def res_iff dest!: sched_keeps split: if_splits intro: keeps_trans)
qed

lemma scheduler_step_keeps:
  assumes "scheduler_step s = Ok t"
  shows "keeps_ok s t"
proof (cases "next_runnable s (sched_pos s)")
  case None
  with assms show ?thesis by (auto simp: scheduler_step_def res_iff keeps_ok_def ptable_ok_def pids_ok_def live_def)
next
  case (Some i)
  then have i: "i < length (ptable s)" "p_state (ptable s ! i) = RUNNABLE"
    by (auto simp: next_runnable_def find_idx_Some)
  let ?u = "upd_proc i (\<lambda>p. p\<lparr>p_state := RUNNING\<rparr>) s"
  have u: "keeps_ok s ?u" using i by (intro keeps_upd_proc) (simp add: slot_ok_def proc_ok_def)
  from assms Some have t: "ptable t = ptable ?u" "cur t = Some i" "nextpid t = nextpid ?u"
    by (auto simp: scheduler_step_def scheduler_run_def switchuvm_def res_iff upd_proc_def split: if_splits)
  have "pids_ok t = pids_ok ?u" by (simp add: pids_ok_def live_def t)
  moreover have "ptable_ok ?u \<Longrightarrow> ptable_ok t" using i(1) by (simp add: ptable_ok_def t)
  ultimately show ?thesis using u by (simp add: keeps_ok_def)
qed

text \<open>
  The operations on the process table, one at a time.  \<open>running\<close> is needed where the running
  process changes its own state: \<open>wait\<close> can free its slot (see \<open>wait_threads\<close> below).
\<close>

inductive proc_op :: "'z file_st_scheme \<Rightarrow> 'z file_st_scheme \<Rightarrow> bool" where
  op_allocproc: "allocproc s = Ok (r, t) \<Longrightarrow> proc_op s t"
| op_fork: "fork s = Ok (r, t) \<Longrightarrow> proc_op s t"
| op_wait: "wait s = Ok (r, t) \<Longrightarrow> proc_op s t"
| op_growproc: "growproc n s = Ok (r, t) \<Longrightarrow> proc_op s t"
| op_thread_create: "thread_create th f arg s = Ok (r, t) \<Longrightarrow> proc_op s t"
| op_thread_join: "thread_join k rv s = Ok (r, t) \<Longrightarrow> proc_op s t"
| op_kill: "kill n s = Ok (r, t) \<Longrightarrow> proc_op s t"
| op_wakeup: "wakeup c s = Ok t \<Longrightarrow> proc_op s t"
| op_scheduler: "scheduler_step s = Ok t \<Longrightarrow> proc_op s t"
| op_yield: "yield s = Ok t \<Longrightarrow> running s \<Longrightarrow> proc_op s t"
| op_sleep: "sleep_enter c b s = Ok t \<Longrightarrow> running s \<Longrightarrow> proc_op s t"

lemma proc_op_keeps: "proc_op s t \<Longrightarrow> keeps_ok s t"
proof (induction rule: proc_op.induct)
  case (op_allocproc s r t)
  then show ?case using allocproc_keeps unfolding keeps_ok_def by blast
qed (blast intro: fork_keeps wait_keeps growproc_keeps thread_create_keeps thread_join_keeps kill_keeps wakeup_keeps
    scheduler_step_keeps yield_keeps sleep_enter_keeps)+

lemma proc_ops_keep: "proc_op\<^sup>*\<^sup>* s t \<Longrightarrow> keeps_ok s t"
  by (induction rule: rtranclp_induct) (auto intro: keeps_trans proc_op_keeps)



lemma sample_procs: "ptable_ok (sample_file z)" "pids_ok (sample_file z)"
proof -
  have p: "ptable sample = [no_proc\<lparr>p_state := RUNNING, p_pid := 1, p_kstack := 0x80103000, p_pgdir := 0x80202000\<rparr>,
      no_proc\<lparr>p_state := SLEEPING, p_pid := 2, p_chan := Some TicksChan\<rparr>] @ replicate 62 no_proc"
    by (simp add: sample_def)
  have n: "nextpid (sample_file z) = 3" by (simp add: sample_file_def sample_fs_def sample_log_def sample_bio_def proc_st.defs sample_def)
  have nth: "ptable sample ! i = (if i = 0 then no_proc\<lparr>p_state := RUNNING, p_pid := 1, p_kstack := 0x80103000, p_pgdir := 0x80202000\<rparr>
      else if i = 1 then no_proc\<lparr>p_state := SLEEPING, p_pid := 2, p_chan := Some TicksChan\<rparr> else no_proc)" if "i < 64" for i
    unfolding p using that by (auto simp: nth_append nth_Cons split: nat.splits)
  show "ptable_ok (sample_file z)"
    by (auto simp: ptable_ok_def sample_file_sel NPROC_def nth proc_ok_def no_proc_def)
  have l: "live i (sample_file z) \<longleftrightarrow> i = 0 \<or> i = 1" for i
    using nth [of i] by (auto simp: live_def sample_file_sel no_proc_def split: if_splits)
  show "pids_ok (sample_file z)" unfolding pids_ok_def l n by (auto simp: sample_file_sel nth no_proc_def)
qed

lemma sample_alloc:
  "\<exists>t. allocproc (sample_file ()) = Ok (Some 2, t) \<and> p_state (ptable t ! 2) = EMBRYO \<and> p_pid (ptable t ! 2) = 3"
proof -
  have f: "find_idx (\<lambda>p. p_state p = UNUSED) (ptable (sample_file ())) = Some 2"
    by (simp add: sample_file_sel sample_def no_proc_def numeral_eq_Suc)
  have k: "freelist (sample_file ()) = 0x80200000" "nextpid (sample_file ()) = 3"
    by (simp_all add: sample_file_def sample_fs_def sample_log_def sample_bio_def proc_st.defs sample_def two_pages_def)
  have "\<exists>t. allocproc (sample_file ()) = Ok (Some 2, t)" using f k(1)
    by (simp add: allocproc_def acquire_ptable_def release_ptable_def sample_file_sel Let_def kalloc_def upd_proc_def)
  then obtain t where t: "allocproc (sample_file ()) = Ok (Some 2, t)" by blast
  from allocproc_table [OF t f] k(2) show ?thesis by (auto simp: t sample_file_sel)
qed



section \<open>Sharing open files\<close>

text \<open>The descriptors that refer to the file \<open>f\<close>: slot and index.  Between system calls their number is the reference count.\<close>

definition fd_refs :: "'z file_st_scheme \<Rightarrow> nat \<Rightarrow> (nat \<times> nat) set" where
  "fd_refs s f = {(i, k). i < length (ptable s) \<and> k < NOFILE \<and> p_ofile (ptable s ! i) ! k = Some f}"

definition refs_ok :: "'z file_st_scheme \<Rightarrow> bool" where
  "refs_ok s \<longleftrightarrow> (\<forall>f<length (ftable s). f_ref (ftable s ! f) = int (card (fd_refs s f)))"

lemma finite_fd_refs [simp]: "finite (fd_refs s f)"
  by (rule finite_subset [of _ "{..<length (ptable s)} \<times> {..<NOFILE}"]) (auto simp: fd_refs_def)

lemma dup_fd:
  assumes "refs_ok s" "n < length (ptable s)" "k < NOFILE" "length (p_ofile (ptable s ! n)) = NOFILE"
    "p_ofile (ptable s ! n) ! k = None" "f < length (ftable s)"
    "t = upd_proc n (\<lambda>p. p\<lparr>p_ofile := (p_ofile p)[k := Some f]\<rparr>) (upd_file f (\<lambda>x. x\<lparr>f_ref := f_ref x + 1\<rparr>) s)"
  shows "refs_ok t"
proof -
  have t: "ptable t = (ptable s)[n := (ptable s ! n)\<lparr>p_ofile := (p_ofile (ptable s ! n))[k := Some f]\<rparr>]"
    "ftable t = (ftable s)[f := (ftable s ! f)\<lparr>f_ref := f_ref (ftable s ! f) + 1\<rparr>]"
    using assms(7) by (simp_all add: upd_proc_def upd_file_def)
  have "p_ofile (ptable t ! i) ! j = (if i = n \<and> j = k then Some f else p_ofile (ptable s ! i) ! j)"
    if "i < length (ptable s)" "j < NOFILE" for i j
    using that assms(2-4) by (auto simp: t nth_list_update)
  then have r: "fd_refs t g = (if g = f then insert (n, k) (fd_refs s g) else fd_refs s g)" for g
    using assms(2-5) by (auto simp: fd_refs_def t(1) split: if_splits)
  have "(n, k) \<notin> fd_refs s g" for g using assms(5) by (simp add: fd_refs_def)
  then show ?thesis using assms(1,6) by (auto simp: refs_ok_def r t(2) nth_list_update)
qed


text \<open>A process with one open file, and an empty slot for its child.\<close>

definition sharing :: file_st where
  "sharing = (upd_proc 0 (\<lambda>p. p\<lparr>p_ofile := (replicate NOFILE None)[1 := Some 3]\<rparr>)
     (upd_file 3 (\<lambda>f. f\<lparr>f_ref := 1\<rparr>) (sample_file ())))"

lemma sharing_sel:
  "length (ptable sharing) = 64" "p_ofile (ptable sharing ! 0) = (replicate NOFILE None)[1 := Some 3]"
  "0 < i \<Longrightarrow> i < 64 \<Longrightarrow> p_ofile (ptable sharing ! i) = replicate NOFILE None"
  "ftable sharing = (replicate NFILE no_file)[3 := no_file\<lparr>f_ref := 1\<rparr>]"
proof -
  have n: "p_ofile (ptable sample ! i) = replicate NOFILE None" if "0 < i" "i < 64" for i
    using that by (auto simp: sample_def nth_append nth_Cons no_proc_def split: nat.splits)
  have p: "ptable sharing = (ptable sample)[0 := (ptable sample ! 0)\<lparr>p_ofile := (replicate NOFILE None)[1 := Some 3]\<rparr>]"
    by (simp add: sharing_def upd_proc_def upd_file_def sample_file_sel)
  show "length (ptable sharing) = 64" "p_ofile (ptable sharing ! 0) = (replicate NOFILE None)[1 := Some 3]" by (simp_all add: p)
  show "0 < i \<Longrightarrow> i < 64 \<Longrightarrow> p_ofile (ptable sharing ! i) = replicate NOFILE None" using n by (simp add: p)
  show "ftable sharing = (replicate NFILE no_file)[3 := no_file\<lparr>f_ref := 1\<rparr>]"
    by (simp add: sharing_def upd_proc_def upd_file_def sample_file_sel NFILE_def)
qed

lemma sharing_refs: "refs_ok sharing"
proof -
  have "p_ofile (ptable sharing ! i) ! k = (if i = 0 \<and> k = 1 then Some 3 else None)" if "i < 64" "k < NOFILE" for i k
    using that by (cases "i = 0") (auto simp: sharing_sel nth_list_update)
  then have "fd_refs sharing f = (if f = 3 then {(0, 1)} else {})" for f
    by (auto simp: fd_refs_def sharing_sel NOFILE_def split: if_splits)
  then show ?thesis by (auto simp: refs_ok_def sharing_sel nth_list_update no_file_def NFILE_def)
qed


section \<open>The threads that wait frees\<close>

lemma dealloc_nothing: "deallocuvm s pd 0 (- (2 * PGSIZE)) = Ok (0, s)"
  by (simp add: deallocuvm_def PGSIZE_def)



end
