(* ===== verification/Sysargs.thy ===== *)
theory Sysargs
  imports Process
begin

text \<open>
  The arguments of system calls (\<^verbatim>\<open>syscall.c\<close>): \<open>fetchint\<close>, \<open>fetchstr\<close>, \<open>argint\<close>, \<open>argptr\<close>,
  \<open>argstr\<close>.  \<open>None\<close> is the result \<open>-1\<close>; a string argument is returned as its bytes, without
  the terminator, instead of the address it starts at.
\<close>

section \<open>Fetching from user memory\<close>

definition fetchint :: "u32 \<Rightarrow> 'z proc_st_scheme \<Rightarrow> u32 option res" where
  "fetchint addr s =
     bnd (curproc s) (\<lambda>c.
     let p = ptable s ! c
     in if addr \<ge> p_sz p \<or> addr + 4 > p_sz p then Ok None
        else bnd (uread s (p_pgdir p) addr 4) (\<lambda>bs. Ok (Some (word_of_nat (rd32 bs 0)))))"

text \<open>The loop of \<open>fetchstr\<close>; the last argument is the number of bytes below \<open>ep\<close>.\<close>

fun fetchstr_loop :: "'z kmem_st_scheme \<Rightarrow> u32 \<Rightarrow> u32 \<Rightarrow> nat \<Rightarrow> byte list option res" where
  "fetchstr_loop s pgdir a 0 = Ok None"
| "fetchstr_loop s pgdir a (Suc n) =
     (case translate s pgdir False a of None \<Rightarrow> Fault ''page fault''
      | Some k \<Rightarrow>
          if memory s k = 0 then Ok (Some [])
          else bnd (fetchstr_loop s pgdir (a + 1) n) (\<lambda>r. Ok (map_option (\<lambda>bs. memory s k # bs) r)))"

definition fetchstr :: "u32 \<Rightarrow> 'z proc_st_scheme \<Rightarrow> byte list option res" where
  "fetchstr addr s =
     bnd (curproc s) (\<lambda>c.
     let p = ptable s ! c
     in if addr \<ge> p_sz p then Ok None
        else fetchstr_loop s (p_pgdir p) addr (unat (p_sz p - addr)))"

section \<open>Arguments\<close>

definition argint :: "nat \<Rightarrow> 'z proc_st_scheme \<Rightarrow> u32 option res" where
  "argint n s =
     bnd (curproc s) (\<lambda>c.
     fetchint (load32 (memory s) (p_tf (ptable s ! c) + TF_ESP) + 4 + 4 * word_of_nat n) s)"

definition argptr :: "nat \<Rightarrow> int \<Rightarrow> 'z proc_st_scheme \<Rightarrow> u32 option res" where
  "argptr n sz s =
     bnd (curproc s) (\<lambda>c.
     bnd (argint n s) (\<lambda>r.
     case r of None \<Rightarrow> Ok None
     | Some i \<Rightarrow>
         let p = ptable s ! c
         in if sz < 0 \<or> i \<ge> p_sz p \<or> i + word_of_int sz > p_sz p then Ok None
            else Ok (Some i)))"

definition argstr :: "nat \<Rightarrow> 'z proc_st_scheme \<Rightarrow> byte list option res" where
  "argstr n s =
     bnd (argint n s) (\<lambda>r. case r of None \<Rightarrow> Ok None | Some a \<Rightarrow> fetchstr a s)"

text \<open>A call whose argument is bad returns \<open>-1\<close>.\<close>

definition with_arg :: "'a option res \<Rightarrow> 's \<Rightarrow> ('a \<Rightarrow> (int \<times> 's) res) \<Rightarrow> (int \<times> 's) res" where
  "with_arg m s f = bnd m (\<lambda>r. case r of None \<Rightarrow> Ok (-1, s) | Some x \<Rightarrow> f x)"

section \<open>Arguments lie in the address space of the process\<close>

lemma unat_of_int: "0 \<le> k \<Longrightarrow> k < 2 ^ 31 \<Longrightarrow> unat (word_of_int k :: u32) = nat k"
  by (simp add: unsigned_of_int take_bit_int_eq_self)

lemma fetchint_bound:
  assumes "fetchint a s = Ok (Some v)" "cur s = Some c" "p_sz (ptable s ! c) \<le> KERNBASE"
  shows "unat a + 4 \<le> unat (p_sz (ptable s ! c))"
proof -
  from assms(1,2) have a: "a < p_sz (ptable s ! c)" "a + 4 \<le> p_sz (ptable s ! c)"
    by (auto simp: fetchint_def curproc_def Let_def split: if_splits)
  have "unat (p_sz (ptable s ! c)) \<le> 2 ^ 31" using assms(3) by (simp add: word_le_nat_alt KERNBASE_def)
  moreover have "unat a < unat (p_sz (ptable s ! c))" using a(1) by (simp add: word_less_nat_alt)
  ultimately have "unat (a + 4) = unat a + 4" by (simp add: unat_word_ariths)
  then show ?thesis using a(2) by (simp add: word_le_nat_alt)
qed

lemma fetchstr_loop_bound:
  "fetchstr_loop s pd a n = Ok (Some bs) \<Longrightarrow> length bs < n \<and> 0 \<notin> set bs"
proof (induction s pd a n arbitrary: bs rule: fetchstr_loop.induct)
  case (2 s pd a n)
  then obtain k where k: "translate s pd False a = Some k" by (auto split: option.splits)
  show ?case
  proof (cases "memory s k = 0")
    case True
    with 2(2) k show ?thesis by simp
  next
    case False
    with 2(2) k obtain r where "fetchstr_loop s pd (a + 1) n = Ok (Some r)" "bs = memory s k # r"
      by (auto simp: res_iff)
    with 2(1) [OF k False] False show ?thesis by auto
  qed
qed simp

lemma fetchstr_bound:
  assumes "fetchstr a s = Ok (Some bs)" "cur s = Some c"
  shows "unat a + length bs + 1 \<le> unat (p_sz (ptable s ! c)) \<and> 0 \<notin> set bs"
proof -
  let ?z = "p_sz (ptable s ! c)"
  from assms have l: "a < ?z" "fetchstr_loop s (p_pgdir (ptable s ! c)) a (unat (?z - a)) = Ok (Some bs)"
    by (auto simp: fetchstr_def curproc_def Let_def split: if_splits)
  have "unat (?z - a) = unat ?z - unat a" using l(1) by (simp add: unat_sub word_less_nat_alt word_le_nat_alt)
  then show ?thesis using fetchstr_loop_bound [OF l(2)] l(1) by (auto simp: word_less_nat_alt less_diff_conv)
qed

lemma argptr_bound:
  assumes "argptr n sz s = Ok (Some a)" "cur s = Some c" "p_sz (ptable s ! c) \<le> KERNBASE" "sz < 2 ^ 31"
  shows "0 \<le> sz \<and> unat a + nat sz \<le> unat (p_sz (ptable s ! c))"
proof -
  let ?z = "p_sz (ptable s ! c)"
  from assms(1,2) obtain r where "argint n s = Ok r" "(case r of None \<Rightarrow> Ok None | Some i \<Rightarrow>
      if sz < 0 \<or> i \<ge> ?z \<or> i + word_of_int sz > ?z then Ok None else Ok (Some i)) = Ok (Some a)"
    by (auto simp: argptr_def bnd_eq_Ok curproc_iff Let_def)
  then have a: "0 \<le> sz" "a < ?z" "a + word_of_int sz \<le> ?z" by (auto split: option.splits if_splits)
  have "unat ?z \<le> 2 ^ 31" using assms(3) by (simp add: word_le_nat_alt KERNBASE_def)
  moreover have "unat (word_of_int sz :: u32) = nat sz" using a(1) assms(4) by (rule unat_of_int)
  moreover have "unat a < unat ?z" using a(2) by (simp add: word_less_nat_alt)
  moreover have "nat sz < 2 ^ 31" using assms(4) by simp
  ultimately have "unat (a + word_of_int sz) = unat a + nat sz" by (simp add: unat_word_ariths)
  then show ?thesis using a(1,3) by (simp add: word_le_nat_alt)
qed

text \<open>
  C13.  Whatever arguments a process passes to a system call, the kernel accepts only what lies in
  the process's own memory: an accepted buffer of the given size, an accepted word and an
  accepted string with its terminator end at or below the size of the process.
\<close>

theorem sysargs_in_bounds:
  assumes "cur s = Some c" "p_sz (ptable s ! c) \<le> KERNBASE" "sz < 2 ^ 31"
  shows "(argptr n sz s = Ok (Some a) \<longrightarrow> 0 \<le> sz \<and> unat a + nat sz \<le> unat (p_sz (ptable s ! c))) \<and>
    (fetchint a s = Ok (Some v) \<longrightarrow> unat a + 4 \<le> unat (p_sz (ptable s ! c))) \<and>
    (fetchstr a s = Ok (Some bs) \<longrightarrow> unat a + length bs + 1 \<le> unat (p_sz (ptable s ! c)) \<and> 0 \<notin> set bs)"
  using argptr_bound [OF _ assms] fetchint_bound [OF _ assms(1,2)] fetchstr_bound [OF _ assms(1)] by blast

text \<open>
  A process of one page, at a call whose first argument is the address 16: page directory, page
  table and frame are the three pages from \<open>0x80202000\<close> on.
\<close>

definition one_page :: "mem" where
  "one_page = store32 (store32 (store32 (store32 (\<lambda>_. 0) 0x80202000 0x203007) 0x80203000 0x204007)
     (0x80205000 + TF_ESP) 0x100) 0x80204104 16"

definition one_page_proc :: file_st where
  "one_page_proc = (upd_proc 0 (\<lambda>p. p\<lparr>p_sz := 4096, p_tf := 0x80205000\<rparr>) (sample_file ()))\<lparr>memory := one_page\<rparr>"

lemma one_page_sel:
  "cur one_page_proc = Some 0" "memory one_page_proc = one_page" "p_sz (ptable one_page_proc ! 0) = 4096"
  "p_tf (ptable one_page_proc ! 0) = 0x80205000" "p_pgdir (ptable one_page_proc ! 0) = 0x80202000"
  by (simp_all add: one_page_proc_def upd_proc_def sample_file_sel sample_def)

lemma one_page_translate:
  assumes "va \<in> {0x104, 0x105, 0x106, 0x107}"
  shows "translate one_page_proc 0x80202000 False va = Some (0x80204000 + va)"
proof -
  have pd: "load32 one_page 0x80202000 = 0x203007" "load32 one_page 0x80203000 = 0x204007"
    by (simp_all add: one_page_def load32_def store32_def TF_ESP_def)
  show ?thesis using assms
    by (auto simp: translate_def walkpgdir_def one_page_sel Let_def PDX_def PTX_def pd PTE_P_def PTE_ADDR_def P2V_def KERNBASE_def PGSIZE_def)
qed

theorem sysargs_in_bounds_witness:
  "argptr 0 32 one_page_proc = Ok (Some 16) \<and> unat (16 :: u32) + nat 32 \<le> unat (p_sz (ptable one_page_proc ! 0))"
proof -
  have esp: "load32 one_page (0x80205000 + TF_ESP) = 0x100"
    by (simp add: one_page_def load32_def store32_def TF_ESP_def)
  have m: "one_page 0x80204104 = 16" "one_page 0x80204105 = 0" "one_page 0x80204106 = 0" "one_page 0x80204107 = 0"
    by (simp_all add: one_page_def store32_def TF_ESP_def)
  have "uread one_page_proc 0x80202000 0x104 4 = Ok [16, 0, 0, 0]"
    by (simp add: one_page_translate one_page_sel m numeral_eq_Suc)
  then have "fetchint 0x104 one_page_proc = Ok (Some 16)"
    by (simp add: fetchint_def curproc_def one_page_sel rd32_def)
  then have "argptr 0 32 one_page_proc = Ok (Some 16)"
    by (simp add: argptr_def argint_def curproc_def one_page_sel esp)
  then show ?thesis using sysargs_in_bounds [of one_page_proc 0 32 0 16] by (simp add: one_page_sel KERNBASE_def)
qed

end
