(* ===== verification/Exec.thy ===== *)
theory Exec
  imports Sysargs
begin

text \<open>
  \<^verbatim>\<open>exec.c\<close>, and \<open>loaduvm\<close> of \<^verbatim>\<open>vm.c\<close>: replacing the image of the running process by that of an
  ELF file.  The headers are read from the bytes of the file at the offsets of \<^verbatim>\<open>elf.h\<close>.
\<close>

section \<open>Loading a segment\<close>

definition loaduvm :: "'z fs_st_scheme devsw \<Rightarrow> u32 \<Rightarrow> u32 \<Rightarrow> nat \<Rightarrow> u32 \<Rightarrow> u32 \<Rightarrow> 'z fs_st_scheme \<Rightarrow>
    (int \<times> 'z fs_st_scheme) res" where
  "loaduvm dv pgdir addr ip off sz s =
     (if addr mod PGSIZE \<noteq> 0 then Panic ''loaduvm: addr must be page aligned''
      else bnd (addr_loop sz (\<lambda>i s.
             let (pte, s) = walkpgdir s pgdir (addr + i) False
             in if pte = 0 then Panic ''loaduvm: address should exist''
                else let pa = PTE_ADDR (load32 (memory s) pte);
                         n = (if sz - i < PGSIZE then sz - i else PGSIZE)
                     in bnd (readi dv ip (unat (off + i)) (unat n) s) (\<lambda>((r, d), s).
                        let s = s\<lparr>memory := mem_store (memory s) (P2V pa) d\<rparr>
                        in if r \<noteq> int (unat n) then Ok (Inl (-1, s))
                           else Ok (Inr (i + PGSIZE, s)))) 0 s)
           (\<lambda>(r, s). case r of Some v \<Rightarrow> Ok (v, s) | None \<Rightarrow> Ok (0, s)))"

section \<open>ELF headers\<close>

definition ELF_MAGIC :: nat where "ELF_MAGIC = 0x464C457F"
definition ELF_PROG_LOAD :: nat where "ELF_PROG_LOAD = 1"
definition ELFHDR_SIZE :: nat where "ELFHDR_SIZE = 52"
definition PROGHDR_SIZE :: nat where "PROGHDR_SIZE = 32"
definition MAXARG :: nat where "MAXARG = 32"

definition elf_magic :: "byte list \<Rightarrow> nat" where "elf_magic h = rd32 h 0"
definition elf_entry :: "byte list \<Rightarrow> nat" where "elf_entry h = rd32 h 24"
definition elf_phoff :: "byte list \<Rightarrow> nat" where "elf_phoff h = rd32 h 28"
definition elf_phnum :: "byte list \<Rightarrow> nat" where "elf_phnum h = rd16 h 44"

record proghdr =
  ph_type :: nat
  ph_off :: u32
  ph_vaddr :: u32
  ph_filesz :: u32
  ph_memsz :: u32

definition rd_proghdr :: "byte list \<Rightarrow> proghdr" where
  "rd_proghdr d = \<lparr>ph_type = rd32 d 0, ph_off = word_of_nat (rd32 d 4), ph_vaddr = word_of_nat (rd32 d 8),
     ph_filesz = word_of_nat (rd32 d 16), ph_memsz = word_of_nat (rd32 d 20)\<rparr>"

section \<open>The segments, the stack and the arguments\<close>

text \<open>One segment: the new size, or \<open>None\<close> for \<open>goto bad\<close>.\<close>

definition exec_segment :: "'z fs_st_scheme devsw \<Rightarrow> nat \<Rightarrow> u32 \<Rightarrow> proghdr \<Rightarrow> u32 \<Rightarrow> 'z fs_st_scheme \<Rightarrow>
    (u32 option \<times> 'z fs_st_scheme) res" where
  "exec_segment dv ip pgdir ph sz s =
     (if ph_memsz ph < ph_filesz ph then Ok (None, s)
      else if ph_vaddr ph + ph_memsz ph < ph_vaddr ph then Ok (None, s)
      else bnd (allocuvm s pgdir sz (ph_vaddr ph + ph_memsz ph)) (\<lambda>(sz, s).
           if sz = 0 then Ok (None, s)
           else if ph_vaddr ph mod PGSIZE \<noteq> 0 then Ok (None, s)
           else bnd (loaduvm dv pgdir (ph_vaddr ph) ip (ph_off ph) (ph_filesz ph) s) (\<lambda>(r, s).
                if r < 0 then Ok (None, s) else Ok (Some sz, s))))"

text \<open>The loop over the program headers; the first argument is the number of those left.\<close>

fun exec_load :: "nat \<Rightarrow> 'z fs_st_scheme devsw \<Rightarrow> nat \<Rightarrow> u32 \<Rightarrow> nat \<Rightarrow> u32 \<Rightarrow> 'z fs_st_scheme \<Rightarrow>
    (u32 option \<times> 'z fs_st_scheme) res" where
  "exec_load 0 dv ip pgdir off sz s = Ok (Some sz, s)"
| "exec_load (Suc k) dv ip pgdir off sz s =
     bnd (readi dv ip off PROGHDR_SIZE s) (\<lambda>((r, d), s).
     if r \<noteq> int PROGHDR_SIZE then Ok (None, s)
     else if ph_type (rd_proghdr d) \<noteq> ELF_PROG_LOAD then
       exec_load k dv ip pgdir (add32 off PROGHDR_SIZE) sz s
     else bnd (exec_segment dv ip pgdir (rd_proghdr d) sz s) (\<lambda>(r, s).
          case r of None \<Rightarrow> Ok (None, s)
          | Some sz \<Rightarrow> exec_load k dv ip pgdir (add32 off PROGHDR_SIZE) sz s))"

text \<open>
  The loop that copies the argument strings, from number \<open>argc\<close> on: the stack pointer and the
  addresses of the strings, or \<open>None\<close> for \<open>goto bad\<close>.
\<close>

fun exec_args :: "u32 \<Rightarrow> byte list list \<Rightarrow> nat \<Rightarrow> u32 \<Rightarrow> 'z kmem_st_scheme \<Rightarrow>
    ((u32 \<times> u32 list) option \<times> 'z kmem_st_scheme) res" where
  "exec_args pgdir [] argc sp s = Ok (Some (sp, []), s)"
| "exec_args pgdir (a # as) argc sp s =
     (if argc \<ge> MAXARG then Ok (None, s)
      else let sp = (sp - (word_of_nat (length a) + 1)) AND NOT 3
           in bnd (copyout s pgdir sp (a @ [0])) (\<lambda>(r, s).
              if r < 0 then Ok (None, s)
              else bnd (exec_args pgdir as (Suc argc) sp s) (\<lambda>(r, s).
                   Ok (map_option (\<lambda>(sp', us). (sp', sp # us)) r, s))))"

definition exec_ustack :: "u32 \<Rightarrow> u32 list \<Rightarrow> byte list" where
  "exec_ustack sp us =
     concat (map bytes32 ([0xffffffff, word_of_nat (length us),
       sp - (word_of_nat (length us) + 1) * 4] @ us @ [0]))"

text \<open>From the end of the loading on: the stack pages and the arguments, giving size and stack pointer.\<close>

definition exec_stack :: "u32 \<Rightarrow> byte list list \<Rightarrow> u32 \<Rightarrow> 'z kmem_st_scheme \<Rightarrow>
    ((u32 \<times> u32) option \<times> 'z kmem_st_scheme) res" where
  "exec_stack pgdir argv sz s =
     (let sz = PGROUNDUP sz
      in bnd (allocuvm s pgdir sz (sz + 2 * PGSIZE)) (\<lambda>(sz, s).
         if sz = 0 then Ok (None, s)
         else bnd (clearpteu s pgdir (sz - 2 * PGSIZE)) (\<lambda>s.
              bnd (exec_args pgdir argv 0 sz s) (\<lambda>(r, s).
              case r of None \<Rightarrow> Ok (None, s)
              | Some (sp, us) \<Rightarrow>
                  let sp' = sp - (3 + word_of_nat (length us) + 1) * 4
                  in bnd (copyout s pgdir sp' (exec_ustack sp us)) (\<lambda>(r, s).
                     if r < 0 then Ok (None, s) else Ok (Some (sz, sp'), s))))))"

section \<open>Exec\<close>

text \<open>The last element of a path: what follows its last slash.\<close>

fun last_elem :: "byte list \<Rightarrow> byte list \<Rightarrow> byte list" where
  "last_elem l [] = l"
| "last_elem l (c # cs) = (if c = slash then last_elem cs cs else last_elem l cs)"

definition exec_bad :: "u32 \<Rightarrow> nat option \<Rightarrow> 'z fs_st_scheme \<Rightarrow> (int \<times> 'z fs_st_scheme) res" where
  "exec_bad pgdir ip s =
     bnd (if pgdir \<noteq> 0 then freevm s pgdir else Ok s) (\<lambda>s.
     case ip of None \<Rightarrow> Ok (-1, s)
     | Some i \<Rightarrow> bnd (iunlockput i s) (\<lambda>s. bnd (end_op s) (\<lambda>s. Ok (-1, s))))"

definition exec_commit :: "nat \<Rightarrow> byte list \<Rightarrow> u32 \<Rightarrow> u32 \<Rightarrow> u32 \<Rightarrow> u32 \<Rightarrow> 'z proc_st_scheme \<Rightarrow>
    (int \<times> 'z proc_st_scheme) res" where
  "exec_commit c path pgdir sz entry sp s =
     (let s = upd_proc c (\<lambda>p. p\<lparr>p_name := safestrcpy_name (p_name p) (last_elem path path) 16\<rparr>) s;
          oldpgdir = p_pgdir (ptable s ! c);
          s = upd_proc c (\<lambda>p. p\<lparr>p_pgdir := pgdir, p_sz := sz\<rparr>) s;
          tf = p_tf (ptable s ! c);
          s = s\<lparr>memory := store32 (memory s) (tf + TF_EIP) entry\<rparr>;
          s = s\<lparr>memory := store32 (memory s) (tf + TF_ESP) sp\<rparr>
      in bnd (switchuvm s (Some (p_kstack (ptable s ! c), p_pgdir (ptable s ! c)))) (\<lambda>s.
         bnd (freevm s oldpgdir) (\<lambda>s. Ok (0, s))))"

definition exec :: "'z fs_st_scheme devsw \<Rightarrow> byte list \<Rightarrow> byte list list \<Rightarrow> 'z fs_st_scheme \<Rightarrow>
    (int \<times> 'z fs_st_scheme) res" where
  "exec dv path argv s =
     bnd (curproc s) (\<lambda>c.
     bnd (begin_op s) (\<lambda>s.
     bnd (namei dv path s) (\<lambda>(ip, s).
     case ip of None \<Rightarrow> bnd (end_op s) (\<lambda>s. Ok (-1, s))
     | Some i \<Rightarrow>
         bnd (ilock (Some i) s) (\<lambda>s.
         bnd (readi dv i 0 ELFHDR_SIZE s) (\<lambda>((r, elf), s).
         if r \<noteq> int ELFHDR_SIZE \<or> elf_magic elf \<noteq> ELF_MAGIC then exec_bad 0 (Some i) s
         else bnd (setupkvm s) (\<lambda>(pgdir, s).
           if pgdir = 0 then exec_bad 0 (Some i) s
           else bnd (exec_load (elf_phnum elf) dv i pgdir (elf_phoff elf) 0 s) (\<lambda>(r, s).
             case r of None \<Rightarrow> exec_bad pgdir (Some i) s
             | Some sz \<Rightarrow>
                 bnd (iunlockput i s) (\<lambda>s. bnd (end_op s) (\<lambda>s.
                 bnd (exec_stack pgdir argv sz s) (\<lambda>(r, s).
                 case r of None \<Rightarrow> exec_bad pgdir None s
                 | Some (sz, sp) \<Rightarrow>
                     exec_commit c path pgdir sz (word_of_nat (elf_entry elf)) sp s))))))))))"

end
