(* ===== verification/Sysfile.thy ===== *)
theory Sysfile
  imports Exec
begin

text \<open>
  The file system calls (\<^verbatim>\<open>sysfile.c\<close>).  Each is a function of the state of the running process:
  it fetches its arguments from the user stack and returns the value that goes into \<open>%eax\<close>.
  Data that a call hands to the user is written through the page table of the process when
  the call has them; data that it takes from the user are read at its start.
\<close>

section \<open>File descriptors\<close>

definition argfd :: "nat \<Rightarrow> 'z proc_st_scheme \<Rightarrow> (nat \<times> nat) option res" where
  "argfd n s =
     bnd (argint n s) (\<lambda>r.
     case r of None \<Rightarrow> Ok None
     | Some v \<Rightarrow>
         bnd (curproc s) (\<lambda>c.
         if sint v < 0 \<or> sint v \<ge> int NOFILE then Ok None
         else case p_ofile (ptable s ! c) ! unat v of None \<Rightarrow> Ok None
              | Some f \<Rightarrow> Ok (Some (unat v, f))))"

definition fdalloc :: "nat \<Rightarrow> 'z proc_st_scheme \<Rightarrow> (int \<times> 'z proc_st_scheme) res" where
  "fdalloc f s =
     bnd (curproc s) (\<lambda>c.
     case find_idx (\<lambda>x. x = None) (take NOFILE (p_ofile (ptable s ! c))) of
       Some fd \<Rightarrow> Ok (int fd, upd_proc c (\<lambda>p. p\<lparr>p_ofile := (p_ofile p)[fd := Some f]\<rparr>) s)
     | None \<Rightarrow> Ok (-1, s))"

definition clear_fd :: "nat \<Rightarrow> 'z proc_st_scheme \<Rightarrow> 'z proc_st_scheme res" where
  "clear_fd fd s = bnd (curproc s) (\<lambda>c. Ok (upd_proc c (\<lambda>p. p\<lparr>p_ofile := (p_ofile p)[fd := None]\<rparr>) s))"

definition sys_dup :: "'z file_st_scheme \<Rightarrow> (int \<times> 'z file_st_scheme) res" where
  "sys_dup s =
     with_arg (argfd 0 s) s (\<lambda>(_, f).
     bnd (fdalloc f s) (\<lambda>(fd, s).
     if fd < 0 then Ok (-1, s)
     else bnd (filedup f s) (\<lambda>(_, s). Ok (fd, s))))"

text \<open>Storing bytes at an address of the running process, and reading them.\<close>

definition to_user :: "u32 \<Rightarrow> byte list \<Rightarrow> 'z proc_st_scheme \<Rightarrow> 'z proc_st_scheme res" where
  "to_user p bs s = bnd (curproc s) (\<lambda>c. uwrite s (p_pgdir (ptable s ! c)) p bs)"

definition from_user :: "u32 \<Rightarrow> nat \<Rightarrow> 'z proc_st_scheme \<Rightarrow> byte list res" where
  "from_user p n s = bnd (curproc s) (\<lambda>c. uread s (p_pgdir (ptable s ! c)) p n)"

definition sys_read :: "'z file_st_scheme devsw \<Rightarrow> 'z file_st_scheme \<Rightarrow> (int \<times> 'z file_st_scheme) res" where
  "sys_read dv s =
     with_arg (argfd 0 s) s (\<lambda>(_, f).
     with_arg (argint 2 s) s (\<lambda>n.
     with_arg (argptr 1 (sint n) s) s (\<lambda>p.
     bnd (fileread dv f (unat n) s) (\<lambda>((r, d), s).
     bnd (to_user p d s) (\<lambda>s. Ok (r, s))))))"

text \<open>The buffer of a write is looked at only when the file is writable.\<close>

definition sys_write :: "'z file_st_scheme devsw \<Rightarrow> 'z file_st_scheme \<Rightarrow> (int \<times> 'z file_st_scheme) res" where
  "sys_write dv s =
     with_arg (argfd 0 s) s (\<lambda>(_, f).
     with_arg (argint 2 s) s (\<lambda>n.
     with_arg (argptr 1 (sint n) s) s (\<lambda>p.
     bnd (if f_writable (ftable s ! f) then from_user p (unat n) s else Ok []) (\<lambda>bs.
     filewrite dv f bs s))))"

definition sys_pread :: "'z file_st_scheme devsw \<Rightarrow> 'z file_st_scheme \<Rightarrow> (int \<times> 'z file_st_scheme) res" where
  "sys_pread dv s =
     with_arg (argfd 0 s) s (\<lambda>(_, f).
     with_arg (argint 2 s) s (\<lambda>n.
     with_arg (argint 3 s) s (\<lambda>off.
     with_arg (argptr 1 (sint n) s) s (\<lambda>p.
     bnd (pread dv f (unat n) (unat off) s) (\<lambda>((r, d), s).
     bnd (to_user p d s) (\<lambda>s. Ok (r, s)))))))"

definition sys_pwrite :: "'z file_st_scheme devsw \<Rightarrow> 'z file_st_scheme \<Rightarrow> (int \<times> 'z file_st_scheme) res" where
  "sys_pwrite dv s =
     with_arg (argfd 0 s) s (\<lambda>(_, f).
     with_arg (argint 2 s) s (\<lambda>n.
     with_arg (argint 3 s) s (\<lambda>off.
     with_arg (argptr 1 (sint n) s) s (\<lambda>p.
     bnd (if f_writable (ftable s ! f) then from_user p (unat n) s else Ok []) (\<lambda>bs.
     pwrite dv f bs (unat off) s)))))"

definition sys_close :: "'z file_st_scheme \<Rightarrow> (int \<times> 'z file_st_scheme) res" where
  "sys_close s =
     with_arg (argfd 0 s) s (\<lambda>(fd, f).
     bnd (clear_fd fd s) (\<lambda>s. bnd (fileclose f s) (\<lambda>s. Ok (0, s))))"

definition STAT_SIZE :: int where "STAT_SIZE = 20"

definition sys_fstat :: "'z file_st_scheme \<Rightarrow> (int \<times> 'z file_st_scheme) res" where
  "sys_fstat s =
     with_arg (argfd 0 s) s (\<lambda>(_, f).
     with_arg (argptr 1 STAT_SIZE s) s (\<lambda>p.
     bnd (filestat f s) (\<lambda>(r, s).
     case r of None \<Rightarrow> Ok (-1, s)
     | Some st \<Rightarrow>
         bnd (to_user (p + 4) (le32 (st_dev st)) s) (\<lambda>s.
         bnd (to_user (p + 8) (le32 (st_ino st)) s) (\<lambda>s.
         bnd (to_user p (short (st_type st)) s) (\<lambda>s.
         bnd (to_user (p + 12) (short (st_nlink st)) s) (\<lambda>s.
         bnd (to_user (p + 16) (le32 (st_size st)) s) (\<lambda>s. Ok (0, s)))))))))"

section \<open>Links\<close>

text \<open>A \<open>short\<close> that takes the value of an \<open>int\<close>.\<close>

definition to_short :: "int \<Rightarrow> int" where
  "to_short v = signed16 (nat (v mod 2 ^ 16))"

definition add_nlink :: "int \<Rightarrow> nat \<Rightarrow> 'z fs_st_scheme \<Rightarrow> 'z fs_st_scheme res" where
  "add_nlink d i s = iupdate i (upd_inode i (\<lambda>ip. ip\<lparr>i_nlink := to_short (i_nlink ip + d)\<rparr>) s)"

text \<open>The ways out of a transaction: with a result, and with \<open>-1\<close> after dropping an inode.\<close>

definition op_done :: "int \<Rightarrow> 'z log_st_scheme \<Rightarrow> (int \<times> 'z log_st_scheme) res" where
  "op_done r s = bnd (end_op s) (\<lambda>s. Ok (r, s))"

definition op_drop :: "int \<Rightarrow> nat \<Rightarrow> 'z fs_st_scheme \<Rightarrow> (int \<times> 'z fs_st_scheme) res" where
  "op_drop r i s = bnd (iunlockput i s) (op_done r)"

definition link_bad :: "nat \<Rightarrow> 'z fs_st_scheme \<Rightarrow> (int \<times> 'z fs_st_scheme) res" where
  "link_bad ip s = bnd (ilock (Some ip) s) (\<lambda>s. bnd (add_nlink (-1) ip s) (op_drop (-1) ip))"

definition sys_link :: "'z fs_st_scheme devsw \<Rightarrow> 'z fs_st_scheme \<Rightarrow> (int \<times> 'z fs_st_scheme) res" where
  "sys_link dv s =
     with_arg (argstr 0 s) s (\<lambda>old.
     with_arg (argstr 1 s) s (\<lambda>new.
     bnd (begin_op s) (\<lambda>s.
     bnd (namei dv old s) (\<lambda>(r, s).
     case r of None \<Rightarrow> op_done (-1) s
     | Some ip \<Rightarrow>
         bnd (ilock (Some ip) s) (\<lambda>s.
         if i_type (icache s ! ip) = T_DIR then op_drop (-1) ip s
         else bnd (add_nlink 1 ip s) (\<lambda>s. bnd (iunlock (Some ip) s) (\<lambda>s.
           bnd (nameiparent dv new s) (\<lambda>((r, name), s).
           case r of None \<Rightarrow> link_bad ip s
           | Some dp \<Rightarrow>
               bnd (ilock (Some dp) s) (\<lambda>s.
               bnd (if i_dev (icache s ! dp) \<noteq> i_dev (icache s ! ip) then Ok (-1, s)
                    else dirlink dv dp name (i_inum (icache s ! ip)) s) (\<lambda>(r, s).
               bnd (iunlockput dp s) (\<lambda>s.
               if r < 0 then link_bad ip s
               else bnd (iput ip s) (op_done 0))))))))))))"

text \<open>The entries after \<open>.\<close> and \<open>..\<close>, by offset.\<close>

fun isdirempty_loop :: "'z fs_st_scheme devsw \<Rightarrow> nat \<Rightarrow> nat list \<Rightarrow> 'z fs_st_scheme \<Rightarrow> (bool \<times> 'z fs_st_scheme) res" where
  "isdirempty_loop dv dp [] s = Ok (True, s)"
| "isdirempty_loop dv dp (off # offs) s =
     bnd (read_dirent dv ''isdirempty: readi'' dp off s) (\<lambda>((inum, _), s).
     if inum \<noteq> 0 then Ok (False, s) else isdirempty_loop dv dp offs s)"

definition isdirempty :: "'z fs_st_scheme devsw \<Rightarrow> nat \<Rightarrow> 'z fs_st_scheme \<Rightarrow> (bool \<times> 'z fs_st_scheme) res" where
  "isdirempty dv dp s = isdirempty_loop dv dp (drop 2 (dir_offs (i_size (icache s ! dp)))) s"

text \<open>\<open>sys_unlink\<close> from the point where both inodes are locked and the entry may go.\<close>

definition unlink_entry :: "'z fs_st_scheme devsw \<Rightarrow> nat \<Rightarrow> nat \<Rightarrow> nat \<Rightarrow> 'z fs_st_scheme \<Rightarrow>
    (int \<times> 'z fs_st_scheme) res" where
  "unlink_entry dv dp ip off s =
     bnd (writei dv dp off (replicate DIRENT_SIZE 0) s) (\<lambda>(r, s).
     if r \<noteq> int DIRENT_SIZE then Panic ''unlink: writei''
     else bnd (if i_type (icache s ! ip) = T_DIR then add_nlink (-1) dp s else Ok s) (\<lambda>s.
          bnd (iunlockput dp s) (\<lambda>s.
          bnd (add_nlink (-1) ip s) (op_drop 0 ip))))"

definition sys_unlink :: "'z fs_st_scheme devsw \<Rightarrow> 'z fs_st_scheme \<Rightarrow> (int \<times> 'z fs_st_scheme) res" where
  "sys_unlink dv s =
     with_arg (argstr 0 s) s (\<lambda>path.
     bnd (begin_op s) (\<lambda>s.
     bnd (nameiparent dv path s) (\<lambda>((r, name), s).
     case r of None \<Rightarrow> op_done (-1) s
     | Some dp \<Rightarrow>
         bnd (ilock (Some dp) s) (\<lambda>s.
         if namecmp name [46] = 0 \<or> namecmp name [46, 46] = 0 then op_drop (-1) dp s
         else bnd (dirlookup dv dp name s) (\<lambda>(r, s).
           case r of None \<Rightarrow> op_drop (-1) dp s
           | Some (ip, off) \<Rightarrow>
               bnd (ilock (Some ip) s) (\<lambda>s.
               if i_nlink (icache s ! ip) < 1 then Panic ''unlink: nlink < 1''
               else bnd (if i_type (icache s ! ip) = T_DIR then isdirempty dv ip s else Ok (True, s))
                 (\<lambda>(empty, s).
                 if \<not> empty then bnd (iunlockput ip s) (op_drop (-1) dp)
                 else unlink_entry dv dp ip off s)))))))"

section \<open>Creating and opening\<close>

definition create_dots :: "'z fs_st_scheme devsw \<Rightarrow> nat \<Rightarrow> nat \<Rightarrow> 'z fs_st_scheme \<Rightarrow> 'z fs_st_scheme res" where
  "create_dots dv dp ip s =
     bnd (add_nlink 1 dp s) (\<lambda>s.
     bnd (dirlink dv ip [46] (i_inum (icache s ! ip)) s) (\<lambda>(r, s).
     if r < 0 then Panic ''create dots''
     else bnd (dirlink dv ip [46, 46] (i_inum (icache s ! dp)) s) (\<lambda>(r, s).
          if r < 0 then Panic ''create dots'' else Ok s)))"

definition create :: "'z fs_st_scheme devsw \<Rightarrow> byte list \<Rightarrow> int \<Rightarrow> int \<Rightarrow> int \<Rightarrow> 'z fs_st_scheme \<Rightarrow>
    (nat option \<times> 'z fs_st_scheme) res" where
  "create dv path type major minor s =
     bnd (nameiparent dv path s) (\<lambda>((r, name), s).
     case r of None \<Rightarrow> Ok (None, s)
     | Some dp \<Rightarrow>
         bnd (ilock (Some dp) s) (\<lambda>s.
         bnd (dirlookup dv dp name s) (\<lambda>(r, s).
         case r of
           Some (ip, _) \<Rightarrow>
             bnd (iunlockput dp s) (\<lambda>s. bnd (ilock (Some ip) s) (\<lambda>s.
             if type = T_FILE \<and> i_type (icache s ! ip) = T_FILE then Ok (Some ip, s)
             else bnd (iunlockput ip s) (\<lambda>s. Ok (None, s))))
         | None \<Rightarrow>
             bnd (ialloc (i_dev (icache s ! dp)) type s) (\<lambda>(ip, s).
             bnd (ilock (Some ip) s) (\<lambda>s.
             bnd (iupdate ip (upd_inode ip (\<lambda>x. x\<lparr>i_major := major, i_minor := minor, i_nlink := 1\<rparr>) s)) (\<lambda>s.
             bnd (if type = T_DIR then create_dots dv dp ip s else Ok s) (\<lambda>s.
             bnd (dirlink dv dp name (i_inum (icache s ! ip)) s) (\<lambda>(r, s).
             if r < 0 then Panic ''create: dirlink''
             else bnd (iunlockput dp s) (\<lambda>s. Ok (Some ip, s))))))))))"

definition O_RDONLY :: u32 where "O_RDONLY = 0"
definition O_WRONLY :: u32 where "O_WRONLY = 1"
definition O_RDWR :: u32 where "O_RDWR = 2"
definition O_CREATE :: u32 where "O_CREATE = 0x200"

text \<open>The inode that \<open>sys_open\<close> opens, locked; \<open>None\<close> when it has already failed.\<close>

definition open_inode :: "'z fs_st_scheme devsw \<Rightarrow> byte list \<Rightarrow> u32 \<Rightarrow> 'z fs_st_scheme \<Rightarrow>
    (nat option \<times> 'z fs_st_scheme) res" where
  "open_inode dv path omode s =
     (if omode AND O_CREATE \<noteq> 0 then create dv path T_FILE 0 0 s
      else bnd (namei dv path s) (\<lambda>(r, s).
           case r of None \<Rightarrow> Ok (None, s)
           | Some ip \<Rightarrow>
               bnd (ilock (Some ip) s) (\<lambda>s.
               if i_type (icache s ! ip) = T_DIR \<and> omode \<noteq> O_RDONLY
               then bnd (iunlockput ip s) (\<lambda>s. Ok (None, s))
               else Ok (Some ip, s))))"

definition sys_open :: "'z file_st_scheme devsw \<Rightarrow> 'z file_st_scheme \<Rightarrow> (int \<times> 'z file_st_scheme) res" where
  "sys_open dv s =
     with_arg (argstr 0 s) s (\<lambda>path.
     with_arg (argint 1 s) s (\<lambda>omode.
     bnd (begin_op s) (\<lambda>s.
     bnd (open_inode dv path omode s) (\<lambda>(r, s).
     case r of None \<Rightarrow> op_done (-1) s
     | Some ip \<Rightarrow>
         case filealloc s of
           (None, s) \<Rightarrow> op_drop (-1) ip s
         | (Some f, s) \<Rightarrow>
             bnd (fdalloc f s) (\<lambda>(fd, s).
             if fd < 0 then bnd (fileclose f s) (op_drop (-1) ip)
             else bnd (iunlock (Some ip) s) (\<lambda>s. bnd (end_op s) (\<lambda>s.
               Ok (fd, upd_file f (\<lambda>x. x\<lparr>f_type := FD_INODE, f_ip := ip, f_off := 0,
                 f_readable := (omode AND O_WRONLY = 0),
                 f_writable := (omode AND O_WRONLY \<noteq> 0 \<or> omode AND O_RDWR \<noteq> 0)\<rparr>) s))))))))"

text \<open>These begin the transaction before they look at their arguments.\<close>

definition op_arg :: "'a option res \<Rightarrow> 'z log_st_scheme \<Rightarrow> ('a \<Rightarrow> (int \<times> 'z log_st_scheme) res) \<Rightarrow>
    (int \<times> 'z log_st_scheme) res" where
  "op_arg m s f = bnd m (\<lambda>r. case r of None \<Rightarrow> op_done (-1) s | Some x \<Rightarrow> f x)"

definition make_node :: "'z fs_st_scheme devsw \<Rightarrow> byte list \<Rightarrow> int \<Rightarrow> int \<Rightarrow> int \<Rightarrow> 'z fs_st_scheme \<Rightarrow>
    (int \<times> 'z fs_st_scheme) res" where
  "make_node dv path type major minor s =
     bnd (create dv path type major minor s) (\<lambda>(r, s).
     case r of None \<Rightarrow> op_done (-1) s | Some ip \<Rightarrow> op_drop 0 ip s)"

definition sys_mkdir :: "'z fs_st_scheme devsw \<Rightarrow> 'z fs_st_scheme \<Rightarrow> (int \<times> 'z fs_st_scheme) res" where
  "sys_mkdir dv s =
     bnd (begin_op s) (\<lambda>s. op_arg (argstr 0 s) s (\<lambda>path. make_node dv path T_DIR 0 0 s))"

definition sys_mknod :: "'z fs_st_scheme devsw \<Rightarrow> 'z fs_st_scheme \<Rightarrow> (int \<times> 'z fs_st_scheme) res" where
  "sys_mknod dv s =
     bnd (begin_op s) (\<lambda>s.
     op_arg (argstr 0 s) s (\<lambda>path.
     op_arg (argint 1 s) s (\<lambda>major.
     op_arg (argint 2 s) s (\<lambda>minor.
     make_node dv path T_DEV (to_short (sint major)) (to_short (sint minor)) s))))"

definition sys_chdir :: "'z fs_st_scheme devsw \<Rightarrow> 'z fs_st_scheme \<Rightarrow> (int \<times> 'z fs_st_scheme) res" where
  "sys_chdir dv s =
     bnd (curproc s) (\<lambda>c.
     bnd (begin_op s) (\<lambda>s.
     op_arg (argstr 0 s) s (\<lambda>path.
     bnd (namei dv path s) (\<lambda>(r, s).
     case r of None \<Rightarrow> op_done (-1) s
     | Some ip \<Rightarrow>
         bnd (ilock (Some ip) s) (\<lambda>s.
         if i_type (icache s ! ip) \<noteq> T_DIR then op_drop (-1) ip s
         else bnd (iunlock (Some ip) s) (\<lambda>s.
           case p_cwd (ptable s ! c) of None \<Rightarrow> Fault ''iput: null''
           | Some old \<Rightarrow> bnd (iput old s) (\<lambda>s. bnd (end_op s) (\<lambda>s.
               Ok (0, upd_proc c (\<lambda>p. p\<lparr>p_cwd := Some ip\<rparr>) s)))))))))"

section \<open>Exec and pipe\<close>

text \<open>The loop of \<open>sys_exec\<close> from argument \<open>i\<close> on; the first argument is what is left of \<open>argv\<close>.\<close>

fun fetch_argv :: "nat \<Rightarrow> u32 \<Rightarrow> nat \<Rightarrow> 'z proc_st_scheme \<Rightarrow> byte list list option res" where
  "fetch_argv 0 uargv i s = Ok None"
| "fetch_argv (Suc k) uargv i s =
     bnd (fetchint (uargv + 4 * word_of_nat i) s) (\<lambda>r.
     case r of None \<Rightarrow> Ok None
     | Some uarg \<Rightarrow>
         if uarg = 0 then Ok (Some [])
         else bnd (fetchstr uarg s) (\<lambda>r.
              case r of None \<Rightarrow> Ok None
              | Some a \<Rightarrow> bnd (fetch_argv k uargv (Suc i) s) (\<lambda>r. Ok (map_option (\<lambda>as. a # as) r))))"

definition sys_exec :: "'z fs_st_scheme devsw \<Rightarrow> 'z fs_st_scheme \<Rightarrow> (int \<times> 'z fs_st_scheme) res" where
  "sys_exec dv s =
     with_arg (argstr 0 s) s (\<lambda>path.
     with_arg (argint 1 s) s (\<lambda>uargv.
     with_arg (fetch_argv MAXARG uargv 0 s) s (\<lambda>argv. exec dv path argv s)))"

definition sys_pipe :: "'z file_st_scheme \<Rightarrow> (int \<times> 'z file_st_scheme) res" where
  "sys_pipe s =
     with_arg (argptr 0 8 s) s (\<lambda>fd.
     bnd (pipealloc s) (\<lambda>(r, s).
     case r of None \<Rightarrow> Ok (-1, s)
     | Some (rfl, wfl) \<Rightarrow>
         bnd (fdalloc rfl s) (\<lambda>(fd0, s).
         bnd (if fd0 < 0 then Ok (-1, s) else fdalloc wfl s) (\<lambda>(fd1, s).
         if fd0 < 0 \<or> fd1 < 0 then
           bnd (if fd0 \<ge> 0 then clear_fd (nat fd0) s else Ok s) (\<lambda>s.
           bnd (fileclose rfl s) (\<lambda>s. bnd (fileclose wfl s) (\<lambda>s. Ok (-1, s))))
         else bnd (to_user fd (le32 (nat fd0)) s) (\<lambda>s.
              bnd (to_user (fd + 4) (le32 (nat fd1)) s) (\<lambda>s. Ok (0, s)))))))"

end
