(* ===== verification/Sem.thy ===== *)
theory Sem
  imports Sysfile
begin

text \<open>
  Semaphores, readers-writer locks and the integer queue of \<^verbatim>\<open>proc.c\<close> (with the structures of
  \<^verbatim>\<open>sleeplock.h\<close> and \<^verbatim>\<open>types.h\<close>).  A semaphore is a structure in user memory, known by its address;
  the kernel keeps no table of them.  A waiter sleeps on \<open>arr[count++ % SIZE]\<close>, and an
  unlock wakes \<open>arr[dcount++ % SIZE]\<close>: the slots order the waiters.

  A call that goes to sleep stops there, in the state in which the scheduler runs; what it
  does when it is woken up is a function of its own (\<open>xem_wait_back\<close>, \<open>rwlock_resume\<close>).
\<close>

section \<open>The integer queue\<close>

definition QUEUESIZE :: int where "QUEUESIZE = 1000"

record queue =
  q_q :: "int list"
  q_last :: int
  q_first :: int
  q_count :: int

definition init_queue :: "queue \<Rightarrow> queue" where
  "init_queue q = q\<lparr>q_last := QUEUESIZE - 1, q_first := 0, q_count := 0\<rparr>"

definition enqueue :: "int \<Rightarrow> queue \<Rightarrow> int \<times> queue" where
  "enqueue x q =
     (let q = q\<lparr>q_last := (q_last q + 1) mod QUEUESIZE\<rparr>;
          q = q\<lparr>q_q := (q_q q)[nat (q_last q) := x]\<rparr>;
          q = q\<lparr>q_count := q_count q + 1\<rparr>
      in (q_last q, q))"

definition dequeue :: "queue \<Rightarrow> int \<times> queue" where
  "dequeue q =
     (let x = q_q q ! nat (q_first q);
          q = q\<lparr>q_first := (q_first q + 1) mod QUEUESIZE\<rparr>;
          q = q\<lparr>q_count := q_count q - 1\<rparr>
      in (x, q))"

section \<open>Semaphores\<close>

definition SIZE :: nat where "SIZE = 9991"

record xem =
  x_value :: int
  x_end :: int
  x_q :: u32          \<comment> \<open>the pointer \<open>q\<close>\<close>
  x_count :: nat
  x_dcount :: nat

record sem_st = file_st +
  xems :: "u32 \<Rightarrow> xem"
  readers :: "u32 \<Rightarrow> int"

definition upd_xem :: "u32 \<Rightarrow> (xem \<Rightarrow> xem) \<Rightarrow> 'z sem_st_scheme \<Rightarrow> 'z sem_st_scheme" where
  "upd_xem a f s = s\<lparr>xems := (xems s)(a := f (xems s a))\<rparr>"

text \<open>
  \<open>init_queue\<close> through the pointer that the structure holds: the fields \<open>last\<close>, \<open>first\<close> and
  \<open>count\<close> follow the 1001 numbers of the array.
\<close>

definition init_queue_at :: "u32 \<Rightarrow> 'z proc_st_scheme \<Rightarrow> 'z proc_st_scheme res" where
  "init_queue_at q s =
     bnd (to_user (q + 4004) (bytes32 (word_of_int (QUEUESIZE - 1))) s) (\<lambda>s.
     bnd (to_user (q + 4008) (bytes32 0) s) (\<lambda>s. to_user (q + 4012) (bytes32 0) s))"

definition xem_init :: "u32 \<Rightarrow> 'z sem_st_scheme \<Rightarrow> (int \<times> 'z sem_st_scheme) res" where
  "xem_init a s =
     (let s = upd_xem a (\<lambda>x. x\<lparr>x_value := 1, x_end := 0\<rparr>) s
      in bnd (init_queue_at (x_q (xems s a)) s) (\<lambda>s.
         Ok (0, upd_xem a (\<lambda>x. x\<lparr>x_count := 0, x_dcount := 0\<rparr>) s)))"

text \<open>The parts of \<open>xem_wait\<close> and \<open>xem_unlock\<close> that change the structure: the slot to sleep on, or to wake.\<close>

definition xem_down :: "xem \<Rightarrow> nat option \<times> xem" where
  "xem_down x =
     (let x = x\<lparr>x_value := x_value x - 1\<rparr>
      in if x_value x < 0 then (Some (x_count x mod SIZE), x\<lparr>x_count := x_count x + 1\<rparr>)
         else (None, x))"

definition xem_up :: "xem \<Rightarrow> nat option \<times> xem" where
  "xem_up x =
     (let x = x\<lparr>x_value := x_value x + 1\<rparr>
      in if x_value x \<le> 0
         then (Some (x_dcount x mod SIZE), x\<lparr>x_end := x_end x + 1, x_dcount := x_dcount x + 1\<rparr>)
         else (None, x))"

text \<open>\<open>xem_wait\<close>: \<open>True\<close> when it returns at once, \<open>False\<close> when the process now sleeps.\<close>

definition xem_wait :: "u32 \<Rightarrow> 'z sem_st_scheme \<Rightarrow> (bool \<times> 'z sem_st_scheme) res" where
  "xem_wait a s =
     (let (w, x) = xem_down (xems s a); s = upd_xem a (\<lambda>_. x) s
      in case w of None \<Rightarrow> Ok (True, s)
         | Some k \<Rightarrow> bnd (sleep_enter (XemChan (unat a) k) False s) (\<lambda>s. Ok (False, s)))"

definition xem_wait_back :: "u32 \<Rightarrow> 'z sem_st_scheme \<Rightarrow> 'z sem_st_scheme res" where
  "xem_wait_back a s =
     bnd (sleep_leave False s) (\<lambda>s. Ok (upd_xem a (\<lambda>x. x\<lparr>x_end := x_end x - 1\<rparr>) s))"

definition xem_unlock :: "u32 \<Rightarrow> 'z sem_st_scheme \<Rightarrow> 'z sem_st_scheme res" where
  "xem_unlock a s =
     (let (w, x) = xem_up (xems s a); s = upd_xem a (\<lambda>_. x) s
      in case w of None \<Rightarrow> Ok s | Some k \<Rightarrow> wakeup (XemChan (unat a) k) s)"

section \<open>Readers-writer locks\<close>

text \<open>The two semaphores of the structure, and the counter after them, by address.\<close>

definition XEM_SIZE :: u32 where "XEM_SIZE = 40036"
definition RWLOCK_SIZE :: u32 where "RWLOCK_SIZE = 80076"

definition rw_lk :: "u32 \<Rightarrow> u32" where "rw_lk a = a"
definition rw_writelock :: "u32 \<Rightarrow> u32" where "rw_writelock a = a + XEM_SIZE"

definition rwlock_init :: "u32 \<Rightarrow> 'z sem_st_scheme \<Rightarrow> (int \<times> 'z sem_st_scheme) res" where
  "rwlock_init a s =
     bnd (xem_init (rw_lk a) s) (\<lambda>(_, s).
     bnd (xem_init (rw_writelock a) s) (\<lambda>(_, s).
     Ok (0, s\<lparr>readers := (readers s)(a := 0)\<rparr>)))"

text \<open>Where a call stands: it has returned, or sleeps in one of its calls of \<open>xem_wait\<close>.\<close>

datatype rw_call = RwDone | ReadLk | ReadWrite | WriteWrite | UnreadLk

definition rw_read_done :: "u32 \<Rightarrow> 'z sem_st_scheme \<Rightarrow> (rw_call \<times> 'z sem_st_scheme) res" where
  "rw_read_done a s = bnd (xem_unlock (rw_lk a) s) (\<lambda>s. Ok (RwDone, s))"

definition rw_read_locked :: "u32 \<Rightarrow> 'z sem_st_scheme \<Rightarrow> (rw_call \<times> 'z sem_st_scheme) res" where
  "rw_read_locked a s =
     (let s = s\<lparr>readers := (readers s)(a := readers s a + 1)\<rparr>
      in if readers s a = 1 then
           bnd (xem_wait (rw_writelock a) s) (\<lambda>(ok, s).
           if ok then rw_read_done a s else Ok (ReadWrite, s))
         else rw_read_done a s)"

definition rwlock_acquire_readlock :: "u32 \<Rightarrow> 'z sem_st_scheme \<Rightarrow> (rw_call \<times> 'z sem_st_scheme) res" where
  "rwlock_acquire_readlock a s =
     bnd (xem_wait (rw_lk a) s) (\<lambda>(ok, s). if ok then rw_read_locked a s else Ok (ReadLk, s))"

definition rwlock_acquire_writelock :: "u32 \<Rightarrow> 'z sem_st_scheme \<Rightarrow> (rw_call \<times> 'z sem_st_scheme) res" where
  "rwlock_acquire_writelock a s =
     bnd (xem_wait (rw_writelock a) s) (\<lambda>(ok, s). Ok (if ok then RwDone else WriteWrite, s))"

definition rw_unread_locked :: "u32 \<Rightarrow> 'z sem_st_scheme \<Rightarrow> (rw_call \<times> 'z sem_st_scheme) res" where
  "rw_unread_locked a s =
     (let s = s\<lparr>readers := (readers s)(a := readers s a - 1)\<rparr>
      in bnd (if readers s a = 0 then xem_unlock (rw_writelock a) s else Ok s) (rw_read_done a))"

definition rwlock_release_readlock :: "u32 \<Rightarrow> 'z sem_st_scheme \<Rightarrow> (rw_call \<times> 'z sem_st_scheme) res" where
  "rwlock_release_readlock a s =
     bnd (xem_wait (rw_lk a) s) (\<lambda>(ok, s). if ok then rw_unread_locked a s else Ok (UnreadLk, s))"

definition rwlock_release_writelock :: "u32 \<Rightarrow> 'z sem_st_scheme \<Rightarrow> (rw_call \<times> 'z sem_st_scheme) res" where
  "rwlock_release_writelock a s =
     bnd (xem_unlock (rw_writelock a) s) (\<lambda>s. Ok (RwDone, s))"

definition rwlock_resume :: "rw_call \<Rightarrow> u32 \<Rightarrow> 'z sem_st_scheme \<Rightarrow> (rw_call \<times> 'z sem_st_scheme) res" where
  "rwlock_resume c a s =
     (case c of
        RwDone \<Rightarrow> Ok (RwDone, s)
      | ReadLk \<Rightarrow> bnd (xem_wait_back (rw_lk a) s) (rw_read_locked a)
      | ReadWrite \<Rightarrow> bnd (xem_wait_back (rw_writelock a) s) (rw_read_done a)
      | WriteWrite \<Rightarrow> bnd (xem_wait_back (rw_writelock a) s) (\<lambda>s. Ok (RwDone, s))
      | UnreadLk \<Rightarrow> bnd (xem_wait_back (rw_lk a) s) (rw_unread_locked a))"

section \<open>The integer queue is a queue\<close>

definition queue_ok :: "queue \<Rightarrow> bool" where
  "queue_ok q \<longleftrightarrow> length (q_q q) = 1001 \<and> 0 \<le> q_first q \<and> q_first q < QUEUESIZE \<and> 0 \<le> q_count q \<and> q_count q \<le> QUEUESIZE \<and>
     q_last q = (q_first q + q_count q - 1) mod QUEUESIZE"

definition queue_list :: "queue \<Rightarrow> int list" where
  "queue_list q = ring 1000 (q_q q) (nat (q_first q)) (nat (q_count q))"

lemma enqueue_law:
  assumes "queue_ok q" "length (queue_list q) < 1000"
  shows "queue_ok (snd (enqueue x q)) \<and> queue_list (snd (enqueue x q)) = queue_list q @ [x]"
proof -
  let ?n = "nat (q_count q)" and ?f = "nat (q_first q)"
  have n: "?n < 1000" using assms(2) by (simp add: queue_list_def)
  have q: "0 \<le> q_first q" "0 \<le> q_count q" "length (q_q q) = 1001" "q_last q = (q_first q + q_count q - 1) mod 1000"
    using assms(1) by (auto simp: queue_ok_def QUEUESIZE_def)
  have l: "(q_last q + 1) mod 1000 = (q_first q + q_count q) mod 1000" by (simp add: q(4) mod_simps)
  have slot: "nat ((q_first q + q_count q) mod 1000) = (?f + ?n) mod 1000"
    using q(1,2) by (simp add: nat_mod_distrib nat_add_distrib)
  have "queue_ok (snd (enqueue x q))" using assms(1) n l
    by (auto simp: enqueue_def queue_ok_def Let_def QUEUESIZE_def)
  moreover have "nat (q_count q + 1) = Suc ?n" using q(2) by simp
  then have "queue_list (snd (enqueue x q)) = queue_list q @ [x]"
    using ring_put [OF n, of "q_q q" ?f x] q(3) by (simp add: enqueue_def queue_list_def Let_def QUEUESIZE_def l slot)
  ultimately show ?thesis ..
qed

lemma dequeue_law:
  assumes "queue_ok q" "queue_list q = x # xs"
  shows "fst (dequeue q) = x \<and> queue_ok (snd (dequeue q)) \<and> queue_list (snd (dequeue q)) = xs"
proof -
  have q: "0 \<le> q_first q" "q_first q < 1000" "0 \<le> q_count q" "q_last q = (q_first q + q_count q - 1) mod 1000"
    using assms(1) by (auto simp: queue_ok_def QUEUESIZE_def)
  have "length (queue_list q) = Suc (length xs)" using assms(2) by simp
  then obtain n where n: "nat (q_count q) = Suc n" by (simp add: queue_list_def)
  then have c: "nat (q_count q - 1) = n" "1 \<le> q_count q" by auto
  have f: "nat ((q_first q + 1) mod 1000) = (nat (q_first q) + 1) mod 1000"
    using q(1) by (simp add: nat_mod_distrib nat_add_distrib)
  have "((q_first q + 1) mod 1000 + q_count q - 2) mod 1000 = (q_first q + q_count q - 1) mod 1000"
    using mod_add_left_eq [of "q_first q + 1" 1000 "q_count q - 2"] by (simp add: algebra_simps)
  then have "queue_ok (snd (dequeue q))"
    using assms(1) c(2) q(4) by (auto simp: dequeue_def queue_ok_def Let_def QUEUESIZE_def)
  moreover have "nat (q_first q) mod 1000 = nat (q_first q)" using q(1,2) by (simp add: nat_less_iff)
  ultimately show ?thesis using assms(2) unfolding queue_list_def n ring_get
    by (simp add: dequeue_def Let_def QUEUESIZE_def c f flip: ring_mod [of 1000 _ "nat (q_first q) + 1"])
qed

interpretation int_q: fifo queue_ok queue_list "\<lambda>x q. snd (enqueue x q)" dequeue 1000
  by unfold_locales (use enqueue_law dequeue_law in blast)+

section \<open>Critical sections\<close>

text \<open>
  Threads that use a semaphore around a critical section, one step of one thread at a time.
  A thread that sleeps is known by the value of \<open>count\<close> it took; it sleeps on the slot \<open>c mod SIZE\<close>, and
  \<open>wakeup\<close> wakes every thread on the slot it is given.
\<close>

datatype sem_pc = Out | Asleep nat | Woken | Inside

definition wake :: "nat \<Rightarrow> (nat \<Rightarrow> sem_pc) \<Rightarrow> nat \<Rightarrow> sem_pc" where
  "wake k p = (\<lambda>j. case p j of Asleep c \<Rightarrow> if c mod SIZE = k then Woken else Asleep c | q \<Rightarrow> q)"

inductive sem_step :: "nat \<Rightarrow> xem \<times> (nat \<Rightarrow> sem_pc) \<Rightarrow> xem \<times> (nat \<Rightarrow> sem_pc) \<Rightarrow> bool" for N where
  st_enter: "i < N \<Longrightarrow> p i = Out \<Longrightarrow> xem_down x = (None, x') \<Longrightarrow> sem_step N (x, p) (x', p(i := Inside))"
| st_sleep: "i < N \<Longrightarrow> p i = Out \<Longrightarrow> xem_down x = (Some k, x') \<Longrightarrow> sem_step N (x, p) (x', p(i := Asleep (x_count x)))"
| st_resume: "p i = Woken \<Longrightarrow> sem_step N (x, p) (x\<lparr>x_end := x_end x - 1\<rparr>, p(i := Inside))"
| st_leave: "p i = Inside \<Longrightarrow> xem_up x = (None, x') \<Longrightarrow> sem_step N (x, p) (x', p(i := Out))"
| st_wake: "p i = Inside \<Longrightarrow> xem_up x = (Some k, x') \<Longrightarrow> sem_step N (x, p) (x', wake k (p(i := Out)))"

fun owner :: "sem_pc \<Rightarrow> bool" where
  "owner Woken = True" | "owner Inside = True" | "owner Out = False" | "owner (Asleep c) = False"

definition sem_inv :: "nat \<Rightarrow> xem \<times> (nat \<Rightarrow> sem_pc) \<Rightarrow> bool" where
  "sem_inv N = (\<lambda>(x, p).
     (\<forall>i. p i \<noteq> Out \<longrightarrow> i < N) \<and> (\<forall>i j. owner (p i) \<longrightarrow> owner (p j) \<longrightarrow> i = j) \<and>
     (\<forall>c. (\<exists>i. p i = Asleep c) \<longleftrightarrow> x_dcount x \<le> c \<and> c < x_count x) \<and>
     (\<forall>i j c. p i = Asleep c \<longrightarrow> p j = Asleep c \<longrightarrow> i = j) \<and> x_dcount x \<le> x_count x \<and>
     x_value x = (if \<exists>i. owner (p i) then 0 else 1) - int (x_count x - x_dcount x) \<and>
     ((\<forall>i. \<not> owner (p i)) \<longrightarrow> x_count x = x_dcount x))"

text \<open>There are no more sleepers than threads, so that no two of them share a slot.\<close>

lemma sleepers_bound:
  assumes "sem_inv N (x, p)"
  shows "x_count x - x_dcount x \<le> N"
proof -
  define w where "w c = (SOME i. p i = Asleep c)" for c
  have w: "p (w c) = Asleep c" if "c \<in> {x_dcount x..<x_count x}" for c
  proof -
    have "\<exists>i. p i = Asleep c" using assms that by (auto simp: sem_inv_def)
    then show ?thesis unfolding w_def by (rule someI_ex)
  qed
  have "inj_on w {x_dcount x..<x_count x}" using w by (intro inj_onI) (metis sem_pc.inject)
  moreover have "w ` {x_dcount x..<x_count x} \<subseteq> {..<N}"
    using assms w by (fastforce simp: sem_inv_def)
  ultimately have "card {x_dcount x..<x_count x} \<le> card {..<N}" by (intro card_inj_on_le) auto
  then show ?thesis by simp
qed

lemma slot_unique:
  assumes "c \<in> {d..<e}" "e - d \<le> SIZE" "c mod SIZE = d mod SIZE"
  shows "c = d"
proof -
  have "SIZE dvd c - d" using assms(1,3) mod_eq_dvd_iff_nat [of d c SIZE] by simp
  moreover have "c - d < SIZE" using assms(1,2) by auto
  ultimately show ?thesis using assms(1) by (auto dest: dvd_imp_le)
qed

lemma sem_invD:
  assumes "sem_inv N (x, p)"
  shows "\<And>i. p i \<noteq> Out \<Longrightarrow> i < N" "\<And>i j. owner (p i) \<Longrightarrow> owner (p j) \<Longrightarrow> i = j"
    "\<And>c. (\<exists>i. p i = Asleep c) \<longleftrightarrow> x_dcount x \<le> c \<and> c < x_count x" "\<And>i j c. p i = Asleep c \<Longrightarrow> p j = Asleep c \<Longrightarrow> i = j"
    "x_dcount x \<le> x_count x" "x_value x = (if \<exists>i. owner (p i) then 0 else 1) - int (x_count x - x_dcount x)"
    "(\<forall>i. \<not> owner (p i)) \<Longrightarrow> x_count x = x_dcount x"
  using assms unfolding sem_inv_def by auto

lemma sem_inv_enter:
  assumes "sem_inv N (x, p)" "i < N" "p i = Out" "xem_down x = (None, x')"
  shows "sem_inv N (x', p(i := Inside))"
proof -
  note I = sem_invD [OF assms(1)]
  from assms(4) have x': "x' = x\<lparr>x_value := x_value x - 1\<rparr>" "0 < x_value x"
    by (auto simp: xem_down_def Let_def split: if_splits)
  then have no: "\<not> owner (p j)" "x_count x = x_dcount x" for j using I(5,6,7) by (auto split: if_splits)
  then have "p j \<noteq> Asleep c" for j c using I(3) [of c] by auto
  then show ?thesis using I assms(2,3) no x' unfolding sem_inv_def by (auto split: if_splits)
qed

lemma sem_inv_sleep:
  assumes "sem_inv N (x, p)" "i < N" "p i = Out" "xem_down x = (Some k, x')"
  shows "sem_inv N (x', p(i := Asleep (x_count x)))"
proof -
  note I = sem_invD [OF assms(1)]
  from assms(4) have x': "x' = x\<lparr>x_value := x_value x - 1, x_count := x_count x + 1\<rparr>" "x_value x \<le> 0"
    by (auto simp: xem_down_def Let_def split: if_splits)
  then obtain j where j: "owner (p j)" using I(6,7) by (auto split: if_splits)
  let ?p = "p(i := Asleep (x_count x))"
  have o: "owner (?p a) \<longleftrightarrow> owner (p a)" for a using assms(3) by simp
  have new: "p a \<noteq> Asleep (x_count x)" for a using I(3) [of "x_count x"] by auto
  have "(\<exists>a. ?p a = Asleep c) \<longleftrightarrow> c = x_count x \<or> (\<exists>a. p a = Asleep c)" for c
    using assms(3) by (metis fun_upd_apply sem_pc.distinct(1) sem_pc.inject)
  then have "(\<exists>a. ?p a = Asleep c) \<longleftrightarrow> x_dcount x \<le> c \<and> c < x_count x + 1" for c using I(3) [of c] I(5) by auto
  moreover have "?p a = Asleep c \<Longrightarrow> ?p b = Asleep c \<Longrightarrow> a = b" for a b c
    using I(4) new by (auto split: if_splits)
  moreover have "?p a \<noteq> Out \<Longrightarrow> a < N" for a using I(1) assms(2) by (auto split: if_splits)
  moreover have "x_value x' = 0 - int (x_count x' - x_dcount x')" using I(5,6) j x' by auto
  moreover have "\<exists>a. owner (?p a)" using o j by blast
  ultimately show ?thesis using I(2,5) o x'(1) unfolding sem_inv_def by (auto simp del: fun_upd_apply)
qed

lemma sem_inv_resume:
  assumes "sem_inv N (x, p)" "p i = Woken"
  shows "sem_inv N (x\<lparr>x_end := e\<rparr>, p(i := Inside))"
proof -
  note I = sem_invD [OF assms(1)]
  let ?p = "p(i := Inside)"
  have o: "owner (?p a) \<longleftrightarrow> owner (p a)" for a using assms(2) by simp
  have s: "?p a = Asleep c \<longleftrightarrow> p a = Asleep c" for a c using assms(2) by simp
  have "?p a \<noteq> Out \<Longrightarrow> a < N" for a using I(1) assms(2) by (metis fun_upd_apply sem_pc.distinct(3))
  then show ?thesis using I unfolding sem_inv_def by (simp add: o s del: fun_upd_apply)
qed

lemma sem_inv_leave:
  assumes "sem_inv N (x, p)" "p i = Inside" "xem_up x = (None, x')"
  shows "sem_inv N (x', p(i := Out))"
proof -
  note I = sem_invD [OF assms(1)]
  from assms(3) have x': "x' = x\<lparr>x_value := x_value x + 1\<rparr>" "0 \<le> x_value x"
    by (auto simp: xem_up_def Let_def split: if_splits)
  have "owner (p i)" using assms(2) by simp
  then have e: "x_count x = x_dcount x" "x_value x = 0" using I(5,6) x'(2) by (auto split: if_splits)
  have "\<not> owner ((p(i := Out)) j)" for j using I(2) \<open>owner (p i)\<close> by (cases "j = i") auto
  moreover have "p j \<noteq> Asleep c" for j c using I(3) [of c] e by auto
  ultimately show ?thesis using I(1) e x'(1) unfolding sem_inv_def by auto
qed

lemma wake_first:
  assumes "sem_inv N (x, p)" "N \<le> SIZE" "p i = Inside"
  shows "wake (x_dcount x mod SIZE) (p(i := Out)) j =
    (if j = i then Out else if p j = Asleep (x_dcount x) then Woken else p j)"
proof -
  note I = sem_invD [OF assms(1)]
  have "c = x_dcount x" if "p j = Asleep c" "c mod SIZE = x_dcount x mod SIZE" for c
  proof (rule slot_unique)
    show "c \<in> {x_dcount x..<x_count x}" using I(3) that(1) by auto
    show "x_count x - x_dcount x \<le> SIZE" using sleepers_bound [OF assms(1)] assms(2) by simp
  qed (rule that(2))
  then show ?thesis by (cases "p j") (auto simp: wake_def)
qed

lemma sem_inv_wake:
  assumes "sem_inv N (x, p)" "N \<le> SIZE" "p i = Inside" "xem_up x = (Some k, x')"
  shows "sem_inv N (x', wake k (p(i := Out)))"
proof -
  note I = sem_invD [OF assms(1)]
  from assms(4) have k: "k = x_dcount x mod SIZE" and
    x': "x' = x\<lparr>x_value := x_value x + 1, x_end := x_end x + 1, x_dcount := x_dcount x + 1\<rparr>" "x_value x < 0"
    by (auto simp: xem_up_def Let_def split: if_splits)
  let ?p = "wake k (p(i := Out))" and ?d = "x_dcount x"
  have p: "?p j = (if j = i then Out else if p j = Asleep ?d then Woken else p j)" for j
    unfolding k by (rule wake_first [OF assms(1-3)])
  have oi: "owner (p i)" using assms(3) by simp
  have d: "?d < x_count x" using x'(2) I(5,6) oi by (auto split: if_splits)
  then obtain f where f: "p f = Asleep ?d" using I(3) [of ?d] by auto
  have f': "p j = Asleep ?d \<longleftrightarrow> j = f" for j using I(4) f by auto
  have fi: "f \<noteq> i" using f assms(3) by auto
  have o: "owner (?p j) \<longleftrightarrow> j = f" for j
    using I(2) [OF _ oi, of j] fi f' by (auto simp: p)
  have s: "?p j = Asleep c \<longleftrightarrow> p j = Asleep c \<and> c \<noteq> ?d" for j c using assms(3) by (auto simp: p)
  then have "(\<exists>j. ?p j = Asleep c) \<longleftrightarrow> ?d + 1 \<le> c \<and> c < x_count x" for c using I(3) [of c] by auto
  moreover have "?p j \<noteq> Out \<Longrightarrow> j < N" for j using I(1) f by (auto simp: p split: if_splits)
  moreover have "x_value x' = 0 - int (x_count x' - x_dcount x')" using I(5,6) oi d x'(1) by (auto split: if_splits)
  moreover have "\<exists>j. owner (?p j)" using o by blast
  moreover have "?p a = Asleep c \<Longrightarrow> ?p b = Asleep c \<Longrightarrow> a = b" for a b c using s I(4) by blast
  ultimately show ?thesis using d x'(1) unfolding sem_inv_def by (simp add: o)
qed

lemma sem_step_inv: "sem_step N s t \<Longrightarrow> N \<le> SIZE \<Longrightarrow> sem_inv N s \<Longrightarrow> sem_inv N t"
  by (induction rule: sem_step.induct) (blast intro: sem_inv_enter sem_inv_sleep sem_inv_resume sem_inv_leave sem_inv_wake)+

lemma sem_reach_inv:
  assumes "(sem_step N)\<^sup>*\<^sup>* (x0, \<lambda>_. Out) s" "x_value x0 = 1" "x_count x0 = 0" "x_dcount x0 = 0" "N \<le> SIZE"
  shows "sem_inv N s"
  using assms(1)
proof (induction rule: rtranclp_induct)
  case base
  show ?case using assms by (simp add: sem_inv_def)
qed (blast intro: sem_step_inv assms(5))


text \<open>Two threads: the second waits for the first.\<close>

definition fresh_xem :: xem where
  "fresh_xem = \<lparr>x_value = 1, x_end = 0, x_q = 0, x_count = 0, x_dcount = 0\<rparr>"

lemma two_threads:
  "(sem_step N)\<^sup>*\<^sup>* (fresh_xem, \<lambda>_. Out)
     (fresh_xem\<lparr>x_value := - 1, x_count := 1\<rparr>, (\<lambda>_. Out)(0 := Inside, Suc 0 := Asleep 0))" if "1 < N"
proof -
  have "sem_step N (fresh_xem, \<lambda>_. Out) (fresh_xem\<lparr>x_value := 0\<rparr>, (\<lambda>_. Out)(0 := Inside))"
    using that by (intro st_enter) (simp_all add: xem_down_def fresh_xem_def)
  moreover have "sem_step N (fresh_xem\<lparr>x_value := 0\<rparr>, (\<lambda>_. Out)(0 := Inside))
      (fresh_xem\<lparr>x_value := - 1, x_count := 1\<rparr>, (\<lambda>_. Out)(0 := Inside, Suc 0 := Asleep (x_count (fresh_xem\<lparr>x_value := 0\<rparr>))))"
    using that by (intro st_sleep [where k = 0]) (simp_all add: xem_down_def fresh_xem_def SIZE_def)
  ultimately show ?thesis by (simp add: fresh_xem_def)
qed


text \<open>
  C36.  A killed waiter loses a wake-up.  \<open>kill\<close> makes a sleeping thread runnable, and \<open>xem_wait\<close> does not
  look again whether it was woken by an unlock: the thread leaves the queue without its slot being
  taken back.  When the first of several waiters is killed and leaves, the next unlock wakes nobody although
  others wait, and the value stays below one: nobody is inside, all others sleep, and every
  later call of \<open>xem_wait\<close> sleeps too.
\<close>

theorem xem_kill_loses_wakeup:
  assumes "(sem_step N)\<^sup>*\<^sup>* (x0, \<lambda>_. Out) (x, p)" "x_value x0 = 1" "x_count x0 = 0" "x_dcount x0 = 0" "N \<le> SIZE"
    "p i = Inside" "p v = Asleep (x_dcount x)" "p w = Asleep c" "w \<noteq> v"
  shows "\<exists>k x'. xem_up x = (Some k, x') \<and> wake k (p(v := Out, i := Out)) = p(v := Out, i := Out) \<and>
    (\<forall>a. \<not> owner ((p(v := Out, i := Out)) a)) \<and> (p(v := Out, i := Out)) w = Asleep c \<and>
    (\<exists>k' x''. xem_down x' = (Some k', x''))"
proof -
  have inv: "sem_inv N (x, p)" by (rule sem_reach_inv [OF assms(1-5)])
  note I = sem_invD [OF inv]
  let ?q = "p(v := Out, i := Out)"
  have oi: "owner (p i)" using assms(6) by simp
  have vi: "v \<noteq> i" "w \<noteq> i" using assms(6,7,8) by auto
  have "c \<noteq> x_dcount x" using I(4) [OF assms(7), of w] assms(8,9) by auto
  moreover have "x_dcount x \<le> c" "c < x_count x" using I(3) [of c] assms(8) by auto
  ultimately have c: "x_dcount x < c" "c < x_count x" by auto
  then have v: "x_value x \<le> - 2" using I(5,6) oi by auto
  then obtain x' where x': "xem_up x = (Some (x_dcount x mod SIZE), x')" "x_value x' = x_value x + 1"
    by (simp add: xem_up_def Let_def)
  have "wake (x_dcount x mod SIZE) ?q a = ?q a" for a
  proof (cases "a = v")
    case True
    then show ?thesis using vi(1) by (simp add: wake_def)
  next
    case False
    then have "wake (x_dcount x mod SIZE) ?q a = wake (x_dcount x mod SIZE) (p(i := Out)) a" by (simp add: wake_def)
    moreover have "p a \<noteq> Asleep (x_dcount x)" using I(4) [OF assms(7), of a] False by auto
    ultimately show ?thesis using False by (simp add: wake_first [OF inv assms(5,6)])
  qed
  then have "wake (x_dcount x mod SIZE) ?q = ?q" by (rule ext)
  moreover have "\<not> owner (?q a)" for a using I(2) [OF _ oi, of a] by auto
  moreover have "?q w = Asleep c" using assms(8,9) vi by simp
  moreover have "\<exists>k' x''. xem_down x' = (Some k', x'')" using x'(2) v by (simp add: xem_down_def Let_def)
  ultimately show ?thesis using x'(1) by blast
qed

theorem xem_kill_loses_wakeup_witness:
  "\<exists>x p x' k. (sem_step 3)\<^sup>*\<^sup>* (fresh_xem, \<lambda>_. Out) (x, p) \<and> p 0 = Inside \<and> p 1 = Asleep 0 \<and> p 2 = Asleep 1 \<and>
     xem_up x = (Some k, x') \<and> wake k (p(1 := Out, 0 := Out)) = p(1 := Out, 0 := Out)"
proof -
  let ?x = "fresh_xem\<lparr>x_value := - 1, x_count := 1\<rparr>" and ?p = "(\<lambda>_. Out)(0 := Inside, Suc 0 := Asleep 0)"
  have "sem_step 3 (?x, ?p) (?x\<lparr>x_value := - 2, x_count := 2\<rparr>, ?p(2 := Asleep (x_count ?x)))"
    by (intro st_sleep [where k = 1]) (simp_all add: xem_down_def fresh_xem_def SIZE_def)
  with two_threads [of 3] have r: "(sem_step 3)\<^sup>*\<^sup>* (fresh_xem, \<lambda>_. Out) (?x\<lparr>x_value := - 2, x_count := 2\<rparr>, ?p(2 := Asleep 1))"
    by (simp add: fresh_xem_def)
  from xem_kill_loses_wakeup [OF this, of 0 1 2 1] obtain k x' where
    "xem_up (?x\<lparr>x_value := - 2, x_count := 2\<rparr>) = (Some k, x')"
    "wake k ((?p(2 := Asleep 1))(1 := Out, 0 := Out)) = (?p(2 := Asleep 1))(1 := Out, 0 := Out)"
    by (auto simp: fresh_xem_def SIZE_def)
  with r show ?thesis by (intro exI [of _ "?x\<lparr>x_value := - 2, x_count := 2\<rparr>"] exI [of _ "?p(2 := Asleep 1)"] exI [of _ x'] exI [of _ k]) simp
qed

end
