(* ===== verification/Syscall.thy ===== *)
theory Syscall
  imports Sem
begin

text \<open>
  The system calls on processes (\<^verbatim>\<open>sysproc.c\<close>), on semaphores and locks (the end of \<^verbatim>\<open>proc.c\<close>),
  the table and the dispatcher of \<^verbatim>\<open>syscall.c\<close>, and the trap handler of \<^verbatim>\<open>trap.c\<close>.  A call that ends
  in the scheduler has the result \<open>None\<close>: its process goes on when the scheduler picks it again.
\<close>

record tick_st = sem_st +
  ticks :: u32

section \<open>Calls on processes\<close>

definition sys_kill :: "'z proc_st_scheme \<Rightarrow> (int \<times> 'z proc_st_scheme) res" where
  "sys_kill s = with_arg (argint 0 s) s (\<lambda>pid. kill (sint pid) s)"

definition sys_getpid :: "'z proc_st_scheme \<Rightarrow> (int \<times> 'z proc_st_scheme) res" where
  "sys_getpid s = bnd (curproc s) (\<lambda>c. Ok (p_pid (ptable s ! c), s))"

definition sys_sbrk :: "'z proc_st_scheme \<Rightarrow> (int \<times> 'z proc_st_scheme) res" where
  "sys_sbrk s =
     with_arg (argint 0 s) s (\<lambda>n.
     bnd (curproc s) (\<lambda>c.
     let addr = sint (p_sz (ptable s ! c))
     in bnd (growproc (sint n) s) (\<lambda>(r, s). if r < 0 then Ok (-1, s) else Ok (addr, s))))"

text \<open>The test of the loop of \<open>sys_sleep\<close>: the comparison is one of unsigned numbers.\<close>

definition sleep_loop :: "u32 \<Rightarrow> u32 \<Rightarrow> 'z tick_st_scheme \<Rightarrow> (int \<times> 'z tick_st_scheme) res" where
  "sleep_loop ticks0 n s =
     (if ticks s - ticks0 < n then
        bnd (curproc s) (\<lambda>c.
        if p_killed (ptable s ! c) then Ok (-1, s) else Sleeps TicksChan)
      else Ok (0, s))"

definition sys_sleep :: "'z tick_st_scheme \<Rightarrow> (int \<times> 'z tick_st_scheme) res" where
  "sys_sleep s = with_arg (argint 0 s) s (\<lambda>n. sleep_loop (ticks s) n s)"

definition sys_uptime :: "'z tick_st_scheme \<Rightarrow> (int \<times> 'z tick_st_scheme) res" where
  "sys_uptime s = Ok (sint (ticks s), s)"

definition sys_getlev :: "'z proc_st_scheme \<Rightarrow> (int \<times> 'z proc_st_scheme) res" where
  "sys_getlev s = bnd (curproc s) (\<lambda>_. Ok (getlev s, s))"

definition sys_set_cpu_share :: "'z proc_st_scheme \<Rightarrow> (int \<times> 'z proc_st_scheme) res" where
  "sys_set_cpu_share s = with_arg (argint 0 s) s (\<lambda>n. set_cpu_share (sint n) s)"

definition sys_thread_create :: "'z file_st_scheme \<Rightarrow> (int \<times> 'z file_st_scheme) res" where
  "sys_thread_create s =
     with_arg (argint 0 s) s (\<lambda>th.
     with_arg (argint 1 s) s (\<lambda>start_routine.
     with_arg (argint 2 s) s (\<lambda>arg. thread_create th start_routine arg s)))"

definition sys_thread_join :: "'z proc_st_scheme \<Rightarrow> (int \<times> 'z proc_st_scheme) res" where
  "sys_thread_join s =
     with_arg (argint 0 s) s (\<lambda>th.
     with_arg (argint 1 s) s (\<lambda>rv. thread_join (sint th) rv s))"

section \<open>Calls that may end in the scheduler\<close>

definition returns :: "('a \<times> 's) res \<Rightarrow> ('a option \<times> 's) res" where
  "returns m = bnd m (\<lambda>(r, s). Ok (Some r, s))"

definition gone :: "'s res \<Rightarrow> ('a option \<times> 's) res" where
  "gone m = bnd m (\<lambda>s. Ok (None, s))"

definition sys_exit :: "'z file_st_scheme \<Rightarrow> (int option \<times> 'z file_st_scheme) res" where
  "sys_exit s = gone (exit s)"

definition sys_yield :: "'z proc_st_scheme \<Rightarrow> (int option \<times> 'z proc_st_scheme) res" where
  "sys_yield s = gone (yield s)"

definition sys_thread_exit :: "'z file_st_scheme \<Rightarrow> (int option \<times> 'z file_st_scheme) res" where
  "sys_thread_exit s =
     bnd (argint 0 s) (\<lambda>r.
     case r of None \<Rightarrow> Ok (Some (-1), s) | Some rv \<Rightarrow> gone (thread_exit rv s))"

definition with_ptr :: "int \<Rightarrow> 'z proc_st_scheme \<Rightarrow> (u32 \<Rightarrow> (int option \<times> 'z proc_st_scheme) res) \<Rightarrow>
    (int option \<times> 'z proc_st_scheme) res" where
  "with_ptr n s f =
     bnd (argptr 0 n s) (\<lambda>r. case r of None \<Rightarrow> Ok (Some (-1), s) | Some x \<Rightarrow> f x)"

definition sys_xem_init :: "'z sem_st_scheme \<Rightarrow> (int option \<times> 'z sem_st_scheme) res" where
  "sys_xem_init s = with_ptr (uint XEM_SIZE) s (\<lambda>x. returns (xem_init x s))"

definition sys_xem_wait :: "'z sem_st_scheme \<Rightarrow> (int option \<times> 'z sem_st_scheme) res" where
  "sys_xem_wait s =
     with_ptr (uint XEM_SIZE) s (\<lambda>x.
     bnd (xem_wait x s) (\<lambda>(ok, s). Ok (if ok then Some 0 else None, s)))"

definition sys_xem_unlock :: "'z sem_st_scheme \<Rightarrow> (int option \<times> 'z sem_st_scheme) res" where
  "sys_xem_unlock s =
     with_ptr (uint XEM_SIZE) s (\<lambda>x. bnd (xem_unlock x s) (\<lambda>s. Ok (Some 0, s)))"

definition sys_rwlock_init :: "'z sem_st_scheme \<Rightarrow> (int option \<times> 'z sem_st_scheme) res" where
  "sys_rwlock_init s = with_ptr (uint RWLOCK_SIZE) s (\<lambda>x. returns (rwlock_init x s))"

definition rw_result :: "(rw_call \<times> 's) res \<Rightarrow> (int option \<times> 's) res" where
  "rw_result m = bnd m (\<lambda>(c, s). Ok (if c = RwDone then Some 0 else None, s))"

definition sys_rwlock_acquire_readlock :: "'z sem_st_scheme \<Rightarrow> (int option \<times> 'z sem_st_scheme) res" where
  "sys_rwlock_acquire_readlock s =
     with_ptr (uint RWLOCK_SIZE) s (\<lambda>x. rw_result (rwlock_acquire_readlock x s))"

definition sys_rwlock_release_readlock :: "'z sem_st_scheme \<Rightarrow> (int option \<times> 'z sem_st_scheme) res" where
  "sys_rwlock_release_readlock s =
     with_ptr (uint RWLOCK_SIZE) s (\<lambda>x. rw_result (rwlock_release_readlock x s))"

definition sys_rwlock_acquire_writelock :: "'z sem_st_scheme \<Rightarrow> (int option \<times> 'z sem_st_scheme) res" where
  "sys_rwlock_acquire_writelock s =
     with_ptr (uint RWLOCK_SIZE) s (\<lambda>x. rw_result (rwlock_acquire_writelock x s))"

definition sys_rwlock_release_writelock :: "'z sem_st_scheme \<Rightarrow> (int option \<times> 'z sem_st_scheme) res" where
  "sys_rwlock_release_writelock s =
     with_ptr (uint RWLOCK_SIZE) s (\<lambda>x. rw_result (rwlock_release_writelock x s))"

section \<open>The dispatcher\<close>

text \<open>The table, in the order of the numbers of \<^verbatim>\<open>syscall.h\<close>; entry 0 is empty.\<close>

definition syscalls :: "'z tick_st_scheme devsw \<Rightarrow>
    ('z tick_st_scheme \<Rightarrow> (int option \<times> 'z tick_st_scheme) res) list" where
  "syscalls dv =
     [\<lambda>s. Panic ''no entry'',
      \<lambda>s. returns (fork s), sys_exit, \<lambda>s. returns (wait s), \<lambda>s. returns (sys_pipe s),
      \<lambda>s. returns (sys_read dv s), \<lambda>s. returns (sys_kill s), \<lambda>s. returns (sys_exec dv s),
      \<lambda>s. returns (sys_fstat s), \<lambda>s. returns (sys_chdir dv s), \<lambda>s. returns (sys_dup s),
      \<lambda>s. returns (sys_getpid s), \<lambda>s. returns (sys_sbrk s), \<lambda>s. returns (sys_sleep s),
      \<lambda>s. returns (sys_uptime s), \<lambda>s. returns (sys_open dv s), \<lambda>s. returns (sys_write dv s),
      \<lambda>s. returns (sys_mknod dv s), \<lambda>s. returns (sys_unlink dv s), \<lambda>s. returns (sys_link dv s),
      \<lambda>s. returns (sys_mkdir dv s), \<lambda>s. returns (sys_close s), sys_yield,
      \<lambda>s. returns (sys_getlev s), \<lambda>s. returns (sys_set_cpu_share s),
      \<lambda>s. returns (sys_thread_create s), sys_thread_exit, \<lambda>s. returns (sys_thread_join s),
      sys_xem_init, sys_xem_wait, sys_xem_unlock, sys_rwlock_init,
      sys_rwlock_acquire_readlock, sys_rwlock_release_readlock,
      sys_rwlock_acquire_writelock, sys_rwlock_release_writelock,
      \<lambda>s. returns (sys_pread dv s), \<lambda>s. returns (sys_pwrite dv s)]"

definition set_eax :: "nat \<Rightarrow> int \<Rightarrow> 'z proc_st_scheme \<Rightarrow> 'z proc_st_scheme" where
  "set_eax c v s = s\<lparr>memory := store32 (memory s) (p_tf (ptable s ! c) + TF_EAX) (word_of_int v)\<rparr>"

text \<open>\<open>syscall\<close>; the flag says whether the process still runs.\<close>

definition syscall :: "'z tick_st_scheme devsw \<Rightarrow> 'z tick_st_scheme \<Rightarrow> (bool \<times> 'z tick_st_scheme) res" where
  "syscall dv s =
     bnd (curproc s) (\<lambda>c.
     let num = sint (load32 (memory s) (p_tf (ptable s ! c) + TF_EAX))
     in if 0 < num \<and> num < int (length (syscalls dv)) then
          bnd ((syscalls dv ! nat num) s) (\<lambda>(r, s).
          case r of Some v \<Rightarrow> Ok (True, set_eax c v s) | None \<Rightarrow> Ok (False, s))
        else Ok (True, set_eax c (-1) s))"

section \<open>Traps\<close>

definition T_SYSCALL :: u32 where "T_SYSCALL = 64"
definition T_IRQ0 :: u32 where "T_IRQ0 = 32"
definition IRQ_TIMER :: u32 where "IRQ_TIMER = 0"
definition IRQ_KBD :: u32 where "IRQ_KBD = 1"
definition IRQ_COM1 :: u32 where "IRQ_COM1 = 4"
definition IRQ_IDE :: u32 where "IRQ_IDE = 14"
definition IRQ_SPURIOUS :: u32 where "IRQ_SPURIOUS = 31"

definition cur_killed :: "'z proc_st_scheme \<Rightarrow> bool" where
  "cur_killed s = (case cur s of None \<Rightarrow> False | Some c \<Rightarrow> p_killed (ptable s ! c))"

definition from_user_space :: "u32 \<Rightarrow> 'z kmem_st_scheme \<Rightarrow> bool" where
  "from_user_space tf s \<longleftrightarrow> load32 (memory s) (tf + TF_CS) AND 3 = DPL_USER"

definition trap_syscall :: "'z tick_st_scheme devsw \<Rightarrow> u32 \<Rightarrow> 'z tick_st_scheme \<Rightarrow> 'z tick_st_scheme res" where
  "trap_syscall dv tf s =
     bnd (curproc s) (\<lambda>c.
     if p_killed (ptable s ! c) then exit s
     else bnd (syscall dv (upd_proc c (\<lambda>p. p\<lparr>p_tf := tf\<rparr>) s)) (\<lambda>(here, s).
          if here \<and> cur_killed s then exit s else Ok s))"

text \<open>The clock: only the first CPU counts.\<close>

definition clock_tick :: "bool \<Rightarrow> 'z tick_st_scheme \<Rightarrow> 'z tick_st_scheme res" where
  "clock_tick cpu0 s = (if cpu0 then wakeup TicksChan (s\<lparr>ticks := ticks s + 1\<rparr>) else Ok s)"

text \<open>
  The \<open>switch\<close> of \<open>trap\<close>.  The handlers of the disk, the keyboard and the serial line are
  given by \<open>dev_intr\<close>, by interrupt number.
\<close>

definition trap_cases :: "(u32 \<Rightarrow> 'z tick_st_scheme \<Rightarrow> 'z tick_st_scheme res) \<Rightarrow> bool \<Rightarrow> u32 \<Rightarrow> u32 \<Rightarrow>
    'z tick_st_scheme \<Rightarrow> 'z tick_st_scheme res" where
  "trap_cases dev_intr cpu0 trapno tf s =
     (if trapno = T_IRQ0 + IRQ_TIMER then clock_tick cpu0 s
      else if trapno = T_IRQ0 + IRQ_IDE \<or> trapno = T_IRQ0 + IRQ_KBD \<or> trapno = T_IRQ0 + IRQ_COM1
      then dev_intr (trapno - T_IRQ0) s
      else if trapno = T_IRQ0 + IRQ_IDE + 1 \<or> trapno = T_IRQ0 + 7 \<or> trapno = T_IRQ0 + IRQ_SPURIOUS
      then Ok s
      else case cur s of None \<Rightarrow> Panic ''trap''
           | Some c \<Rightarrow>
               if load32 (memory s) (tf + TF_CS) AND 3 = 0 then Panic ''trap''
               else Ok (upd_proc c (\<lambda>p. p\<lparr>p_killed := True\<rparr>) s))"

text \<open>
  \<open>trap\<close> up to its end or to the switch in \<open>exit\<close> or \<open>yield\<close>.  When nothing is switched, the
  state is unchanged between the first and the second test of \<open>killed\<close>, which then fails too.
\<close>

definition trap :: "'z tick_st_scheme devsw \<Rightarrow> (u32 \<Rightarrow> 'z tick_st_scheme \<Rightarrow> 'z tick_st_scheme res) \<Rightarrow>
    bool \<Rightarrow> u32 \<Rightarrow> 'z tick_st_scheme \<Rightarrow> 'z tick_st_scheme res" where
  "trap dv dev_intr cpu0 tf s =
     (let trapno = load32 (memory s) (tf + TF_TRAPNO)
      in if trapno = T_SYSCALL then trap_syscall dv tf s
         else bnd (trap_cases dev_intr cpu0 trapno tf s) (\<lambda>s.
              if cur_killed s \<and> from_user_space tf s then exit s
              else if (case cur s of None \<Rightarrow> False | Some c \<Rightarrow> p_state (ptable s ! c) = RUNNING) \<and>
                      trapno = T_IRQ0 + IRQ_TIMER
              then yield s
              else Ok s))"

text \<open>What a process does when it comes back from the \<open>yield\<close> of the clock interrupt.\<close>

definition trap_resume :: "u32 \<Rightarrow> 'z file_st_scheme \<Rightarrow> 'z file_st_scheme res" where
  "trap_resume tf s =
     bnd (release_ptable s) (\<lambda>s.
     if cur_killed s \<and> from_user_space tf s then exit s else Ok s)"

end
