(* ===== verification/Console.thy ===== *)
theory Console
  imports Syscall
begin

text \<open>
  The console (\<^verbatim>\<open>console.c\<close>): number and string formatting, the text screen, and the input line
  buffer between the keyboard interrupt and the readers.  Output is the list of bytes that
  have gone to the serial line, and the contents of the screen memory with the cursor
  position.  The lock of the console is held across each of these routines and is elided.
\<close>

section \<open>Formatting\<close>

definition digits :: "byte list" where
  "digits = map (\<lambda>d. if d < 10 then 48 + of_nat d else 87 + of_nat d) [0..<16]"

text \<open>The \<open>do ... while\<close> loop: the digits, the least significant first, from a table of characters (a base below 2 does not occur).\<close>

function digit_loop :: "byte list \<Rightarrow> nat \<Rightarrow> nat \<Rightarrow> byte list" where
  "digit_loop tab base x =
     (if base < 2 then [] else
      tab ! (x mod base) # (if x div base \<noteq> 0 then digit_loop tab base (x div base) else []))"
  by pat_completeness auto
termination
  by (relation "measure (snd \<circ> snd)") (auto intro!: div_less_dividend intro: gr0I)

declare digit_loop.simps [simp del]

definition printint :: "u32 \<Rightarrow> nat \<Rightarrow> bool \<Rightarrow> byte list" where
  "printint xx base sign =
     (let neg = sign \<and> sint xx < 0;
          x = (if neg then - xx else xx);
          buf = digit_loop digits base (unat x)
      in rev (if neg then buf @ [45] else buf))"

text \<open>An argument of \<open>cprintf\<close>: a word, or a string (\<open>None\<close> is the null pointer).\<close>

datatype fmt_arg = Num u32 | Str "byte list option"

definition null_text :: "byte list" where
  "null_text = [0x28, 0x6e, 0x75, 0x6c, 0x6c, 0x29]"

text \<open>The characters that \<open>cprintf\<close> puts out; a missing argument, or one of the wrong kind, is not defined.\<close>

fun cprintf :: "byte list \<Rightarrow> fmt_arg list \<Rightarrow> byte list res" where
  "cprintf [] args = Ok []"
| "cprintf (c # fmt) args =
     (if c = 0 then Ok []
      else if c \<noteq> 37 then bnd (cprintf fmt args) (\<lambda>out. Ok (c # out))
      else case fmt of [] \<Rightarrow> Ok []
        | f # fmt' \<Rightarrow>
            if f = 0 then Ok []
            else if f = 100 then
              (case args of Num v # as \<Rightarrow> bnd (cprintf fmt' as) (\<lambda>out. Ok (printint v 10 True @ out))
               | _ \<Rightarrow> Fault ''cprintf'')
            else if f = 120 \<or> f = 112 then
              (case args of Num v # as \<Rightarrow> bnd (cprintf fmt' as) (\<lambda>out. Ok (printint v 16 False @ out))
               | _ \<Rightarrow> Fault ''cprintf'')
            else if f = 115 then
              (case args of Str t # as \<Rightarrow>
                 bnd (cprintf fmt' as) (\<lambda>out. Ok ((case t of None \<Rightarrow> null_text | Some x \<Rightarrow> x) @ out))
               | _ \<Rightarrow> Fault ''cprintf'')
            else if f = 37 then bnd (cprintf fmt' args) (\<lambda>out. Ok (37 # out))
            else bnd (cprintf fmt' args) (\<lambda>out. Ok (37 # f # out)))"

section \<open>The screen\<close>

definition BACKSPACE :: int where "BACKSPACE = 0x100"

record cga =
  crt :: "16 word list"
  cga_pos :: int

definition cga_put :: "int \<Rightarrow> cga \<Rightarrow> cga" where
  "cga_put c g =
     (let pos = cga_pos g
      in if c = 10 then g\<lparr>cga_pos := pos + (80 - pos mod 80)\<rparr>
         else if c = BACKSPACE then g\<lparr>cga_pos := (if pos > 0 then pos - 1 else pos)\<rparr>
         else g\<lparr>crt := (crt g)[nat pos := (word_of_int c AND 0xff) OR 0x0700], cga_pos := pos + 1\<rparr>)"

text \<open>Row 0 goes, the next 23 move up, and the rest of the 24 rows is cleared.\<close>

definition cga_scroll :: "cga \<Rightarrow> cga" where
  "cga_scroll g =
     (let m = splice (crt g) 0 (slice (crt g) 80 (23 * 80)); pos = cga_pos g - 80
      in g\<lparr>crt := splice m (nat pos) (replicate (nat (24 * 80 - pos)) 0), cga_pos := pos\<rparr>)"

definition cgaputc :: "int \<Rightarrow> cga \<Rightarrow> cga res" where
  "cgaputc c g =
     (let g = cga_put c g
      in if cga_pos g < 0 \<or> cga_pos g > 25 * 80 then Panic ''pos under/overflow''
         else let g = (if cga_pos g div 80 \<ge> 24 then cga_scroll g else g)
              in Ok (g\<lparr>crt := (crt g)[nat (cga_pos g) := 0x20 OR 0x0700]\<rparr>))"

section \<open>Output and input\<close>

definition INPUT_BUF :: nat where "INPUT_BUF = 128"

record input =
  in_buf :: "byte list"
  in_r :: u32
  in_w :: u32
  in_e :: u32

record cons_st = tick_st +
  panicked :: bool
  uart_out :: "byte list"
  cga_st :: cga
  input_st :: input

definition uartputc :: "byte \<Rightarrow> 'z cons_st_scheme \<Rightarrow> 'z cons_st_scheme" where
  "uartputc c s = s\<lparr>uart_out := uart_out s @ [c]\<rparr>"

definition consputc :: "int \<Rightarrow> 'z cons_st_scheme \<Rightarrow> 'z cons_st_scheme res" where
  "consputc c s =
     (if panicked s then Spins
      else let s = (if c = BACKSPACE then uartputc 8 (uartputc 32 (uartputc 8 s))
                    else uartputc (word_of_int c) s)
           in bnd (cgaputc c (cga_st s)) (\<lambda>g. Ok (s\<lparr>cga_st := g\<rparr>)))"

definition consputs :: "byte list \<Rightarrow> 'z cons_st_scheme \<Rightarrow> 'z cons_st_scheme res" where
  "consputs bs = for_each bs (\<lambda>b. consputc (uint b))"

definition ctrl :: "byte \<Rightarrow> int" where "ctrl x = uint x - 64"

text \<open>The buffer at an index, and the erasure of the last character of the line.\<close>

definition in_at :: "input \<Rightarrow> u32 \<Rightarrow> byte" where
  "in_at x k = in_buf x ! (unat k mod INPUT_BUF)"

definition erase :: "'z cons_st_scheme \<Rightarrow> 'z cons_st_scheme res" where
  "erase s = consputc BACKSPACE (s\<lparr>input_st := (input_st s)\<lparr>in_e := in_e (input_st s) - 1\<rparr>\<rparr>)"

text \<open>The loop of \<open>C('U')\<close>; the first argument is the number of characters of the line.\<close>

fun kill_line :: "nat \<Rightarrow> 'z cons_st_scheme \<Rightarrow> 'z cons_st_scheme res" where
  "kill_line 0 s = Ok s"
| "kill_line (Suc k) s =
     (if in_at (input_st s) (in_e (input_st s) - 1) \<noteq> 10 then bnd (erase s) (kill_line k) else Ok s)"

definition put_input :: "byte \<Rightarrow> input \<Rightarrow> input" where
  "put_input c x = x\<lparr>in_buf := (in_buf x)[unat (in_e x) mod INPUT_BUF := c], in_e := in_e x + 1\<rparr>"

text \<open>
  One character of \<open>consoleintr\<close>; the flag is \<open>doprocdump\<close>.  A process listing is printed after
  the last character.
\<close>

definition consoleintr_char :: "int \<Rightarrow> 'z cons_st_scheme \<Rightarrow> (bool \<times> 'z cons_st_scheme) res" where
  "consoleintr_char c s =
     (let x = input_st s
      in if c = ctrl 0x50 then Ok (True, s)
         else if c = ctrl 0x55 then bnd (kill_line (unat (in_e x - in_w x)) s) (\<lambda>s. Ok (False, s))
         else if c = ctrl 0x48 \<or> c = 0x7f then
           if in_e x \<noteq> in_w x then bnd (erase s) (\<lambda>s. Ok (False, s)) else Ok (False, s)
         else if c \<noteq> 0 \<and> in_e x - in_r x < of_nat INPUT_BUF then
           let c = (if c = 13 then 10 else c);
               x = put_input (word_of_int c) x
           in bnd (consputc c (s\<lparr>input_st := x\<rparr>)) (\<lambda>s.
              if c = 10 \<or> c = ctrl 0x44 \<or> in_e x = in_r x + of_nat INPUT_BUF then
                bnd (wakeup InputChan (s\<lparr>input_st := x\<lparr>in_w := in_e x\<rparr>\<rparr>)) (\<lambda>s. Ok (False, s))
              else Ok (False, s))
         else Ok (False, s))"

text \<open>\<open>getc\<close> is given by the characters it delivers before it has none.\<close>

fun consoleintr :: "int list \<Rightarrow> 'z cons_st_scheme \<Rightarrow> (bool \<times> 'z cons_st_scheme) res" where
  "consoleintr [] s = Ok (False, s)"
| "consoleintr (c # cs) s =
     bnd (consoleintr_char c s) (\<lambda>(d, s). bnd (consoleintr cs s) (\<lambda>(d', s). Ok (d \<or> d', s)))"

text \<open>
  \<open>consoleread\<close> when it has \<open>n\<close> of \<open>target\<close> bytes to go: the bytes read, and whether it has to
  sleep for more.
\<close>

fun consoleread_loop :: "nat \<Rightarrow> nat \<Rightarrow> input \<Rightarrow> (byte list \<times> bool) \<times> input" where
  "consoleread_loop target 0 x = (([], False), x)"
| "consoleread_loop target (Suc n) x =
     (if in_r x = in_w x then (([], True), x)
      else let c = in_at x (in_r x); x' = x\<lparr>in_r := in_r x + 1\<rparr>
           in if uint c = ctrl 0x44 then (([], False), if Suc n < target then x else x')
              else if c = 10 then (([c], False), x')
              else let ((bs, w), x'') = consoleread_loop target n x' in ((c # bs, w), x''))"

text \<open>
  The call: it sleeps with what it has read so far kept by the process, so that only a call
  that finds a line, a full buffer or the end of file returns.
\<close>

definition consoleread :: "nat \<Rightarrow> nat \<Rightarrow> 'z cons_st_scheme \<Rightarrow> ((int \<times> byte list) \<times> 'z cons_st_scheme) res" where
  "consoleread ip n s =
     bnd (iunlock (Some ip) s) (\<lambda>s.
     let ((bs, waits), x) = consoleread_loop n n (input_st s); s = s\<lparr>input_st := x\<rparr>
     in if waits then
          bnd (curproc s) (\<lambda>c.
          if p_killed (ptable s ! c) then bnd (ilock (Some ip) s) (\<lambda>s. Ok ((-1, bs), s))
          else Sleeps InputChan)
        else bnd (ilock (Some ip) s) (\<lambda>s. Ok ((int (length bs), bs), s)))"

definition consolewrite :: "nat \<Rightarrow> byte list \<Rightarrow> 'z cons_st_scheme \<Rightarrow> (int \<times> 'z cons_st_scheme) res" where
  "consolewrite ip bs s =
     bnd (iunlock (Some ip) s) (\<lambda>s.
     bnd (consputs bs s) (\<lambda>s.
     bnd (ilock (Some ip) s) (\<lambda>s. Ok (int (length bs), s))))"

definition CONSOLE :: int where "CONSOLE = 1"

text \<open>The device switch that \<open>consoleinit\<close> sets up.\<close>

definition consoleinit :: "'z cons_st_scheme devsw" where
  "consoleinit = (\<lambda>major. if major = CONSOLE then (Some consoleread, Some consolewrite) else (None, None))"

end
