(* ===== verification/Ulib.thy ===== *)
theory Ulib
  imports Console
begin

text \<open>
  The user library: \<^verbatim>\<open>ulib.c\<close> and \<^verbatim>\<open>printf.c\<close>, and the pattern matcher of \<^verbatim>\<open>grep.c\<close>.  Strings are byte lists
  without the terminator; what is written to a file descriptor is the list of bytes.
\<close>

section \<open>Strings and numbers\<close>

fun strcmp :: "byte list \<Rightarrow> byte list \<Rightarrow> int" where
  "strcmp (p # ps) (q # qs) = (if p = q then strcmp ps qs else uint p - uint q)"
| "strcmp ps qs = uint (hd0 ps) - uint (hd0 qs)"

text \<open>\<open>strchr\<close> gives the index of the character.\<close>

definition strchr :: "byte list \<Rightarrow> byte \<Rightarrow> nat option" where
  "strchr s c = find_idx (\<lambda>x. x = c) s"

text \<open>\<open>gets\<close> on the characters that the successive reads deliver.\<close>

fun gets_loop :: "nat \<Rightarrow> byte list \<Rightarrow> byte list" where
  "gets_loop (Suc n) (c # cs) = (if c = 10 \<or> c = 13 then [c] else c # gets_loop n cs)"
| "gets_loop n cs = []"

definition gets :: "int \<Rightarrow> byte list \<Rightarrow> byte list" where
  "gets m inp = gets_loop (nat (m - 1)) inp"

fun atoi_loop :: "u32 \<Rightarrow> byte list \<Rightarrow> u32" where
  "atoi_loop n [] = n"
| "atoi_loop n (c # cs) = (if 48 \<le> c \<and> c \<le> 57 then atoi_loop (n * 10 + ucast c - 48) cs else n)"

definition atoi :: "byte list \<Rightarrow> int" where
  "atoi s = sint (atoi_loop 0 s)"

section \<open>Formatted output\<close>

definition digits_u :: "byte list" where
  "digits_u = map (\<lambda>d. if d < 10 then 48 + of_nat d else 55 + of_nat d) [0..<16]"

definition printint_u :: "u32 \<Rightarrow> nat \<Rightarrow> bool \<Rightarrow> byte list" where
  "printint_u xx base sgn' =
     (let neg = (sgn' \<and> sint xx < 0);
          x = (if neg then - xx else xx);
          buf = digit_loop digits_u base (unat x)
      in rev (if neg then buf @ [45] else buf))"

text \<open>\<open>printf\<close>; the flag is its variable \<open>state\<close>.\<close>

fun printf :: "bool \<Rightarrow> byte list \<Rightarrow> fmt_arg list \<Rightarrow> byte list res" where
  "printf st [] args = Ok []"
| "printf st (c # fmt) args =
     (if c = 0 then Ok []
      else if \<not> st then
        if c = 37 then printf True fmt args else bnd (printf False fmt args) (\<lambda>out. Ok (c # out))
      else if c = 100 then
        (case args of Num v # as \<Rightarrow> bnd (printf False fmt as) (\<lambda>out. Ok (printint_u v 10 True @ out))
         | _ \<Rightarrow> Fault ''printf'')
      else if c = 120 \<or> c = 112 then
        (case args of Num v # as \<Rightarrow> bnd (printf False fmt as) (\<lambda>out. Ok (printint_u v 16 False @ out))
         | _ \<Rightarrow> Fault ''printf'')
      else if c = 115 then
        (case args of Str t # as \<Rightarrow>
           bnd (printf False fmt as) (\<lambda>out. Ok ((case t of None \<Rightarrow> null_text | Some x \<Rightarrow> x) @ out))
         | _ \<Rightarrow> Fault ''printf'')
      else if c = 99 then
        (case args of Num v # as \<Rightarrow> bnd (printf False fmt as) (\<lambda>out. Ok (ucast v # out))
         | _ \<Rightarrow> Fault ''printf'')
      else if c = 37 then bnd (printf False fmt args) (\<lambda>out. Ok (37 # out))
      else bnd (printf False fmt args) (\<lambda>out. Ok (37 # c # out)))"

section \<open>The matcher of grep\<close>

definition caret :: byte where "caret = 94"
definition dollar :: byte where "dollar = 36"
definition dot :: byte where "dot = 46"
definition star :: byte where "star = 42"

function (sequential) matchhere :: "byte list \<Rightarrow> byte list \<Rightarrow> bool"
  and matchstar :: "byte \<Rightarrow> byte list \<Rightarrow> byte list \<Rightarrow> bool" where
  "matchhere [] ws = True"
| "matchhere (c # re) ws =
     (if re \<noteq> [] \<and> hd re = star then matchstar c (tl re) ws
      else if c = dollar \<and> re = [] then ws = []
      else if ws \<noteq> [] \<and> (c = dot \<or> c = hd ws) then matchhere re (tl ws)
      else False)"
| "matchstar c re ws =
     (if matchhere re ws then True
      else if ws \<noteq> [] \<and> (hd ws = c \<or> c = dot) then matchstar c re (tl ws)
      else False)"
  by pat_completeness auto
termination
  by (relation "measure (case_sum (\<lambda>(re, ws). 2 * (length re + length ws)) (\<lambda>(c, re, ws). 2 * (length re + length ws) + 1))")
    (auto simp: neq_Nil_conv)

declare matchstar.simps [simp del]

fun match_any :: "byte list \<Rightarrow> byte list \<Rightarrow> bool" where
  "match_any re [] = matchhere re []"
| "match_any re (t # ws) = (if matchhere re (t # ws) then True else match_any re ws)"

definition match :: "byte list \<Rightarrow> byte list \<Rightarrow> bool" where
  "match re ws = (if re \<noteq> [] \<and> hd re = caret then matchhere (tl re) ws else match_any re ws)"

section \<open>Printing and reading numbers\<close>

declare digit_loop.simps [simp del]

definition digit_step :: "u32 \<Rightarrow> byte \<Rightarrow> u32" where
  "digit_step n c = n * 10 + ucast c - 48"

lemma atoi_loop_digits: "\<forall>c\<in>set ds. 48 \<le> c \<and> c \<le> 57 \<Longrightarrow> atoi_loop n ds = foldl digit_step n ds"
  by (induction ds arbitrary: n) (auto simp: digit_step_def)

lemma digit_char:
  assumes "d < 10"
  shows "digits_u ! d = 48 + of_nat d" "48 \<le> digits_u ! d \<and> digits_u ! d \<le> 57" "ucast (digits_u ! d) = (48 + of_nat d :: u32)"
proof -
  have "d \<in> {0, 1, 2, 3, 4, 5, 6, 7, 8, 9}" using assms by auto
  then show "digits_u ! d = 48 + of_nat d" "48 \<le> digits_u ! d \<and> digits_u ! d \<le> 57" "ucast (digits_u ! d) = (48 + of_nat d :: u32)"
    by (auto simp: digits_u_def upt_rec)
qed

lemma digit_loop_value:
  "(\<forall>c\<in>set (digit_loop digits_u 10 x). 48 \<le> c \<and> c \<le> 57) \<and> foldl digit_step 0 (rev (digit_loop digits_u 10 x)) = of_nat x"
proof (induction x rule: less_induct)
  case (less x)
  have d: "x mod 10 < 10" by simp
  have r: "digit_loop digits_u 10 x = digits_u ! (x mod 10) # (if x div 10 \<noteq> 0 then digit_loop digits_u 10 (x div 10) else [])"
    by (subst digit_loop.simps) simp
  have x: "of_nat x = of_nat (x div 10) * 10 + (of_nat (x mod 10) :: u32)"
    by (metis div_mult_mod_eq of_nat_add of_nat_mult of_nat_numeral)
  show ?case
  proof (cases "x div 10 = 0")
    case True
    then have "x < 10" by (simp add: div_eq_0_iff)
    then show ?thesis using True by (simp add: r digit_step_def digit_char(2,3))
  next
    case False
    then have "x div 10 < x" by (intro div_less_dividend) auto
    with less.IH [OF this] False show ?thesis using x by (simp add: r digit_step_def digit_char(2,3) [OF d])
  qed
qed

lemma digit_loop_length: "x < 10 ^ k \<Longrightarrow> 0 < k \<Longrightarrow> length (digit_loop digits_u 10 x) \<le> k"
proof (induction k arbitrary: x)
  case (Suc k)
  have r: "length (digit_loop digits_u 10 x) = Suc (length (if x div 10 \<noteq> 0 then digit_loop digits_u 10 (x div 10) else []))"
    by (subst digit_loop.simps) simp
  show ?case
  proof (cases "x div 10 = 0")
    case False
    then have "0 < k" using Suc.prems by (cases k) auto
    moreover have "x div 10 < 10 ^ k" using Suc.prems(1) by (simp add: less_mult_imp_div_less mult.commute)
    ultimately show ?thesis using Suc.IH [of "x div 10"] by (simp add: r)
  qed (simp add: r)
qed simp

text \<open>
  C20.  Numbers survive printing and reading.  What \<open>printf\<close> prints for \<open>%d\<close> of a number that is not
  negative is read back by \<open>atoi\<close> as that number; for a negative one it is a minus sign followed by the digits of
  its negation, also for the smallest integer; and the digits never overflow the 16-byte buffer.
\<close>

theorem printint_atoi_roundtrip:
  "length (printint_u v 10 True) \<le> 16 \<and>
   (if 0 \<le> sint v then atoi (printint_u v 10 True) = sint v
    else \<exists>ds. printint_u v 10 True = 45 # ds \<and> atoi_loop 0 ds = - v)"
proof -
  have rd: "atoi_loop 0 (rev (digit_loop digits_u 10 (unat w))) = w" for w :: u32
    using digit_loop_value [of "unat w"] atoi_loop_digits [of "rev (digit_loop digits_u 10 (unat w))" 0] by simp
  have len: "length (digit_loop digits_u 10 (unat w)) \<le> 10" for w :: u32
    using unsigned_less [of w, where ?'a = nat] by (intro digit_loop_length) simp_all
  show ?thesis
  proof (cases "0 \<le> sint v")
    case True
    then show ?thesis using len [of v] by (simp add: printint_u_def Let_def atoi_def rd)
  next
    case False
    then show ?thesis using len [of "- v"] rd [of "- v"] by (simp add: printint_u_def Let_def)
  qed
qed

section \<open>What the matcher accepts\<close>

text \<open>
  The meaning of a pattern without a leading \<open>^\<close>: \<open>hits re u rest\<close> says that it matches exactly \<open>u\<close>, where
  \<open>rest\<close> is the text that follows.
\<close>

definition fits :: "byte \<Rightarrow> byte \<Rightarrow> bool" where
  "fits c t \<longleftrightarrow> c = dot \<or> c = t"

inductive hits :: "byte list \<Rightarrow> byte list \<Rightarrow> byte list \<Rightarrow> bool" where
  hit_end: "hits [] [] rest"
| hit_dollar: "hits [dollar] [] []"
| hit_star: "\<forall>t\<in>set us. fits c t \<Longrightarrow> hits re v rest \<Longrightarrow> hits (c # star # re) (us @ v) rest"
| hit_char: "re = [] \<or> hd re \<noteq> star \<Longrightarrow> \<not> (c = dollar \<and> re = []) \<Longrightarrow> fits c t \<Longrightarrow> hits re v rest \<Longrightarrow> hits (c # re) (t # v) rest"

inductive_cases hits_NilE: "hits [] u rest"
inductive_cases hits_ConsE: "hits (c # re) u rest"

lemma hits_Nil: "hits [] u rest \<longleftrightarrow> u = []"
  by (auto elim: hits_NilE intro: hit_end)

lemma hits_star:
  "hits (c # star # re) u rest \<longleftrightarrow> (\<exists>us v. u = us @ v \<and> (\<forall>t\<in>set us. fits c t) \<and> hits re v rest)"
proof
  show "hits (c # star # re) u rest \<Longrightarrow> \<exists>us v. u = us @ v \<and> (\<forall>t\<in>set us. fits c t) \<and> hits re v rest"
    by (erule hits_ConsE) auto
qed (auto intro: hit_star)

lemma hits_char:
  assumes "re = [] \<or> hd re \<noteq> star"
  shows "hits (c # re) u rest \<longleftrightarrow> (if c = dollar \<and> re = [] then u = [] \<and> rest = [] else \<exists>t v. u = t # v \<and> fits c t \<and> hits re v rest)"
  using assms by (auto elim!: hits_ConsE intro: hit_dollar hit_char)

lemma matchstar_unfold:
  "matchstar c re ws \<longleftrightarrow> matchhere re ws \<or> ws \<noteq> [] \<and> fits c (hd ws) \<and> matchstar c re (tl ws)"
  by (subst matchstar.simps) (auto simp: fits_def)

lemma star_split:
  "(\<exists>us v rest. ws = us @ v @ rest \<and> (\<forall>t\<in>set us. fits c t) \<and> hits re v rest) \<longleftrightarrow>
     (\<exists>v rest. ws = v @ rest \<and> hits re v rest) \<or>
     ws \<noteq> [] \<and> fits c (hd ws) \<and> (\<exists>us v rest. tl ws = us @ v @ rest \<and> (\<forall>t\<in>set us. fits c t) \<and> hits re v rest)"
  (is "?L \<longleftrightarrow> ?R")
proof
  assume ?L
  then obtain us v rest where b: "ws = us @ v @ rest" "\<forall>t\<in>set us. fits c t" "hits re v rest" by blast
  show ?R
  proof (cases us)
    case (Cons t us')
    with b have "ws \<noteq> [] \<and> fits c (hd ws)" "tl ws = us' @ v @ rest" "\<forall>t\<in>set us'. fits c t" by auto
    with b(3) show ?R by blast
  qed (use b in auto)
next
  assume ?R
  then show ?L
  proof
    assume "\<exists>v rest. ws = v @ rest \<and> hits re v rest"
    then show ?L by (metis append_Nil empty_iff list.set(1))
  next
    assume "ws \<noteq> [] \<and> fits c (hd ws) \<and> (\<exists>us v rest. tl ws = us @ v @ rest \<and> (\<forall>t\<in>set us. fits c t) \<and> hits re v rest)"
    then obtain us v rest where "ws = (hd ws # us) @ v @ rest" "\<forall>t\<in>set (hd ws # us). fits c t" "hits re v rest"
      by (cases ws) auto
    then show ?L by blast
  qed
qed

lemma match_spec:
  "matchhere re ws \<longleftrightarrow> (\<exists>u rest. ws = u @ rest \<and> hits re u rest)"
  "matchstar c re ws \<longleftrightarrow> (\<exists>us v rest. ws = us @ v @ rest \<and> (\<forall>t\<in>set us. fits c t) \<and> hits re v rest)"
proof (induction re ws and c re ws rule: matchhere_matchstar.induct)
  case (1 ws)
  show ?case by (auto simp: hits_Nil)
next
  case (2 c re ws)
  show ?case
  proof (cases "re \<noteq> [] \<and> hd re = star")
    case True
    then obtain re' where re: "re = star # re'" by (cases re) auto
    have "matchhere (c # re) ws \<longleftrightarrow> (\<exists>us v rest. ws = us @ v @ rest \<and> (\<forall>t\<in>set us. fits c t) \<and> hits re' v rest)"
      using 2(1) [OF True] by (simp add: re)
    then show ?thesis unfolding re hits_star by (metis append.assoc)
  next
    case False
    then have h: "hits (c # re) u rest \<longleftrightarrow> (if c = dollar \<and> re = [] then u = [] \<and> rest = [] else \<exists>t v. u = t # v \<and> fits c t \<and> hits re v rest)" for u rest
      by (intro hits_char) auto
    show ?thesis
    proof (cases "c = dollar \<and> re = []")
      case True
      then have "matchhere (c # re) ws \<longleftrightarrow> ws = []" by simp
      moreover have "(\<exists>u rest. ws = u @ rest \<and> hits (c # re) u rest) \<longleftrightarrow> ws = []"
        unfolding h if_P [OF True] by auto
      ultimately show ?thesis by blast
    next
      case nd: False
      have "matchhere (c # re) ws \<longleftrightarrow> ws \<noteq> [] \<and> fits c (hd ws) \<and> matchhere re (tl ws)"
        using False nd by (auto simp: fits_def)
      also have "\<dots> \<longleftrightarrow> (\<exists>t v rest. ws = t # v @ rest \<and> fits c t \<and> hits re v rest)"
        using 2(2) [OF False nd] by (cases ws) (auto simp: fits_def)
      also have "\<dots> \<longleftrightarrow> (\<exists>u rest. ws = u @ rest \<and> hits (c # re) u rest)"
        unfolding h if_not_P [OF nd] by (metis append_Cons)
      finally show ?thesis .
    qed
  qed
next
  case (3 c re ws)
  show ?case
  proof (cases "matchhere re ws")
    case True
    with 3(1) show ?thesis by (subst matchstar_unfold, subst star_split) blast
  next
    case False
    with 3(1) 3(2) [OF False] show ?thesis by (subst matchstar_unfold, subst star_split) (auto simp: fits_def)
  qed
qed

lemma match_any_spec: "match_any re ws \<longleftrightarrow> (\<exists>pre v. ws = pre @ v \<and> matchhere re v)"
proof (induction ws)
  case (Cons t ws)
  have "(\<exists>pre v. t # ws = pre @ v \<and> matchhere re v) \<longleftrightarrow> matchhere re (t # ws) \<or> (\<exists>pre v. ws = pre @ v \<and> matchhere re v)"
    by (auto simp: Cons_eq_append_conv)
  with Cons.IH show ?case by simp
qed simp

text \<open>
  C18.  The matcher of \<open>grep\<close> decides its patterns.  A pattern that starts with \<open>^\<close> is accepted exactly when the rest of it
  matches a prefix of the line, any other one exactly when it matches somewhere in the line,
  where a match is that of the specification: characters and \<open>.\<close> one by one, \<open>c*\<close> any number of them, \<open>$\<close> at the end.
\<close>

theorem grep_match_correct:
  "match re ws \<longleftrightarrow>
     (if re \<noteq> [] \<and> hd re = caret then \<exists>u rest. ws = u @ rest \<and> hits (tl re) u rest
      else \<exists>pre u rest. ws = pre @ u @ rest \<and> hits re u rest)"
  by (auto simp: match_def match_any_spec match_spec(1))

end
