(* ===== verification/Sh.thy ===== *)
theory Sh
  imports Ulib
begin

text \<open>
  The command parser of the shell (\<^verbatim>\<open>sh.c\<close>).  The line is the list of its bytes before the terminator;
  pointers into it are positions, and the end \<open>es\<close> is its length.  A parsed command is a tree whose words are pairs of
  positions, \<open>(q, eq)\<close>, as \<open>argv\<close> and \<open>eargv\<close> hold them; \<open>nulterminate\<close> then stores a zero at the end of each.
  The nodes are allocated with \<open>malloc\<close>, which is taken to succeed, as the source does.
  \<open>panic\<close> of the shell prints a message and exits.

  The mutually recursive functions count the depth of the recursion down; \<open>parsecmd\<close> starts with a
  depth that is never used up.
\<close>

section \<open>Tokens\<close>

definition MAXARGS :: nat where "MAXARGS = 10"

datatype 'w cmd =
    EXEC "'w list"
  | REDIR "'w cmd" 'w u32 nat
  | PIPE "'w cmd" "'w cmd"
  | LIST "'w cmd" "'w cmd"
  | BACK "'w cmd"

definition whitespace :: "byte list" where "whitespace = [32, 9, 13, 10, 11]"
definition symbols :: "byte list" where "symbols = [60, 124, 62, 38, 59, 40, 41]"

definition at_pos :: "byte list \<Rightarrow> nat \<Rightarrow> byte" where
  "at_pos b s = (if s < length b then b ! s else 0)"

definition is_space :: "byte \<Rightarrow> bool" where "is_space c \<longleftrightarrow> strchr whitespace c \<noteq> None"

definition is_word :: "byte \<Rightarrow> bool" where "is_word c \<longleftrightarrow> strchr whitespace c = None \<and> strchr symbols c = None"

function skip :: "(byte \<Rightarrow> bool) \<Rightarrow> byte list \<Rightarrow> nat \<Rightarrow> nat" where
  "skip P b s = (if s < length b \<and> P (b ! s) then skip P b (s + 1) else s)"
  by pat_completeness auto
termination
  by (relation "measure (\<lambda>(P, b, s). length b - s)") auto

declare skip.simps [simp del]

text \<open>The \<open>switch\<close> of \<open>gettoken\<close>: the token that starts at a position behind white space.\<close>

definition lex :: "byte list \<Rightarrow> nat \<Rightarrow> byte \<times> nat" where
  "lex b s =
     (let c = at_pos b s
      in if c = 0 then (c, s)
         else if c = 124 \<or> c = 40 \<or> c = 41 \<or> c = 59 \<or> c = 38 \<or> c = 60 then (c, s + 1)
         else if c = 62 then (if at_pos b (s + 1) = 62 then (43, s + 2) else (c, s + 1))
         else (97, skip is_word b s))"

definition gettoken :: "byte list \<Rightarrow> nat \<Rightarrow> byte \<times> nat \<times> nat \<times> nat" where
  "gettoken b s =
     (let q = skip is_space b s;
          (ret, eq) = lex b q
      in (ret, q, eq, skip is_space b eq))"

definition peek :: "byte list \<Rightarrow> nat \<Rightarrow> byte list \<Rightarrow> bool \<times> nat" where
  "peek b s toks =
     (let s = skip is_space b s
      in (at_pos b s \<noteq> 0 \<and> strchr toks (at_pos b s) \<noteq> None, s))"

text \<open>What \<open>gettoken\<close> and \<open>peek\<close> do with the position; the loops of the parser end because of it.\<close>

lemma skip_drop: "skip P b s = s + length (takeWhile P (drop s b))"
proof (induction P b s rule: skip.induct)
  case (1 P b s)
  show ?case
  proof (cases "s < length b \<and> P (b ! s)")
    case True
    then have "drop s b = b ! s # drop (s + 1) b" by (simp add: Cons_nth_drop_Suc)
    with True 1 show ?thesis by (simp add: skip.simps [of P b s])
  next
    case False
    then show ?thesis by (cases "s < length b") (auto simp: skip.simps [of P b s] simp flip: Cons_nth_drop_Suc)
  qed
qed

lemma drop_skip: "drop (skip P b s) b = dropWhile P (drop s b)"
  by (simp add: skip_drop dropWhile_eq_drop add.commute)

lemma skip_bounds: "s \<le> skip P b s" "s \<le> length b \<Longrightarrow> skip P b s \<le> length b"
proof -
  show "s \<le> skip P b s" by (simp add: skip_drop)
  have "length (takeWhile P (drop s b)) \<le> length b - s" by (metis length_drop length_takeWhile_le)
  then show "s \<le> length b \<Longrightarrow> skip P b s \<le> length b" by (simp add: skip_drop)
qed

lemma skip_stop: "skip P b s < length b \<Longrightarrow> \<not> P (b ! skip P b s)"
  using hd_dropWhile [of P "drop s b"] by (simp flip: drop_skip add: hd_drop_conv_nth)

lemma at_pos_drop: "at_pos b s = hd0 (drop s b)"
  by (cases "s < length b") (auto simp: at_pos_def hd0_def simp flip: Cons_nth_drop_Suc)

lemma not_space [simp]:
  "\<not> is_space 0" "\<not> is_space 124" "\<not> is_space 40" "\<not> is_space 41" "\<not> is_space 59" "\<not> is_space 38" "\<not> is_space 60" "\<not> is_space 62"
  by (simp_all add: is_space_def strchr_def whitespace_def)

lemma strchr_None: "strchr xs c = None \<longleftrightarrow> c \<notin> set xs"
  by (auto simp: strchr_def find_idx_None)

lemma is_word_iff: "is_word c \<longleftrightarrow> \<not> is_space c \<and> c \<notin> set symbols"
  by (simp add: is_word_def is_space_def strchr_None)

lemma at_pos_in: "at_pos b k \<noteq> 0 \<Longrightarrow> k < length b"
  by (auto simp: at_pos_def split: if_splits)

lemma lex_word:
  assumes "s < length b" "is_word (b ! s)"
  shows "s < skip is_word b s"
proof -
  have "skip is_word b s = skip is_word b (s + 1)" using assms by (simp add: skip.simps [of is_word b s])
  then show ?thesis using skip_bounds(1) [of "s + 1" is_word b] by simp
qed

lemma lex_bounds:
  assumes "lex b s = (ret, e)" "s \<le> length b" "s < length b \<Longrightarrow> \<not> is_space (b ! s)"
  shows "s \<le> e" "e \<le> length b" "ret \<noteq> 0 \<Longrightarrow> s < e"
proof -
  have "s \<le> e \<and> e \<le> length b \<and> (ret \<noteq> 0 \<longrightarrow> s < e)"
  proof (cases "at_pos b s \<in> {0, 124, 40, 41, 59, 38, 60, 62}")
    case True
    then show ?thesis using assms(1,2) at_pos_in [of b s] at_pos_in [of b "s + 1"]
      by (auto simp: lex_def Let_def split: if_splits)
  next
    case False
    then have l: "s < length b" using at_pos_in [of b s] by auto
    with False assms(3) have "is_word (b ! s)" by (auto simp: is_word_iff symbols_def at_pos_def)
    with False assms(1) l show ?thesis
      using lex_word [of s b] skip_bounds(2) [where s = s and P = is_word and b = b] by (auto simp: lex_def)
  qed
  then show "s \<le> e" "e \<le> length b" "ret \<noteq> 0 \<Longrightarrow> s < e" by auto
qed

lemma gettoken_bounds:
  assumes "gettoken b s = (ret, q, eq, s')" "s \<le> length b"
  shows "s \<le> q" "q \<le> eq" "eq \<le> s'" "s' \<le> length b" "ret \<noteq> 0 \<Longrightarrow> q < eq"
proof -
  have e: "q = skip is_space b s" "lex b q = (ret, eq)" "s' = skip is_space b eq"
    using assms(1) by (auto simp: gettoken_def Let_def split: prod.splits)
  have q: "s \<le> q" "q \<le> length b" "q < length b \<Longrightarrow> \<not> is_space (b ! q)"
    unfolding e(1) using skip_bounds [where s = s and P = is_space and b = b] assms(2) skip_stop by auto
  show "s \<le> q" by (rule q)
  show "q \<le> eq" "ret \<noteq> 0 \<Longrightarrow> q < eq" using lex_bounds [OF e(2) q(2,3)] by auto
  show "eq \<le> s'" "s' \<le> length b"
    using e(3) lex_bounds(2) [OF e(2) q(2,3)] skip_bounds [where s = eq and P = is_space and b = b] by auto
qed

lemma peek_bounds:
  assumes "peek b s toks = (found, s')" "s \<le> length b"
  shows "s \<le> s'" "s' \<le> length b" "found \<Longrightarrow> s' < length b" "s' < length b \<Longrightarrow> \<not> is_space (b ! s')"
proof -
  have e: "s' = skip is_space b s" "found = (at_pos b s' \<noteq> 0 \<and> strchr toks (at_pos b s') \<noteq> None)"
    using assms(1) by (auto simp: peek_def Let_def)
  show "s \<le> s'" "s' \<le> length b" using e skip_bounds [where s = s and P = is_space and b = b] assms(2) by auto
  show "found \<Longrightarrow> s' < length b" using e by (auto simp: at_pos_def split: if_splits)
  show "s' < length b \<Longrightarrow> \<not> is_space (b ! s')" unfolding e(1) by (rule skip_stop)
qed

lemma peek_found:
  assumes "peek b s toks = (True, s')"
  shows "s \<le> s'" "s' < length b" "b ! s' \<in> set toks" "skip is_space b s' = s'"
proof -
  have e: "s' = skip is_space b s" "at_pos b s' \<noteq> 0" "strchr toks (at_pos b s') \<noteq> None"
    using assms by (auto simp: peek_def Let_def)
  show "s \<le> s'" using e(1) skip_bounds(1) by simp
  show l: "s' < length b" using e(2) by (rule at_pos_in)
  show "b ! s' \<in> set toks" using e(3) l by (simp add: strchr_None at_pos_def)
  have "\<not> is_space (b ! s')" using skip_stop [of is_space b s] l e(1) by simp
  then show "skip is_space b s' = s'" by (subst skip.simps) simp
qed

lemma peek_token:
  assumes "peek b s toks = (True, s')" "gettoken b s' = (ret, q, eq, s'')"
  shows "s < s''" "s' < s''" "s'' \<le> length b"
proof -
  note p = peek_found [OF assms(1)]
  have "at_pos b s' \<noteq> 0" using assms(1) by (auto simp: peek_def Let_def)
  then have "ret \<noteq> 0" using assms(2) p(4) by (auto simp: gettoken_def lex_def Let_def split: if_splits)
  with gettoken_bounds [OF assms(2)] p show "s < s''" "s' < s''" "s'' \<le> length b" by simp_all
qed

lemma peek_token_less:
  "(True, s1) = peek b s toks \<Longrightarrow> (tok, q, eq, s2) = gettoken b s1 \<Longrightarrow> length b - s2 < length b - s"
  using peek_token [of b s toks s1 tok q eq s2] by simp

lemma redirs_less:
  assumes "(True, s1) = peek b s toks" "(tok, q1, e1, s2) = gettoken b s1" "(t, q, eq, s3) = gettoken b s2"
  shows "length b - s3 < length b - s"
  using peek_token [of b s toks s1 tok q1 e1 s2] gettoken_bounds [of b s2 t q eq s3] assms by simp

lemma gettoken_less: "(tok, q, eq, s') = gettoken b s \<Longrightarrow> tok \<noteq> 0 \<Longrightarrow> s \<le> length b \<Longrightarrow> length b - s' < length b - s"
  using gettoken_bounds [of b s tok q eq s'] by simp

section \<open>The parser\<close>

function parseredirs :: "(nat \<times> nat) cmd \<Rightarrow> byte list \<Rightarrow> nat \<Rightarrow> ((nat \<times> nat) cmd \<times> nat) res" where
  "parseredirs cmd b s =
     (let (more, s1) = peek b s [60, 62]
      in if more then
           let (tok, _, _, s2) = gettoken b s1;
               (t, q, eq, s3) = gettoken b s2
           in if t \<noteq> 97 then Panic ''missing file for redirection''
              else let cmd = (if tok = 60 then REDIR cmd (q, eq) O_RDONLY 0
                              else if tok = 62 \<or> tok = 43 then REDIR cmd (q, eq) (O_WRONLY OR O_CREATE) 1
                              else cmd)
                   in parseredirs cmd b s3
         else Ok (cmd, s1))"
  by pat_completeness auto
termination
  by (relation "measure (\<lambda>(cmd, b, s). length b - s)") (auto intro: redirs_less)

text \<open>\<open>cmd->argv[argc] = q\<close>, where \<open>cmd\<close> is the node at the bottom of the redirections.\<close>

fun add_arg :: "'w \<Rightarrow> 'w cmd \<Rightarrow> 'w cmd" where
  "add_arg w (EXEC ws) = EXEC (ws @ [w])"
| "add_arg w (REDIR c f mode fd) = REDIR (add_arg w c) f mode fd"
| "add_arg w c = c"

function parseargs :: "nat \<Rightarrow> (nat \<times> nat) cmd \<Rightarrow> byte list \<Rightarrow> nat \<Rightarrow> ((nat \<times> nat) cmd \<times> nat) res" where
  "parseargs argc ret b s =
     (let (stop, s1) = peek b s [124, 41, 38, 59]
      in if stop then Ok (ret, s1)
         else let (tok, q, eq, s2) = gettoken b s1
              in if tok = 0 then Ok (ret, s2)
                 else if tok \<noteq> 97 then Panic ''syntax''
                 else if argc + 1 \<ge> MAXARGS then Panic ''too many args''
                 else bnd (parseredirs (add_arg (q, eq) ret) b s2) (\<lambda>(ret, s3). parseargs (argc + 1) ret b s3))"
  by pat_completeness auto
termination
  by (relation "measure (\<lambda>(argc, _). MAXARGS - argc)") auto

function parseback :: "(nat \<times> nat) cmd \<Rightarrow> byte list \<Rightarrow> nat \<Rightarrow> (nat \<times> nat) cmd \<times> nat" where
  "parseback cmd b s =
     (let (more, s1) = peek b s [38]
      in if more then let (_, _, _, s2) = gettoken b s1 in parseback (BACK cmd) b s2
         else (cmd, s1))"
  by pat_completeness auto
termination
  by (relation "measure (\<lambda>(cmd, b, s). length b - s)") (auto intro: peek_token_less)

declare parseredirs.simps [simp del] parseargs.simps [simp del] parseback.simps [simp del]

fun parseline :: "nat \<Rightarrow> byte list \<Rightarrow> nat \<Rightarrow> ((nat \<times> nat) cmd \<times> nat) res"
  and parsepipe :: "nat \<Rightarrow> byte list \<Rightarrow> nat \<Rightarrow> ((nat \<times> nat) cmd \<times> nat) res"
  and parseblock :: "nat \<Rightarrow> byte list \<Rightarrow> nat \<Rightarrow> ((nat \<times> nat) cmd \<times> nat) res"
  and parseexec :: "nat \<Rightarrow> byte list \<Rightarrow> nat \<Rightarrow> ((nat \<times> nat) cmd \<times> nat) res" where
  "parseline 0 b s = Fault ''depth''"
| "parseline (Suc n) b s =
     bnd (parsepipe n b s) (\<lambda>(cmd, s).
     let (cmd, s) = parseback cmd b s;
         (more, s) = peek b s [59]
     in if more then
          let (_, _, _, s) = gettoken b s
          in bnd (parseline n b s) (\<lambda>(right, s). Ok (LIST cmd right, s))
        else Ok (cmd, s))"
| "parsepipe 0 b s = Fault ''depth''"
| "parsepipe (Suc n) b s =
     bnd (parseexec n b s) (\<lambda>(cmd, s).
     let (more, s) = peek b s [124]
     in if more then
          let (_, _, _, s) = gettoken b s
          in bnd (parsepipe n b s) (\<lambda>(right, s). Ok (PIPE cmd right, s))
        else Ok (cmd, s))"
| "parseblock 0 b s = Fault ''depth''"
| "parseblock (Suc n) b s =
     (let (open', s) = peek b s [40]
      in if \<not> open' then Panic ''parseblock''
         else let (_, _, _, s) = gettoken b s
              in bnd (parseline n b s) (\<lambda>(cmd, s).
                 let (close, s) = peek b s [41]
                 in if \<not> close then Panic ''syntax - missing )''
                    else let (_, _, _, s) = gettoken b s
                         in parseredirs cmd b s))"
| "parseexec 0 b s = Fault ''depth''"
| "parseexec (Suc n) b s =
     (let (open', s) = peek b s [40]
      in if open' then parseblock n b s
         else bnd (parseredirs (EXEC []) b s) (\<lambda>(ret, s). parseargs 0 ret b s))"

fun nulterminate :: "(nat \<times> nat) cmd \<Rightarrow> byte list \<Rightarrow> byte list" where
  "nulterminate (EXEC argv) b = fold (\<lambda>(q, eq) b. b[eq := 0]) argv b"
| "nulterminate (REDIR cmd (q, eq) mode fd) b = (nulterminate cmd b)[eq := 0]"
| "nulterminate (PIPE l r) b = nulterminate r (nulterminate l b)"
| "nulterminate (LIST l r) b = nulterminate r (nulterminate l b)"
| "nulterminate (BACK cmd) b = nulterminate cmd b"

text \<open>\<open>parsecmd\<close> gives the tree and the buffer of the line, with its terminator.\<close>

definition parsecmd :: "byte list \<Rightarrow> ((nat \<times> nat) cmd \<times> byte list) res" where
  "parsecmd b =
     bnd (parseline (4 * length b + 4) b 0) (\<lambda>(cmd, s).
     let (_, s) = peek b s []
     in if s \<noteq> length b then Panic ''syntax''
        else Ok (cmd, nulterminate cmd (b @ [0])))"

section \<open>Every line is parsed or refused\<close>

definition tok_ok :: "byte list \<Rightarrow> nat \<times> nat \<Rightarrow> bool" where
  "tok_ok b w \<longleftrightarrow> (case w of (q, eq) \<Rightarrow> q < eq \<and> eq \<le> length b \<and> (\<forall>i. q \<le> i \<and> i < eq \<longrightarrow> is_word (b ! i)) \<and>
     (eq < length b \<longrightarrow> \<not> is_word (b ! eq)))"

text \<open>The result of a parser is a panic, or a tree of words of the line and a position behind the given one.\<close>

definition good :: "byte list \<Rightarrow> nat \<Rightarrow> ((nat \<times> nat) cmd \<times> nat) res \<Rightarrow> bool" where
  "good b s r \<longleftrightarrow> (case r of Ok (c, s') \<Rightarrow> s \<le> s' \<and> s' \<le> length b \<and> (\<forall>w\<in>set_cmd c. tok_ok b w) | Panic m \<Rightarrow> True | _ \<Rightarrow> False)"

lemma good_simps [simp]:
  "good b s (Panic m)" "good b s (Ok (c, s')) \<longleftrightarrow> s \<le> s' \<and> s' \<le> length b \<and> (\<forall>w\<in>set_cmd c. tok_ok b w)"
  by (simp_all add: good_def)

lemma good_bnd:
  assumes "good b s m" "\<And>c t. s \<le> t \<Longrightarrow> t \<le> length b \<Longrightarrow> (\<forall>w\<in>set_cmd c. tok_ok b w) \<Longrightarrow> good b s (f (c, t))"
  shows "good b s (bnd m f)"
  using assms by (cases m) (auto simp: good_def)

lemma good_le: "good b t r \<Longrightarrow> s \<le> t \<Longrightarrow> good b s r"
  by (auto simp: good_def split: res.splits)

lemma skip_all: "s \<le> i \<Longrightarrow> i < skip P b s \<Longrightarrow> P (b ! i)"
proof (induction P b s rule: skip.induct)
  case (1 P b s)
  show ?case
  proof (cases "s < length b \<and> P (b ! s)")
    case True
    with 1 show ?thesis by (cases "i = s") (auto simp: skip.simps [of P b s])
  next
    case False
    with 1(2,3) show ?thesis by (auto simp: skip.simps [of P b s] split: if_splits)
  qed
qed

lemma gettoken_word:
  assumes "gettoken b s = (97, q, eq, s')" "s \<le> length b"
  shows "tok_ok b (q, eq)"
proof -
  have e: "eq = skip is_word b q" using assms(1) by (auto simp: gettoken_def lex_def Let_def split: if_splits)
  have g: "q < eq" "eq \<le> length b" using gettoken_bounds [OF assms] by auto
  show ?thesis using g skip_all [of q _ is_word b] skip_stop [of is_word b q] by (auto simp: tok_ok_def e)
qed

lemma parseredirs_good:
  "s \<le> length b \<Longrightarrow> \<forall>w\<in>set_cmd c. tok_ok b w \<Longrightarrow> good b s (parseredirs c b s)"
proof (induction c b s rule: parseredirs.induct)
  case (1 c b s)
  obtain more s1 where p: "peek b s [60, 62] = (more, s1)" by fastforce
  obtain tok q1 e1 s2 where g1: "gettoken b s1 = (tok, q1, e1, s2)" by (metis prod_cases4)
  obtain t q eq s3 where g2: "gettoken b s2 = (t, q, eq, s3)" by (metis prod_cases4)
  show ?case
  proof (cases "more \<and> t = 97")
    case True
    then have p': "peek b s [60, 62] = (True, s1)" and g2': "gettoken b s2 = (97, q, eq, s3)" using p g2 by auto
    note a = peek_token [OF p' g1]
    have b3: "s2 \<le> s3" "s3 \<le> length b" using gettoken_bounds [OF g2' a(3)] by auto
    have w: "tok_ok b (q, eq)" by (rule gettoken_word [OF g2' a(3)])
    let ?c = "if tok = 60 then REDIR c (q, eq) O_RDONLY 0
              else if tok = 62 \<or> tok = 43 then REDIR c (q, eq) (O_WRONLY OR O_CREATE) 1 else c"
    have "good b s3 (parseredirs ?c b s3)"
      using 1(1) [OF p' [symmetric] refl _ g1 [symmetric] refl refl refl g2' [symmetric] refl refl refl _ refl] 1(3) w b3(2) by auto
    then have "good b s (parseredirs ?c b s3)" using a(1) b3(1) by (rule_tac good_le) auto
    then show ?thesis using p' g1 g2' by (subst parseredirs.simps) simp
  next
    case False
    then show ?thesis using p g1 g2 1(2,3) peek_bounds [OF p 1(2)] by (subst parseredirs.simps) auto
  qed
qed

lemma add_arg_set: "set_cmd (add_arg w c) \<subseteq> insert w (set_cmd c)"
  by (induction w c rule: add_arg.induct) auto

lemma parseargs_good:
  "s \<le> length b \<Longrightarrow> \<forall>w\<in>set_cmd c. tok_ok b w \<Longrightarrow> good b s (parseargs n c b s)"
proof (induction "MAXARGS - n" arbitrary: n c s rule: less_induct)
  case less
  obtain stop s1 where p: "peek b s [124, 41, 38, 59] = (stop, s1)" by fastforce
  obtain tok q eq s2 where g: "gettoken b s1 = (tok, q, eq, s2)" by (metis prod_cases4)
  note pb = peek_bounds [OF p less.prems(1)]
  note gb = gettoken_bounds [OF g pb(2)]
  show ?case
  proof (cases "\<not> stop \<and> tok = 97 \<and> n + 1 < MAXARGS")
    case True
    then have "tok_ok b (q, eq)" using g pb(2) gettoken_word by simp
    then have "good b s2 (parseredirs (add_arg (q, eq) c) b s2)"
      using less.prems(2) gb(4) add_arg_set [of "(q, eq)" c] by (intro parseredirs_good) auto
    moreover have "s \<le> s2" using pb(1) gb(1-3) by simp
    ultimately have r: "good b s (parseredirs (add_arg (q, eq) c) b s2)" by (rule good_le)
    have "good b s (bnd (parseredirs (add_arg (q, eq) c) b s2) (\<lambda>(ret, s3). parseargs (n + 1) ret b s3))"
    proof (rule good_bnd [OF r])
      fix c' t assume t: "s \<le> t" "t \<le> length b" "\<forall>w\<in>set_cmd c'. tok_ok b w"
      have "good b t (parseargs (n + 1) c' b t)" by (rule less.hyps) (use True t in auto)
      with t(1) show "good b s ((\<lambda>(ret, s3). parseargs (n + 1) ret b s3) (c', t))" by (simp add: good_le)
    qed
    then show ?thesis using True p g by (subst parseargs.simps) simp
  next
    case False
    then show ?thesis using p g less.prems pb gb by (subst parseargs.simps) auto
  qed
qed

lemma parseback_bounds:
  "parseback c b s = (c', s') \<Longrightarrow> s \<le> length b \<Longrightarrow> s \<le> s' \<and> s' \<le> length b \<and> set_cmd c' = set_cmd c"
proof (induction "length b - s" arbitrary: c s rule: less_induct)
  case less
  obtain more s1 where p: "peek b s [38] = (more, s1)" by fastforce
  obtain tok q eq s2 where g: "gettoken b s1 = (tok, q, eq, s2)" by (metis prod_cases4)
  show ?case
  proof (cases more)
    case True
    then have "parseback (BACK c) b s2 = (c', s')" using less.prems(1) p g by (simp add: parseback.simps [of c])
    moreover have "s < s2" "s2 \<le> length b" using peek_token [of b s "[38]" s1 tok q eq s2] p g True by auto
    moreover from this have "length b - s2 < length b - s" by simp
    ultimately show ?thesis using less.hyps [of s2 "BACK c"] by simp
  next
    case False
    then show ?thesis using less.prems p peek_bounds [OF p] by (simp add: parseback.simps [of c])
  qed
qed

text \<open>A parser that continues behind a symbol when it finds one.\<close>

lemma good_more:
  assumes "s \<le> t" "t \<le> length b" "\<And>u. t < u \<Longrightarrow> u \<le> length b \<Longrightarrow> good b u (f u)"
    "\<And>u. t \<le> u \<Longrightarrow> u \<le> length b \<Longrightarrow> good b u (g u)"
  shows "good b s (let (more, u) = peek b t toks in if more then let (_, _, _, u) = gettoken b u in f u else g u)"
proof -
  obtain more u where p: "peek b t toks = (more, u)" by fastforce
  obtain tok q eq v where g: "gettoken b u = (tok, q, eq, v)" by (metis prod_cases4)
  show ?thesis
  proof (cases more)
    case True
    then have "t < v" "v \<le> length b" using peek_token [of b t toks u tok q eq v] p g by auto
    then show ?thesis using p g True assms(1) assms(3) [of v] by (auto intro: good_le)
  next
    case False
    then show ?thesis using p peek_bounds [OF p assms(2)] assms(1) assms(4) [of u] by (auto intro: good_le)
  qed
qed

lemma parseexec_good:
  assumes "s \<le> length b" "\<And>t. s \<le> t \<Longrightarrow> t \<le> length b \<Longrightarrow> good b t (parseblock n b t)"
  shows "good b s (parseexec (Suc n) b s)"
proof -
  obtain more u where p: "peek b s [40] = (more, u)" by fastforce
  note u = peek_bounds [OF p assms(1)]
  have "good b u (bnd (parseredirs (EXEC []) b u) (\<lambda>(ret, s). parseargs 0 ret b s))"
    by (rule good_bnd [OF parseredirs_good]) (use u in \<open>auto intro: good_le [OF parseargs_good]\<close>)
  with p u assms(2) [of u] show ?thesis by (auto intro: good_le)
qed

lemma parsepipe_good:
  assumes "good b s (parseexec n b s)" "\<And>t. s < t \<Longrightarrow> t \<le> length b \<Longrightarrow> good b t (parsepipe n b t)"
  shows "good b s (parsepipe (Suc n) b s)"
  unfolding parsepipe.simps
proof (rule good_bnd [OF assms(1)], unfold prod.case, rule good_more)
  fix c t u assume t: "s \<le> t" "\<forall>w\<in>set_cmd c. tok_ok b w" "t < u" "u \<le> length b"
  show "good b u (bnd (parsepipe n b u) (\<lambda>(right, s). Ok (PIPE c right, s)))"
    by (rule good_bnd [OF assms(2)]) (use t in auto)
qed auto

lemma parseline_good:
  assumes "good b s (parsepipe n b s)" "\<And>t. s < t \<Longrightarrow> t \<le> length b \<Longrightarrow> good b t (parseline n b t)"
  shows "good b s (parseline (Suc n) b s)"
  unfolding parseline.simps
proof (rule good_bnd [OF assms(1)], unfold prod.case)
  fix c t assume t: "s \<le> t" "t \<le> length b" "\<forall>w\<in>set_cmd c. tok_ok b w"
  obtain c' t' where k: "parseback c b t = (c', t')" by fastforce
  have t': "t \<le> t'" "t' \<le> length b" "set_cmd c' = set_cmd c" using parseback_bounds [OF k t(2)] by auto
  have "good b s (let (more, u) = peek b t' [59] in if more then let (_, _, _, u) = gettoken b u
      in bnd (parseline n b u) (\<lambda>(right, s). Ok (LIST c' right, s)) else Ok (c', u))"
  proof (rule good_more)
    fix u assume u: "t' < u" "u \<le> length b"
    show "good b u (bnd (parseline n b u) (\<lambda>(right, s). Ok (LIST c' right, s)))"
      by (rule good_bnd [OF assms(2)]) (use t t' u in auto)
  qed (use t t' in auto)
  then show "good b s (let (cmd, s) = parseback c b t; (more, s) = peek b s [59]
      in if more then let (_, _, _, s) = gettoken b s in bnd (parseline n b s) (\<lambda>(right, s). Ok (LIST cmd right, s)) else Ok (cmd, s))"
    by (simp add: k)
qed

lemma not_if: "(if \<not> c then x else y) = (if c then y else x)"
  by simp

lemma parseblock_good:
  assumes "s \<le> length b" "\<And>t. s < t \<Longrightarrow> t \<le> length b \<Longrightarrow> good b t (parseline n b t)"
  shows "good b s (parseblock (Suc n) b s)"
proof -
  have "good b u (bnd (parseline n b u) (\<lambda>(cmd, s). let (close, s) = peek b s [41]
      in if close then let (_, _, _, s) = gettoken b s in parseredirs cmd b s else Panic ''syntax - missing )''))"
    if u: "s < u" "u \<le> length b" for u
  proof (rule good_bnd [OF assms(2) [OF u]], unfold prod.case, rule good_more)
    fix c t v assume "\<forall>w\<in>set_cmd c. tok_ok b w" "t < v" "v \<le> length b"
    then show "good b v (parseredirs c b v)" by (intro parseredirs_good)
  qed auto
  then have "good b s (let (more, u) = peek b s [40] in if more then let (_, _, _, u) = gettoken b u
      in bnd (parseline n b u) (\<lambda>(cmd, s). let (close, s) = peek b s [41]
      in if close then let (_, _, _, s) = gettoken b s in parseredirs cmd b s else Panic ''syntax - missing )'') else Panic ''parseblock'')"
    using assms(1) by (intro good_more) auto
  then show ?thesis unfolding parseblock.simps not_if .
qed

lemma parsers_good:
  "s \<le> length b \<Longrightarrow> 4 * (length b - s) + 4 \<le> n \<Longrightarrow> good b s (parseline n b s)"
  "s \<le> length b \<Longrightarrow> 4 * (length b - s) + 3 \<le> n \<Longrightarrow> good b s (parsepipe n b s)"
  "s \<le> length b \<Longrightarrow> 4 * (length b - s) + 1 \<le> n \<Longrightarrow> good b s (parseblock n b s)"
  "s \<le> length b \<Longrightarrow> 4 * (length b - s) + 2 \<le> n \<Longrightarrow> good b s (parseexec n b s)"
proof (induction n arbitrary: s)
  case (Suc n)
  { case 1 then show ?case by (intro parseline_good Suc.IH) auto }
  { case 2 then show ?case by (intro parsepipe_good Suc.IH) auto }
  { case 3 then show ?case by (intro parseblock_good Suc.IH) auto }
  { case 4 then show ?case by (intro parseexec_good Suc.IH) auto }
qed auto

definition word_text :: "byte list \<Rightarrow> nat \<times> nat \<Rightarrow> byte list" where
  "word_text b w = (case w of (q, eq) \<Rightarrow> take (eq - q) (drop q b))"

definition c_str :: "byte list \<Rightarrow> nat \<Rightarrow> byte list" where
  "c_str b q = takeWhile (\<lambda>c. c \<noteq> 0) (drop q b)"

lemma fold_zero:
  "length (fold (\<lambda>(q, eq) b. b[eq := 0]) ws b) = length b"
  "i < length b \<Longrightarrow> fold (\<lambda>(q, eq) b. b[eq := 0]) ws b ! i = (if \<exists>q. (q, i) \<in> set ws then 0 else b ! i)"
  by (induction ws arbitrary: b) (auto simp: nth_update_if)

lemma nulterminate_nth:
  "length (nulterminate c b) = length b"
  "i < length b \<Longrightarrow> nulterminate c b ! i = (if \<exists>q. (q, i) \<in> set_cmd c then 0 else b ! i)"
proof (induction c b rule: nulterminate.induct)
  case (1 argv b)
  { case 1 show ?case by (simp add: fold_zero) }
  { case 2 then show ?case by (simp add: fold_zero) }
qed (auto simp: nth_update_if)

text \<open>The ends of the words are not inside any word, so that every word is read back as it stands in the line.\<close>

lemma nulterminate_word:
  assumes "\<forall>w\<in>set_cmd c. tok_ok b w" "(q, eq) \<in> set_cmd c" "0 \<notin> set b"
  shows "c_str (nulterminate c (b @ [0])) q = word_text b (q, eq)"
proof -
  let ?n = "nulterminate c (b @ [0])"
  have w: "q < eq" "eq \<le> length b" "\<And>i. q \<le> i \<Longrightarrow> i < eq \<Longrightarrow> is_word (b ! i)" using assms(1,2) by (force simp: tok_ok_def)+
  have e: "?n ! eq = 0" using nulterminate_nth(2) [of eq "b @ [0]" c] w(2) assms(2) by auto
  have i: "?n ! i = b ! i" if "q \<le> i" "i < eq" for i
  proof -
    have "is_word (b ! i)" "i < length b" using w that by auto
    then have "\<nexists>q. (q, i) \<in> set_cmd c" using assms(1) by (fastforce simp: tok_ok_def)
    with \<open>i < length b\<close> show ?thesis by (simp add: nulterminate_nth nth_append)
  qed
  have d: "drop q ?n = word_text b (q, eq) @ 0 # drop (Suc eq) ?n"
  proof -
    have "take (eq - q) (drop q ?n) = word_text b (q, eq)"
      using w i by (intro nth_equalityI) (auto simp: word_text_def nulterminate_nth)
    moreover have "drop (eq - q) (drop q ?n) = 0 # drop (Suc eq) ?n"
      using e w Cons_nth_drop_Suc [of eq ?n] by (simp add: nulterminate_nth(1))
    ultimately show ?thesis using append_take_drop_id [of "eq - q" "drop q ?n"] by metis
  qed
  have "0 \<notin> set (word_text b (q, eq))" using assms(3) by (auto simp: word_text_def dest: in_set_takeD in_set_dropD)
  then have "takeWhile (\<lambda>c. c \<noteq> 0) (word_text b (q, eq) @ 0 # drop (Suc eq) ?n) = word_text b (q, eq)"
    by (subst takeWhile_append2) auto
  then show ?thesis unfolding c_str_def d .
qed

text \<open>
  C19.  The shell parses or refuses every line.  Whatever the line, the parser ends, within the depth of recursion it is
  given, with a syntax error or with a command; in a command every word is a piece of the line that is not empty and has neither
  white space nor symbols, bounded by one of them or the end of the line, and after \<open>nulterminate\<close> the C string at its start is exactly that piece.
\<close>

theorem parsecmd_total:
  assumes "0 \<notin> set b"
  shows "(\<exists>m. parsecmd b = Panic m) \<or>
    (\<exists>c b'. parsecmd b = Ok (c, b') \<and> length b' = length b + 1 \<and>
       (\<forall>(q, eq)\<in>set_cmd c. tok_ok b (q, eq) \<and> c_str b' q = word_text b (q, eq)))"
proof -
  have g: "good b 0 (parseline (4 * length b + 4) b 0)" by (rule parsers_good) auto
  show ?thesis
  proof (cases "parseline (4 * length b + 4) b 0")
    case (Ok r)
    then obtain c s where r: "parseline (4 * length b + 4) b 0 = Ok (c, s)" by (cases r) auto
    obtain f t where p: "peek b s [] = (f, t)" by fastforce
    from r g have "\<forall>w\<in>set_cmd c. tok_ok b w" by simp
    with nulterminate_word [OF this _ assms] r p show ?thesis
      by (cases "t = length b") (auto simp: parsecmd_def nulterminate_nth)
  qed (use g in \<open>auto simp: parsecmd_def good_def\<close>)
qed

lemma parse_sample: "parsecmd [97, 60, 98] = Ok (REDIR (EXEC [(0, 1)]) (2, 3) O_RDONLY 0, [97, 0, 98, 0])"
  by code_simp

theorem parsecmd_total_witness:
  "\<exists>c b'. parsecmd [97, 60, 98] = Ok (c, b') \<and> (2, 3) \<in> set_cmd c \<and> c_str b' 2 = word_text [97, 60, 98] (2, 3)"
  using parsecmd_total [of "[97, 60, 98]"] by (auto simp: parse_sample)

section \<open>Printing and parsing\<close>

text \<open>
  The text of a command.  \<open>prec\<close> is the level of the grammar at which a command is parsed: a simple
  command, a pipeline, a background command, a list.  Parentheses are put around a command of
  a higher level than its place has.
\<close>

fun prec :: "'w cmd \<Rightarrow> nat" where
  "prec (PIPE l r) = 1"
| "prec (BACK c) = 2"
| "prec (LIST l r) = 3"
| "prec c = 0"

definition paren :: "nat \<Rightarrow> 'w cmd \<Rightarrow> byte list \<Rightarrow> byte list" where
  "paren n c x = (if n < prec c then 40 # x @ [41] else x)"

definition show_redir :: "byte list \<times> u32 \<times> nat \<Rightarrow> byte list" where
  "show_redir r = (case r of (f, mode, fd) \<Rightarrow> (if fd = 0 then 60 else 62) # f @ [32])"

primrec show_cmd :: "byte list cmd \<Rightarrow> byte list" where
  "show_cmd (EXEC ws) = concat (map (\<lambda>w. w @ [32]) ws)"
| "show_cmd (REDIR c f mode fd) = paren 0 c (show_cmd c) @ show_redir (f, mode, fd)"
| "show_cmd (PIPE l r) = paren 0 l (show_cmd l) @ 124 # paren (Suc 0) r (show_cmd r)"
| "show_cmd (LIST l r) = paren 2 l (show_cmd l) @ 59 # show_cmd r"
| "show_cmd (BACK c) = paren 2 c (show_cmd c) @ [38]"

definition word_ok :: "byte list \<Rightarrow> bool" where
  "word_ok w \<longleftrightarrow> w \<noteq> [] \<and> (\<forall>c\<in>set w. is_word c \<and> c \<noteq> 0)"

definition redir_ok :: "byte list \<times> u32 \<times> nat \<Rightarrow> bool" where
  "redir_ok r \<longleftrightarrow> (case r of (f, mode, fd) \<Rightarrow> word_ok f \<and> (mode, fd) \<in> {(O_RDONLY, 0), (O_WRONLY OR O_CREATE, 1)})"

primrec cmd_ok :: "byte list cmd \<Rightarrow> bool" where
  "cmd_ok (EXEC ws) \<longleftrightarrow> length ws < MAXARGS \<and> (\<forall>w\<in>set ws. word_ok w)"
| "cmd_ok (REDIR c f mode fd) \<longleftrightarrow> cmd_ok c \<and> redir_ok (f, mode, fd)"
| "cmd_ok (PIPE l r) \<longleftrightarrow> cmd_ok l \<and> cmd_ok r"
| "cmd_ok (LIST l r) \<longleftrightarrow> cmd_ok l \<and> cmd_ok r"
| "cmd_ok (BACK c) \<longleftrightarrow> cmd_ok c"

lemma drop_at: "drop s b = x @ r \<Longrightarrow> drop (s + length x) b = r"
  by (metis add.commute append_eq_conv_conj drop_drop)

lemma drop_at1: "drop s b = c # r \<Longrightarrow> drop (s + 1) b = r"
  using drop_at [of s b "[c]" r] by simp

text \<open>What can follow a piece of text.\<close>

definition starts :: "byte list \<Rightarrow> byte list \<Rightarrow> bool" where
  "starts r cs \<longleftrightarrow> r = [] \<or> hd r \<in> set cs"

lemma skip_none: "drop s b = r \<Longrightarrow> r = [] \<or> \<not> P (hd r) \<Longrightarrow> skip P b s = s"
  by (cases r) (auto simp: skip_drop)

definition plain :: "byte list \<Rightarrow> bool" where
  "plain r \<longleftrightarrow> r = [] \<or> \<not> is_space (hd r) \<and> hd r \<noteq> 0"

lemma peek_plain:
  assumes "drop s b = r" "plain r"
  shows "peek b s toks = (r \<noteq> [] \<and> hd r \<in> set toks, s)"
proof -
  have "skip is_space b s = s" using assms by (intro skip_none) (auto simp: plain_def)
  moreover have "at_pos b s = hd0 r" using assms(1) by (simp add: at_pos_drop)
  ultimately show ?thesis using assms(2) by (cases r) (auto simp: peek_def hd0_def strchr_None plain_def)
qed

lemma gettoken_symbol:
  assumes "drop s b = c # r" "c \<in> {124, 40, 41, 59, 38, 60} \<or> c = 62 \<and> hd0 r \<noteq> 62" "plain r"
  shows "gettoken b s = (c, s, s + 1, s + 1)"
proof -
  have d: "drop (s + 1) b = r" using assms(1) by (rule drop_at1)
  have "skip is_space b s = s" using assms(1,2) by (intro skip_none) auto
  moreover have "skip is_space b (s + 1) = s + 1" using d assms(3) by (intro skip_none) (auto simp: plain_def)
  moreover have "lex b s = (c, s + 1)" using assms(2) unfolding lex_def at_pos_drop d assms(1) by (auto simp: hd0_def)
  ultimately show ?thesis by (simp add: gettoken_def)
qed

lemma word_first: "word_ok w \<Longrightarrow> plain (w @ r) \<and> w \<noteq> [] \<and> hd (w @ r) \<notin> set symbols"
  by (cases w) (auto simp: word_ok_def plain_def is_word_iff)

lemma gettoken_text:
  assumes "drop s b = w @ 32 # r" "word_ok w" "plain r"
  shows "gettoken b s = (97, s, s + length w, s + length w + 1)" "drop (s + length w + 1) b = r"
    "word_text b (s, s + length w) = w"
proof -
  have d: "drop (s + length w) b = 32 # r" using assms(1) by (rule drop_at)
  from drop_at1 [OF this] show d1: "drop (s + length w + 1) b = r" .
  obtain c w' where w: "w = c # w'" using assms(2) by (cases w) (auto simp: word_ok_def)
  have c: "is_word c" "c \<noteq> 0" "\<not> is_space c" "c \<notin> set symbols" using assms(2) by (auto simp: w word_ok_def is_word_iff)
  have "skip is_space b s = s" using assms(1) w c(3) by (intro skip_none) auto
  moreover have "skip is_space b (s + length w) = s + length w + 1"
    using d assms(3) by (cases r) (auto simp: skip_drop plain_def is_space_def strchr_None whitespace_def)
  moreover have "skip is_word b s = s + length w"
  proof -
    have "\<not> is_word 32" by (simp add: is_word_iff is_space_def strchr_None whitespace_def)
    then show ?thesis using assms(1,2) by (simp add: skip_drop word_ok_def takeWhile_append2)
  qed
  moreover have "at_pos b s = c" using assms(1) w by (simp add: at_pos_drop hd0_def)
  ultimately show "gettoken b s = (97, s, s + length w, s + length w + 1)"
    using c by (auto simp: gettoken_def lex_def symbols_def)
  show "word_text b (s, s + length w) = w" using assms(1) by (simp add: word_text_def)
qed

lemma gettoken_end: "drop s b = [] \<Longrightarrow> gettoken b s = (0, s, s, s)"
  using skip_none [of s b "[]" is_space] by (simp add: gettoken_def lex_def at_pos_drop hd0_def)

lemma starts_plain: "starts r cs \<Longrightarrow> set cs \<subseteq> set symbols \<Longrightarrow> plain r"
proof -
  assume a: "starts r cs" "set cs \<subseteq> set symbols"
  have "\<not> is_space c \<and> c \<noteq> 0" if "c \<in> set symbols" for c using that by (auto simp: symbols_def)
  with a show ?thesis by (auto simp: starts_def plain_def)
qed

definition parses :: "byte list \<Rightarrow> ((nat \<times> nat) cmd \<times> nat) res \<Rightarrow> nat \<Rightarrow> byte list cmd \<Rightarrow> bool" where
  "parses b r s c \<longleftrightarrow> (\<exists>t. r = Ok (t, s) \<and> map_cmd (word_text b) t = c)"

abbreviation show_redirs :: "(byte list \<times> u32 \<times> nat) list \<Rightarrow> byte list" where
  "show_redirs rs \<equiv> concat (map show_redir rs)"

abbreviation show_words :: "byte list list \<Rightarrow> byte list" where
  "show_words ws \<equiv> concat (map (\<lambda>w. w @ [32]) ws)"

definition add_redirs :: "('w \<times> u32 \<times> nat) list \<Rightarrow> 'w cmd \<Rightarrow> 'w cmd" where
  "add_redirs rs c = foldl (\<lambda>c (f, mode, fd). REDIR c f mode fd) c rs"

lemma redirs_plain:
  assumes "\<forall>r\<in>set rs. redir_ok r" "plain suf"
  shows "plain (show_redirs rs @ suf)"
  using assms by (cases rs) (auto simp: show_redir_def plain_def split: if_splits)

lemma show_redir_simp: "show_redir (f, mode, fd) = (if fd = 0 then 60 else 62) # f @ [32]"
  by (simp add: show_redir_def)

lemma parseredirs_text:
  assumes "drop s b = show_redirs rs @ suf" "\<forall>r\<in>set rs. redir_ok r" "plain suf" "suf = [] \<or> hd suf \<notin> {60, 62}"
  shows "parses b (parseredirs c b s) (s + length (show_redirs rs)) (add_redirs rs (map_cmd (word_text b) c))"
  using assms
proof (induction rs arbitrary: c s)
  case Nil
  then show ?case using peek_plain [of s b suf "[60, 62]"] by (subst parseredirs.simps) (auto simp: parses_def add_redirs_def)
next
  case (Cons r rs)
  obtain f mode fd where r: "r = (f, mode, fd)" by (cases r) auto
  let ?c = "if fd = 0 then 60 else 62 :: byte" and ?r = "show_redirs rs @ suf"
  have f: "word_ok f" and m: "(mode, fd) = (O_RDONLY, 0) \<or> (mode, fd) = (O_WRONLY OR O_CREATE, 1)"
    using Cons.prems(2) by (auto simp: r redir_ok_def)
  have d: "drop s b = ?c # f @ 32 # ?r" using Cons.prems(1) by (simp add: r show_redir_simp)
  have pr: "plain ?r" using Cons.prems(2,3) by (intro redirs_plain) auto
  have pf: "plain (f @ 32 # ?r)" "hd0 (f @ 32 # ?r) \<noteq> 62"
    using word_first [OF f, of "32 # ?r"] by (cases f; auto simp: hd0_def symbols_def)+
  have p: "peek b s [60, 62] = (True, s)" using peek_plain [OF d, of "[60, 62]"] by (auto simp: plain_def)
  have g1: "gettoken b s = (?c, s, s + 1, s + 1)" using gettoken_symbol [OF d _ pf(1)] pf(2) by auto
  note t = gettoken_text [OF drop_at1 [OF d] f pr]
  let ?w = "(s + 1, s + 1 + length f)"
  have e: "parseredirs c b s = parseredirs (REDIR c ?w mode fd) b (s + 1 + length f + 1)"
    using m by (subst parseredirs.simps) (auto simp: p g1 t(1) simp del: One_nat_def)
  have "parses b (parseredirs (REDIR c ?w mode fd) b (s + 1 + length f + 1)) (s + 1 + length f + 1 + length (show_redirs rs))
      (add_redirs rs (map_cmd (word_text b) (REDIR c ?w mode fd)))"
    by (rule Cons.IH [OF t(2)]) (use Cons.prems(2-4) in auto)
  then show ?case unfolding e by (simp add: r show_redir_simp add_redirs_def t(3) [simplified] add.assoc)
qed

lemma map_add_arg: "map_cmd f (add_arg w c) = add_arg (f w) (map_cmd f c)"
  by (induction w c rule: add_arg.induct) auto

lemma words_plain:
  assumes "\<forall>w\<in>set ws. word_ok w" "plain r"
  shows "plain (show_words ws @ r)" "ws \<noteq> [] \<Longrightarrow> hd (show_words ws @ r) \<notin> set symbols"
  using assms(2) word_first [of "hd ws"] assms(1) by (cases ws; force)+

lemma parseargs_text:
  assumes "drop s b = show_words ws @ show_redirs rs @ suf" "\<forall>w\<in>set ws. word_ok w" "\<forall>r\<in>set rs. redir_ok r"
    "starts suf [124, 41, 38, 59]" "ws \<noteq> [] \<or> rs = []" "n + length ws < MAXARGS"
  shows "parses b (parseargs n c b s) (s + length (show_words ws @ show_redirs rs))
    (add_redirs rs (foldl (\<lambda>c w. add_arg w c) (map_cmd (word_text b) c) ws))"
  using assms
proof (induction ws arbitrary: n c s rs)
  case Nil
  have p: "plain suf" using Nil.prems(4) by (rule starts_plain) (simp add: symbols_def)
  have d: "drop s b = suf" using Nil.prems(1,5) by simp
  then show ?case using Nil.prems(4,5) peek_plain [OF d p, of "[124, 41, 38, 59]"] gettoken_end [of s b]
    by (subst parseargs.simps) (auto simp: parses_def add_redirs_def starts_def)
next
  case (Cons w ws)
  let ?R = "if ws = [] then rs else []" and ?r = "show_words ws @ show_redirs rs @ suf"
  have w: "word_ok w" "\<forall>w\<in>set ws. word_ok w" using Cons.prems(2) by auto
  have ps: "plain suf" using Cons.prems(4) by (rule starts_plain) (simp add: symbols_def)
  have prs: "plain (show_redirs rs @ suf)" using Cons.prems(3) ps by (intro redirs_plain) auto
  have pr: "plain ?r" using words_plain(1) [OF w(2) prs] by simp
  have d: "drop s b = w @ 32 # ?r" using Cons.prems(1) by simp
  note t = gettoken_text [OF d w(1) pr]
  let ?s = "s + length w + 1" and ?c = "add_arg (s, s + length w) c"
  have p: "peek b s [124, 41, 38, 59] = (False, s)"
    using peek_plain [OF d] word_first [OF w(1), of "32 # ?r"] by (auto simp: symbols_def)
  have "parses b (parseredirs ?c b ?s) (?s + length (show_redirs ?R)) (add_redirs ?R (map_cmd (word_text b) ?c))"
  proof (rule parseredirs_text)
    show "drop ?s b = show_redirs ?R @ (if ws = [] then suf else ?r)" using t(2) by simp
    show "plain (if ws = [] then suf else ?r)" using pr ps by simp
    show "(if ws = [] then suf else ?r) = [] \<or> hd (if ws = [] then suf else ?r) \<notin> {60, 62}"
      using Cons.prems(4) words_plain(2) [OF w(2) prs] by (auto simp: starts_def symbols_def)
  qed (use Cons.prems(3) in auto)
  then obtain c' where c': "parseredirs ?c b ?s = Ok (c', ?s + length (show_redirs ?R))"
    "map_cmd (word_text b) c' = add_redirs ?R (add_arg w (map_cmd (word_text b) c))"
    by (auto simp: parses_def map_add_arg t(3))
  let ?Q = "if ws = [] then [] else rs"
  have "parses b (parseargs (n + 1) c' b (?s + length (show_redirs ?R))) (?s + length (show_redirs ?R) + length (show_words ws @ show_redirs ?Q))
      (add_redirs ?Q (foldl (\<lambda>c w. add_arg w c) (map_cmd (word_text b) c') ws))"
  proof (rule Cons.IH)
    show "drop (?s + length (show_redirs ?R)) b = show_words ws @ show_redirs ?Q @ suf"
      using t(2) drop_at [of ?s b "show_redirs rs" suf] by auto
  qed (use Cons.prems(2-6) in auto)
  moreover have "parseargs n c b s = parseargs (n + 1) c' b (?s + length (show_redirs ?R))"
    using Cons.prems(6) by (subst parseargs.simps) (simp add: p t(1) c'(1) del: One_nat_def)
  ultimately show ?case unfolding c'(2) by (auto simp: add_redirs_def add.assoc)
qed

declare length_drop [simp del]

text \<open>The four levels of the grammar: what each function of the parser does with the text of a command.\<close>

definition exec_level :: "byte list \<Rightarrow> byte list cmd \<Rightarrow> bool" where
  "exec_level b c \<longleftrightarrow> (\<forall>s n rs suf. drop s b = paren 0 c (show_cmd c) @ show_redirs rs @ suf \<longrightarrow> (\<forall>r\<in>set rs. redir_ok r) \<longrightarrow>
     starts suf [124, 41, 38, 59] \<longrightarrow> 4 * length (drop s b) + 2 \<le> n \<longrightarrow>
     parses b (parseexec n b s) (s + length (paren 0 c (show_cmd c) @ show_redirs rs)) (add_redirs rs c))"

definition pipe_level :: "byte list \<Rightarrow> byte list cmd \<Rightarrow> bool" where
  "pipe_level b c \<longleftrightarrow> (\<forall>s n suf. drop s b = paren (Suc 0) c (show_cmd c) @ suf \<longrightarrow> starts suf [41, 38, 59] \<longrightarrow>
     4 * length (drop s b) + 3 \<le> n \<longrightarrow> parses b (parsepipe n b s) (s + length (paren (Suc 0) c (show_cmd c))) c)"

definition back_level :: "byte list \<Rightarrow> byte list cmd \<Rightarrow> bool" where
  "back_level b c \<longleftrightarrow> (\<forall>s n k suf. drop s b = paren 2 c (show_cmd c) @ replicate k 38 @ suf \<longrightarrow> starts suf [41, 59] \<longrightarrow>
     4 * length (drop s b) + 3 \<le> n \<longrightarrow>
     parses b (bnd (parsepipe n b s) (\<lambda>(c, s). Ok (parseback c b s))) (s + length (paren 2 c (show_cmd c)) + k) ((BACK ^^ k) c))"

definition line_level :: "byte list \<Rightarrow> byte list cmd \<Rightarrow> bool" where
  "line_level b c \<longleftrightarrow> (\<forall>s n suf. drop s b = show_cmd c @ suf \<longrightarrow> starts suf [41] \<longrightarrow>
     4 * length (drop s b) + 4 \<le> n \<longrightarrow> parses b (parseline n b s) (s + length (show_cmd c)) c)"

lemma exec_levelD:
  assumes "exec_level b c" "drop s b = paren 0 c (show_cmd c) @ suf" "starts suf [124, 41, 38, 59]" "4 * length (drop s b) + 2 \<le> n"
  obtains t where "parseexec n b s = Ok (t, s + length (paren 0 c (show_cmd c)))" "map_cmd (word_text b) t = c"
  using assms(1) [unfolded exec_level_def, rule_format, of s "[]" suf n] assms(2-) by (auto simp: parses_def add_redirs_def)

lemma peek_starts:
  assumes "drop s b = suf" "starts suf cs" "set cs \<subseteq> set symbols"
  shows "peek b s toks = (suf \<noteq> [] \<and> hd suf \<in> set toks, s)"
  using assms by (intro peek_plain starts_plain)

lemma exec_level_EXEC:
  assumes "length ws < MAXARGS" "\<forall>w\<in>set ws. word_ok w"
  shows "exec_level b (EXEC ws)"
  unfolding exec_level_def
proof (intro allI impI)
  fix s n rs suf
  assume a: "drop s b = paren 0 (EXEC ws) (show_cmd (EXEC ws)) @ show_redirs rs @ suf" "\<forall>r\<in>set rs. redir_ok r"
    "starts suf [124, 41, 38, 59]" "4 * length (drop s b) + 2 \<le> n"
  then obtain n' where n: "n = Suc n'" by (cases n) auto
  have d: "drop s b = show_words ws @ show_redirs rs @ suf" using a(1) by (simp add: paren_def)
  have ps: "plain suf" using a(3) by (rule starts_plain) (simp add: symbols_def)
  have prs: "plain (show_redirs rs @ suf)" using a(2) ps by (intro redirs_plain) auto
  have hr: "show_redirs rs @ suf = [] \<or> hd (show_redirs rs @ suf) \<noteq> 40"
    using a(3) by (cases rs) (auto simp: show_redir_def starts_def split: if_splits)
  have p: "peek b s [40] = (False, s)"
    using peek_plain [OF d words_plain(1) [OF assms(2) prs], of "[40]"] words_plain(2) [OF assms(2) prs] hr
    by (cases "ws = []") (auto simp: symbols_def)
  show "parses b (parseexec n b s) (s + length (paren 0 (EXEC ws) (show_cmd (EXEC ws)) @ show_redirs rs)) (add_redirs rs (EXEC ws))"
  proof (cases "ws = []")
    case True
    have h: "suf = [] \<or> hd suf \<notin> {60, 62}" using a(3) by (auto simp: starts_def)
    obtain t where t: "parseredirs (EXEC []) b s = Ok (t, s + length (show_redirs rs))" "map_cmd (word_text b) t = add_redirs rs (EXEC [])"
      using parseredirs_text [of s b rs suf "EXEC []"] d True a(2) ps h by (auto simp: parses_def)
    have "parses b (parseargs 0 t b (s + length (show_redirs rs))) (s + length (show_redirs rs)) (add_redirs rs (EXEC []))"
      using parseargs_text [of "s + length (show_redirs rs)" b "[]" "[]" suf 0 t] drop_at [of s b "show_redirs rs" suf] d True a(3) t(2)
      by (simp add: MAXARGS_def add_redirs_def)
    with True p t(1) show ?thesis by (simp add: n paren_def)
  next
    case False
    have "parses b (parseredirs (EXEC []) b s) s (EXEC [])"
      using parseredirs_text [of s b "[]" "show_words ws @ show_redirs rs @ suf" "EXEC []"] d words_plain [OF assms(2) prs] False
      by (auto simp: add_redirs_def symbols_def)
    moreover have "map_cmd (word_text b) t = EXEC [] \<Longrightarrow> t = EXEC []" for t by (cases t) auto
    ultimately have e: "parseredirs (EXEC []) b s = Ok (EXEC [], s)" by (auto simp: parses_def)
    have "foldl (\<lambda>c w. add_arg w c) (EXEC vs) ws = EXEC (vs @ ws)" for vs by (induction ws arbitrary: vs) auto
    then show ?thesis using parseargs_text [OF d assms(2) a(2,3), of 0 "EXEC []"] False assms(1) p e by (simp add: n paren_def)
  qed
qed

lemma exec_level_REDIR:
  assumes "exec_level b c" "redir_ok (f, mode, fd)"
  shows "exec_level b (REDIR c f mode fd)"
  unfolding exec_level_def
proof (intro allI impI)
  fix s n rs suf
  assume a: "drop s b = paren 0 (REDIR c f mode fd) (show_cmd (REDIR c f mode fd)) @ show_redirs rs @ suf" "\<forall>r\<in>set rs. redir_ok r"
    "starts suf [124, 41, 38, 59]" "4 * length (drop s b) + 2 \<le> n"
  then show "parses b (parseexec n b s) (s + length (paren 0 (REDIR c f mode fd) (show_cmd (REDIR c f mode fd)) @ show_redirs rs))
      (add_redirs rs (REDIR c f mode fd))"
    using assms(1) [unfolded exec_level_def, rule_format, of s "(f, mode, fd) # rs" suf n] assms(2)
    by (auto simp: paren_def [of _ "REDIR c f mode fd"] add_redirs_def add.assoc)
qed

lemma show_plain: "cmd_ok c \<Longrightarrow> plain r \<Longrightarrow> plain (paren n c (show_cmd c) @ r)"
proof (induction c arbitrary: n r)
  case (EXEC ws)
  then show ?case using words_plain(1) [of ws r] by (simp add: paren_def)
next
  case (REDIR c f mode fd)
  have "plain (show_redir (f, mode, fd) @ r)" by (simp add: show_redir_simp plain_def)
  with REDIR show ?case by (simp add: paren_def [of _ "REDIR c f mode fd"])
qed (simp_all add: paren_def [of _ "PIPE _ _"] paren_def [of _ "LIST _ _"] paren_def [of _ "BACK _"] plain_def [of "_ # _"])

text \<open>A command of another level is parsed at this level in parentheses or directly.\<close>

lemma exec_level_paren:
  assumes "line_level b c" "0 < prec c" "cmd_ok c"
  shows "exec_level b c"
  unfolding exec_level_def
proof (intro allI impI)
  fix s n rs suf
  assume a: "drop s b = paren 0 c (show_cmd c) @ show_redirs rs @ suf" "\<forall>r\<in>set rs. redir_ok r"
    "starts suf [124, 41, 38, 59]" "4 * length (drop s b) + 2 \<le> n"
  let ?x = "show_cmd c" and ?r = "show_redirs rs @ suf"
  have d: "drop s b = 40 # ?x @ 41 # ?r" using a(1) assms(2) by (simp add: paren_def)
  note d1 = drop_at1 [OF d]
  note d2 = drop_at [OF d1]
  note d3 = drop_at1 [OF d2]
  obtain n' where n: "n = Suc (Suc n')" "4 * length (drop (s + 1) b) + 4 \<le> n'"
    using a(4) by (cases n; cases "n - 1") (auto simp: d d1 [simplified])
  have ps: "plain suf" using a(3) by (rule starts_plain) (simp add: symbols_def)
  have pr: "plain ?r" using a(2) ps by (intro redirs_plain) auto
  have px: "plain (?x @ 41 # ?r)" using show_plain [OF assms(3), of "41 # ?r" 4] by (cases c) (auto simp: paren_def plain_def [of "_ # _"])
  have p1: "peek b s [40] = (True, s)" using peek_plain [OF d] by (simp add: plain_def)
  have g1: "gettoken b s = (40, s, s + 1, s + 1)" by (rule gettoken_symbol [OF d _ px]) simp
  obtain t where t: "parseline n' b (s + 1) = Ok (t, s + 1 + length ?x)" "map_cmd (word_text b) t = c"
    using assms(1) [unfolded line_level_def, rule_format, OF d1 _ n(2)] by (auto simp: parses_def starts_def)
  have p2: "peek b (s + 1 + length ?x) [41] = (True, s + 1 + length ?x)" using peek_plain [OF d2] by (simp add: plain_def)
  have g2: "gettoken b (s + 1 + length ?x) = (41, s + 1 + length ?x, s + 1 + length ?x + 1, s + 1 + length ?x + 1)"
    by (rule gettoken_symbol [OF d2 _ pr]) simp
  have "parses b (parseredirs t b (s + 1 + length ?x + 1)) (s + 1 + length ?x + 1 + length (show_redirs rs)) (add_redirs rs c)"
    using parseredirs_text [OF d3 a(2) ps, of t] a(3) t(2) by (auto simp: starts_def)
  moreover have "parseexec n b s = parseredirs t b (s + 1 + length ?x + 1)"
    by (simp add: n(1) p1 g1 [simplified] t(1) [simplified] p2 [simplified] g2 [simplified])
  ultimately show "parses b (parseexec n b s) (s + length (paren 0 c ?x @ show_redirs rs)) (add_redirs rs c)"
    using assms(2) by (simp add: paren_def add.assoc)
qed

lemma pipe_level_exec:
  assumes "exec_level b c" "prec c \<noteq> 1"
  shows "pipe_level b c"
  unfolding pipe_level_def
proof (intro allI impI)
  fix s n suf
  have c: "paren (Suc 0) c x = paren 0 c x" for x using assms(2) by (auto simp: paren_def)
  assume a: "drop s b = paren (Suc 0) c (show_cmd c) @ suf" "starts suf [41, 38, 59]" "4 * length (drop s b) + 3 \<le> n"
  note a = a [unfolded c]
  obtain n' where n: "n = Suc n'" "4 * length (drop s b) + 2 \<le> n'" using a(3) by (cases n) auto
  have "starts suf [124, 41, 38, 59]" using a(2) by (auto simp: starts_def)
  from exec_levelD [OF assms(1) a(1) this n(2)]
  obtain t where t: "parseexec n' b s = Ok (t, s + length (paren 0 c (show_cmd c)))" "map_cmd (word_text b) t = c" .
  have "peek b (s + length (paren 0 c (show_cmd c))) [124] = (False, s + length (paren 0 c (show_cmd c)))"
    using peek_starts [OF drop_at [OF a(1)] a(2), of "[124]"] a(2) by (auto simp: symbols_def starts_def)
  then show "parses b (parsepipe n b s) (s + length (paren (Suc 0) c (show_cmd c))) c" using t by (simp add: n c parses_def)
qed

lemma pipe_level_PIPE:
  assumes "exec_level b l" "pipe_level b r" "cmd_ok r"
  shows "pipe_level b (PIPE l r)"
  unfolding pipe_level_def
proof (intro allI impI)
  fix s n suf
  assume a: "drop s b = paren (Suc 0) (PIPE l r) (show_cmd (PIPE l r)) @ suf" "starts suf [41, 38, 59]" "4 * length (drop s b) + 3 \<le> n"
  let ?x = "paren 0 l (show_cmd l)" and ?y = "paren (Suc 0) r (show_cmd r)"
  have d: "drop s b = ?x @ 124 # ?y @ suf" using a(1) by (simp add: paren_def [of _ "PIPE l r"])
  note d1 = drop_at [OF d]
  note d2 = drop_at1 [OF d1]
  obtain n' where n: "n = Suc n'" "4 * length (drop s b) + 2 \<le> n'" "4 * length (drop (s + length ?x + 1) b) + 3 \<le> n'"
    using a(3) by (cases n) (auto simp: d d2 [simplified])
  have "starts (124 # ?y @ suf) [124, 41, 38, 59]" by (simp add: starts_def)
  from exec_levelD [OF assms(1) d this n(2)]
  obtain t where t: "parseexec n' b s = Ok (t, s + length ?x)" "map_cmd (word_text b) t = l" .
  have "plain (?y @ suf)" using a(2) assms(3) by (intro show_plain starts_plain) (auto simp: symbols_def)
  then have g: "gettoken b (s + length ?x) = (124, s + length ?x, s + length ?x + 1, s + length ?x + 1)"
    by (intro gettoken_symbol [OF d1]) auto
  have p: "peek b (s + length ?x) [124] = (True, s + length ?x)" using peek_plain [OF d1] by (simp add: plain_def)
  obtain u where u: "parsepipe n' b (s + length ?x + 1) = Ok (u, s + length ?x + 1 + length ?y)" "map_cmd (word_text b) u = r"
    using assms(2) [unfolded pipe_level_def, rule_format, OF d2 a(2) n(3)] by (auto simp: parses_def)
  show "parses b (parsepipe n b s) (s + length (paren (Suc 0) (PIPE l r) (show_cmd (PIPE l r)))) (PIPE l r)"
    using t u by (simp add: n(1) p g [simplified] parses_def paren_def [of _ "PIPE l r"])
qed

lemma parseback_text:
  assumes "drop s b = replicate k 38 @ suf" "starts suf [41, 59]"
  shows "parseback c b s = ((BACK ^^ k) c, s + k)"
  using assms(1)
proof (induction k arbitrary: c s)
  case 0
  then show ?case using peek_starts [of s b suf "[41, 59]" "[38]"] assms(2) by (subst parseback.simps) (auto simp: starts_def symbols_def)
next
  case (Suc k)
  have d: "drop s b = 38 # replicate k 38 @ suf" using Suc.prems by simp
  have "plain suf" using assms(2) by (rule starts_plain) (simp add: symbols_def)
  then have "plain (replicate k 38 @ suf)" by (cases k) (auto simp: plain_def)
  then have g: "gettoken b s = (38, s, s + 1, s + 1)" by (intro gettoken_symbol [OF d]) auto
  have p: "peek b s [38] = (True, s)" using peek_plain [OF d] by (simp add: plain_def)
  show ?case using Suc.IH [OF drop_at1 [OF d], of "BACK c"] by (subst parseback.simps) (simp add: p g funpow_swap1)
qed

lemma back_level_pipe:
  assumes "pipe_level b c" "prec c \<noteq> 2"
  shows "back_level b c"
  unfolding back_level_def
proof (intro allI impI)
  fix s n k suf
  have c: "paren 2 c x = paren (Suc 0) c x" for x using assms(2) by (auto simp: paren_def)
  assume a: "drop s b = paren 2 c (show_cmd c) @ replicate k 38 @ suf" "starts suf [41, 59]" "4 * length (drop s b) + 3 \<le> n"
  note a = a [unfolded c]
  have "starts (replicate k 38 @ suf) [41, 38, 59]" using a(2) by (cases k) (auto simp: starts_def)
  then obtain t where t: "parsepipe n b s = Ok (t, s + length (paren (Suc 0) c (show_cmd c)))" "map_cmd (word_text b) t = c"
    using assms(1) [unfolded pipe_level_def, rule_format, OF a(1) _ a(3)] by (auto simp: parses_def)
  have "map_cmd f ((BACK ^^ k) t) = (BACK ^^ k) (map_cmd f t)" for f :: "nat \<times> nat \<Rightarrow> byte list" by (induction k) auto
  then show "parses b (bnd (parsepipe n b s) (\<lambda>(c, s). Ok (parseback c b s))) (s + length (paren 2 c (show_cmd c)) + k) ((BACK ^^ k) c)"
    using t parseback_text [OF drop_at [OF a(1)] a(2), of t] by (simp add: c parses_def)
qed

lemma back_level_BACK:
  assumes "back_level b c"
  shows "back_level b (BACK c)"
  unfolding back_level_def
proof (intro allI impI)
  fix s n k suf
  assume a: "drop s b = paren 2 (BACK c) (show_cmd (BACK c)) @ replicate k 38 @ suf" "starts suf [41, 59]" "4 * length (drop s b) + 3 \<le> n"
  then show "parses b (bnd (parsepipe n b s) (\<lambda>(c, s). Ok (parseback c b s))) (s + length (paren 2 (BACK c) (show_cmd (BACK c))) + k) ((BACK ^^ k) (BACK c))"
    using assms [unfolded back_level_def, rule_format, of s "Suc k" suf n] by (simp add: paren_def [of _ "BACK c"] funpow_swap1)
qed

lemma parseline_front:
  "parseline (Suc n) b s = bnd (bnd (parsepipe n b s) (\<lambda>(c, s). Ok (parseback c b s))) (\<lambda>(cmd, s).
     let (more, s) = peek b s [59]
     in if more then
          let (_, _, _, s) = gettoken b s
          in bnd (parseline n b s) (\<lambda>(right, s). Ok (LIST cmd right, s))
        else Ok (cmd, s))"
  by (cases "parsepipe n b s") (auto split: prod.splits)

lemma back_levelD:
  assumes "back_level b c" "drop s b = paren 2 c (show_cmd c) @ suf" "starts suf [41, 59]" "4 * length (drop s b) + 3 \<le> n"
  obtains t where "bnd (parsepipe n b s) (\<lambda>(c, s). Ok (parseback c b s)) = Ok (t, s + length (paren 2 c (show_cmd c)))" "map_cmd (word_text b) t = c"
  using assms(1) [unfolded back_level_def, rule_format, of s 0 suf n] assms(2-) by (auto simp: parses_def)

lemma line_level_back:
  assumes "back_level b c" "prec c \<noteq> 3"
  shows "line_level b c"
  unfolding line_level_def
proof (intro allI impI)
  fix s n suf
  have c: "show_cmd c = paren 2 c (show_cmd c)" using assms(2) by (cases c) (auto simp: paren_def)
  assume a: "drop s b = show_cmd c @ suf" "starts suf [41]" "4 * length (drop s b) + 4 \<le> n"
  obtain n' where n: "n = Suc n'" "4 * length (drop s b) + 3 \<le> n'" using a(3) by (cases n) auto
  have "starts suf [41, 59]" using a(2) by (auto simp: starts_def)
  from back_levelD [OF assms(1) _ this n(2)] c a(1)
  obtain t where t: "bnd (parsepipe n' b s) (\<lambda>(c, s). Ok (parseback c b s)) = Ok (t, s + length (show_cmd c))" "map_cmd (word_text b) t = c" by metis
  have "peek b (s + length (show_cmd c)) [59] = (False, s + length (show_cmd c))"
    using peek_starts [OF drop_at [OF a(1)] a(2), of "[59]"] a(2) by (auto simp: symbols_def starts_def)
  then show "parses b (parseline n b s) (s + length (show_cmd c)) c" unfolding n(1) parseline_front t(1) using t(2) by (simp add: parses_def)
qed

lemma line_level_LIST:
  assumes "back_level b l" "line_level b r" "cmd_ok r"
  shows "line_level b (LIST l r)"
  unfolding line_level_def
proof (intro allI impI)
  fix s n suf
  assume a: "drop s b = show_cmd (LIST l r) @ suf" "starts suf [41]" "4 * length (drop s b) + 4 \<le> n"
  let ?x = "paren 2 l (show_cmd l)" and ?y = "show_cmd r"
  have d: "drop s b = ?x @ 59 # ?y @ suf" using a(1) by simp
  note d1 = drop_at [OF d]
  note d2 = drop_at1 [OF d1]
  obtain n' where n: "n = Suc n'" "4 * length (drop s b) + 3 \<le> n'" "4 * length (drop (s + length ?x + 1) b) + 4 \<le> n'"
    using a(3) by (cases n) (auto simp: d d2 [simplified])
  have "starts (59 # ?y @ suf) [41, 59]" by (simp add: starts_def)
  from back_levelD [OF assms(1) d this n(2)]
  obtain t where t: "bnd (parsepipe n' b s) (\<lambda>(c, s). Ok (parseback c b s)) = Ok (t, s + length ?x)" "map_cmd (word_text b) t = l" .
  have "plain suf" using a(2) by (rule starts_plain) (simp add: symbols_def)
  then have "plain (?y @ suf)" using show_plain [OF assms(3), of suf 3] by (cases r) (auto simp: paren_def)
  then have g: "gettoken b (s + length ?x) = (59, s + length ?x, s + length ?x + 1, s + length ?x + 1)"
    by (intro gettoken_symbol [OF d1]) auto
  have p: "peek b (s + length ?x) [59] = (True, s + length ?x)" using peek_plain [OF d1] by (simp add: plain_def)
  obtain u where u: "parseline n' b (s + length ?x + 1) = Ok (u, s + length ?x + 1 + length ?y)" "map_cmd (word_text b) u = r"
    using assms(2) [unfolded line_level_def, rule_format, OF d2 a(2) n(3)] by (auto simp: parses_def)
  show "parses b (parseline n b s) (s + length (show_cmd (LIST l r))) (LIST l r)"
    unfolding n(1) parseline_front t(1) using t(2) u by (simp add: p g [simplified] parses_def)
qed

lemma all_levels: "cmd_ok c \<Longrightarrow> exec_level b c \<and> pipe_level b c \<and> back_level b c \<and> line_level b c"
proof (induction c)
  case (EXEC ws)
  then show ?case using exec_level_EXEC [of ws b] pipe_level_exec [of b "EXEC ws"] back_level_pipe [of b "EXEC ws"] line_level_back [of b "EXEC ws"] by simp
next
  case (REDIR c f mode fd)
  then have "exec_level b (REDIR c f mode fd)" by (intro exec_level_REDIR) auto
  then show ?case using pipe_level_exec [of b "REDIR c f mode fd"] back_level_pipe [of b "REDIR c f mode fd"] line_level_back [of b "REDIR c f mode fd"] by simp
next
  case (PIPE l r)
  then have "pipe_level b (PIPE l r)" by (intro pipe_level_PIPE) auto
  then show ?case using PIPE.prems back_level_pipe [of b "PIPE l r"] line_level_back [of b "PIPE l r"] exec_level_paren [of b "PIPE l r"] by simp
next
  case (LIST l r)
  then have "line_level b (LIST l r)" by (intro line_level_LIST) auto
  then show ?case using LIST.prems exec_level_paren [of b "LIST l r"] pipe_level_exec [of b "LIST l r"] back_level_pipe [of b "LIST l r"] by simp
next
  case (BACK c)
  then have "back_level b (BACK c)" by (intro back_level_BACK) auto
  then show ?case using BACK.prems line_level_back [of b "BACK c"] exec_level_paren [of b "BACK c"] pipe_level_exec [of b "BACK c"] by simp
qed

lemma show_no_zero: "cmd_ok c \<Longrightarrow> 0 \<notin> set (show_cmd c)"
  by (induction c) (auto simp: paren_def show_redir_def word_ok_def redir_ok_def)

text \<open>
  C17.  The parser inverts the printer.  A command of at most nine arguments each, whose words have
  neither white space nor symbols, is parsed from its text as itself: after \<open>nulterminate\<close> the C strings at the words of
  the tree are the words of the command.
\<close>

theorem parsecmd_show:
  assumes "cmd_ok c"
  shows "\<exists>t b'. parsecmd (show_cmd c) = Ok (t, b') \<and> map_cmd (\<lambda>(q, eq). c_str b' q) t = c"
proof -
  let ?b = "show_cmd c"
  have l: "line_level ?b c" using all_levels [OF assms] by blast
  obtain t where t: "parseline (4 * length ?b + 4) ?b 0 = Ok (t, length ?b)" "map_cmd (word_text ?b) t = c"
    using l [unfolded line_level_def, rule_format, of 0 "[]" "4 * length ?b + 4"] by (auto simp: parses_def starts_def)
  have p: "peek ?b (length ?b) [] = (False, length ?b)" using peek_plain [of "length ?b" ?b "[]" "[]"] by (simp add: plain_def)
  have "good ?b 0 (parseline (4 * length ?b + 4) ?b 0)" by (rule parsers_good) auto
  then have ok: "\<forall>w\<in>set_cmd t. tok_ok ?b w" using t(1) by simp
  have "map_cmd (\<lambda>(q, eq). c_str (nulterminate t (?b @ [0])) q) t = map_cmd (word_text ?b) t"
    by (rule cmd.map_cong) (use nulterminate_word [OF ok] show_no_zero [OF assms] in auto)
  with t p show ?thesis by (simp add: parsecmd_def)
qed

theorem parsecmd_show_witness:
  "\<exists>t b'. parsecmd [40, 97, 32, 59, 98, 32, 38, 41, 62, 99, 32] = Ok (t, b') \<and>
     map_cmd (\<lambda>(q, eq). c_str b' q) t = REDIR (LIST (EXEC [[97]]) (BACK (EXEC [[98]]))) [99] (O_WRONLY OR O_CREATE) 1"
proof -
  let ?c = "REDIR (LIST (EXEC [[97]]) (BACK (EXEC [[98]]))) [99] (O_WRONLY OR O_CREATE) 1"
  have "cmd_ok ?c" by (simp add: MAXARGS_def word_ok_def redir_ok_def is_word_def strchr_def whitespace_def symbols_def)
  from parsecmd_show [OF this] show ?thesis by (simp add: show_redir_def paren_def)
qed

end
