(* ===== verification/Umalloc.thy ===== *)
theory Umalloc
  imports Kalloc
begin

text \<open>
  The allocator of user programs (\<^verbatim>\<open>umalloc.c\<close>), a circular list of free blocks in the order of their addresses.  A
  block starts with a header of eight bytes, its size is counted in units of eight bytes, and a pointer to a header is its address.
  The state holds the fields of the headers, \<open>freep\<close>, and the size of the process, which
  \<open>sbrk\<close> changes; \<open>base\<close> is the address of the static header.  \<open>sbrk\<close> follows \<open>sys_sbrk\<close> and \<open>growproc\<close>; whether there are
  pages for the new size is its argument \<open>room\<close>.

  The loops follow pointers and are partial functions, of value \<open>None\<close> when they do not end.
\<close>

section \<open>The allocator\<close>

record heap =
  hptr :: "u32 \<Rightarrow> u32"
  hsize :: "u32 \<Rightarrow> u32"
  freep :: u32
  brk :: u32

definition sbrk :: "(u32 \<Rightarrow> bool) \<Rightarrow> u32 \<Rightarrow> heap \<Rightarrow> u32 \<times> heap" where
  "sbrk room n s =
     (let new = brk s + n
      in if sint n > 0 then
           if new \<ge> KERNBASE then (-1, s)
           else if new < brk s then (brk s, s)
           else if room new then (brk s, s\<lparr>brk := new\<rparr>)
           else (-1, s)
         else if sint n < 0 then
           if new \<ge> brk s then (brk s, s)
           else if new = 0 then (-1, s)
           else (brk s, s\<lparr>brk := new\<rparr>)
         else (brk s, s))"

text \<open>The search of \<open>free\<close> for the block \<open>p\<close> after which \<open>bp\<close> belongs.\<close>

partial_function (option) free_find :: "heap \<Rightarrow> u32 \<Rightarrow> u32 \<Rightarrow> u32 option" where
  "free_find s bp p =
     (if bp > p \<and> bp < hptr s p then Some p
      else if p \<ge> hptr s p \<and> (bp > p \<or> bp < hptr s p) then Some p
      else free_find s bp (hptr s p))"

text \<open>The block \<open>bp\<close> is joined with the block after \<open>p\<close>, then \<open>p\<close> with \<open>bp\<close>, where they are adjacent.\<close>

definition join_next :: "u32 \<Rightarrow> u32 \<Rightarrow> heap \<Rightarrow> heap" where
  "join_next bp p s =
     (if bp + 8 * hsize s bp = hptr s p
      then s\<lparr>hsize := (hsize s)(bp := hsize s bp + hsize s (hptr s p)), hptr := (hptr s)(bp := hptr s (hptr s p))\<rparr>
      else s\<lparr>hptr := (hptr s)(bp := hptr s p)\<rparr>)"

definition join_prev :: "u32 \<Rightarrow> u32 \<Rightarrow> heap \<Rightarrow> heap" where
  "join_prev bp p s =
     (if p + 8 * hsize s p = bp
      then s\<lparr>hsize := (hsize s)(p := hsize s p + hsize s bp), hptr := (hptr s)(p := hptr s bp)\<rparr>
      else s\<lparr>hptr := (hptr s)(p := bp)\<rparr>)"

definition free_insert :: "u32 \<Rightarrow> u32 \<Rightarrow> heap \<Rightarrow> heap" where
  "free_insert bp p s = (join_prev bp p (join_next bp p s))\<lparr>freep := p\<rparr>"

definition free :: "u32 \<Rightarrow> heap \<Rightarrow> heap option" where
  "free ap s = (let bp = ap - 8 in map_option (\<lambda>p. free_insert bp p s) (free_find s bp (freep s)))"

definition morecore :: "(u32 \<Rightarrow> bool) \<Rightarrow> u32 \<Rightarrow> heap \<Rightarrow> (u32 \<times> heap) option" where
  "morecore room nu s =
     (let nu = (if nu < 4096 then 4096 else nu);
          (p, s) = sbrk room (nu * 8) s
      in if p = -1 then Some (0, s)
         else let s = s\<lparr>hsize := (hsize s)(p := nu)\<rparr>
              in map_option (\<lambda>s. (freep s, s)) (free (p + 8) s))"

definition take_block :: "u32 \<Rightarrow> u32 \<Rightarrow> u32 \<Rightarrow> heap \<Rightarrow> u32 \<times> heap" where
  "take_block nunits prevp p s =
     (let (p, s) = (if hsize s p = nunits then (p, s\<lparr>hptr := (hptr s)(prevp := hptr s p)\<rparr>)
                    else let k = hsize s p - nunits;
                             s = s\<lparr>hsize := (hsize s)(p := k)\<rparr>;
                             p = p + 8 * k
                         in (p, s\<lparr>hsize := (hsize s)(p := nunits)\<rparr>))
      in (p + 8, s\<lparr>freep := prevp\<rparr>))"

partial_function (option) malloc_loop :: "(u32 \<Rightarrow> bool) \<Rightarrow> u32 \<Rightarrow> u32 \<Rightarrow> u32 \<Rightarrow> heap \<Rightarrow> (u32 \<times> heap) option" where
  "malloc_loop room nunits prevp p s =
     (if hsize s p \<ge> nunits then Some (take_block nunits prevp p s)
      else if p = freep s then
        Option.bind (morecore room nunits s) (\<lambda>(p, s).
        if p = 0 then Some (0, s) else malloc_loop room nunits p (hptr s p) s)
      else malloc_loop room nunits p (hptr s p) s)"

definition units :: "u32 \<Rightarrow> u32" where
  "units nbytes = (nbytes + 8 - 1) div 8 + 1"

definition malloc :: "(u32 \<Rightarrow> bool) \<Rightarrow> u32 \<Rightarrow> u32 \<Rightarrow> heap \<Rightarrow> (u32 \<times> heap) option" where
  "malloc room base nbytes s =
     (let s = (if freep s = 0 then s\<lparr>freep := base, hptr := (hptr s)(base := base), hsize := (hsize s)(base := 0)\<rparr> else s)
      in malloc_loop room (units nbytes) (freep s) (hptr s (freep s)) s)"

section \<open>Blocks and the list of free blocks\<close>

definition end_of :: "heap \<Rightarrow> u32 \<Rightarrow> nat" where
  "end_of s a = unat a + 8 * unat (hsize s a)"

definition sep :: "heap \<Rightarrow> u32 \<Rightarrow> u32 \<Rightarrow> bool" where
  "sep s a b \<longleftrightarrow> end_of s a \<le> unat b \<or> end_of s b \<le> unat a"

text \<open>The blocks of a set lie between the static header and the end of memory and do not overlap.\<close>

definition blocks_ok :: "u32 \<Rightarrow> heap \<Rightarrow> u32 set \<Rightarrow> bool" where
  "blocks_ok base s B \<longleftrightarrow> unat (brk s) < 2 ^ 31 \<and> unat base + 8 \<le> unat (brk s) \<and>
     (\<forall>a\<in>B. hsize s a \<noteq> 0 \<and> unat base + 8 \<le> unat a \<and> end_of s a \<le> unat (brk s)) \<and>
     (\<forall>a\<in>B. \<forall>b\<in>B. a \<noteq> b \<longrightarrow> sep s a b)"

fun path :: "heap \<Rightarrow> u32 \<Rightarrow> u32 list \<Rightarrow> bool" where
  "path s a [] = True"
| "path s a (b # bs) = (hptr s a = b \<and> path s b bs)"

text \<open>\<open>bs\<close> are the free blocks from the static header on, \<open>us\<close> the blocks in use.\<close>

definition heap_ok :: "u32 \<Rightarrow> heap \<Rightarrow> u32 list \<Rightarrow> u32 set \<Rightarrow> bool" where
  "heap_ok base s bs us \<longleftrightarrow> base \<noteq> 0 \<and> hsize s base = 0 \<and> sorted_wrt (<) (base # bs) \<and> path s base (bs @ [base]) \<and>
     set bs \<inter> us = {} \<and> blocks_ok base s (set bs \<union> us)"

lemma blocks_okD:
  assumes "blocks_ok base s B"
  shows "unat (brk s) < 2 ^ 31" "unat base + 8 \<le> unat (brk s)"
    "\<And>a. a \<in> B \<Longrightarrow> hsize s a \<noteq> 0" "\<And>a. a \<in> B \<Longrightarrow> unat base + 8 \<le> unat a" "\<And>a. a \<in> B \<Longrightarrow> end_of s a \<le> unat (brk s)"
    "\<And>a b. a \<in> B \<Longrightarrow> b \<in> B \<Longrightarrow> a \<noteq> b \<Longrightarrow> end_of s a \<le> unat b \<or> end_of s b \<le> unat a"
  using assms by (auto simp: blocks_ok_def sep_def)

lemma blocks_ok_same:
  assumes "blocks_ok base s B" "B' \<subseteq> B" "brk t = brk s" "\<And>a. a \<in> B' \<Longrightarrow> hsize t a = hsize s a"
  shows "blocks_ok base t B'"
proof -
  have e: "a \<in> B' \<Longrightarrow> end_of t a = end_of s a" for a using assms(4) by (simp add: end_of_def)
  show ?thesis unfolding blocks_ok_def
    using blocks_okD [OF assms(1)] assms(2-4) e by (auto simp: sep_def subset_iff)
qed

lemma size_pos: "hsize s a \<noteq> 0 \<Longrightarrow> unat a < end_of s a"
  by (simp add: end_of_def word_neq_0_conv unat_gt_0)

lemma end_after: "blocks_ok base s B \<Longrightarrow> a \<in> B \<Longrightarrow> b \<in> B \<Longrightarrow> a < b \<Longrightarrow> end_of s a \<le> unat b"
  using blocks_okD(6) [of base s B a b] size_pos [of s b] blocks_okD(3) [of base s B b] by (auto simp: word_less_nat_alt)

text \<open>The end of a block as the source computes it.\<close>

lemma end_word: "blocks_ok base s B \<Longrightarrow> a \<in> B \<Longrightarrow> unat (a + 8 * hsize s a) = end_of s a"
proof -
  assume a: "blocks_ok base s B" "a \<in> B"
  then have l: "unat a + 8 * unat (hsize s a) < 2 ^ 32" using blocks_okD(1,5) [OF a(1)] by (fastforce simp: end_of_def)
  then have "unat (8 * hsize s a) = 8 * unat (hsize s a)" by (subst unat_mult_lem [THEN iffD1]) auto
  with l show ?thesis by (simp add: end_of_def unat_add_lem [THEN iffD1])
qed

lemma blocks_merge:
  assumes "blocks_ok base s B" "a \<in> B" "b \<in> B" "a \<noteq> b" "end_of s a = unat b"
    "brk t = brk s" "hsize t = (hsize s)(a := hsize s a + hsize s b)"
  shows "blocks_ok base t (B - {b})"
proof -
  note D = blocks_okD [OF assms(1)]
  have "unat (hsize s a) + unat (hsize s b) < 2 ^ 32" using D(1) D(5) [OF assms(3)] assms(5) by (simp add: end_of_def)
  then have h: "unat (hsize s a + hsize s b) = unat (hsize s a) + unat (hsize s b)" by (simp add: unat_add_lem [THEN iffD1])
  have ea: "end_of t a = end_of s b" using assms(5) h by (simp add: end_of_def assms(7))
  have e: "x \<noteq> a \<Longrightarrow> end_of t x = end_of s x" for x by (simp add: end_of_def assms(7))
  have pos: "unat a < unat b" using size_pos [of s a] D(3) [OF assms(2)] assms(5) by simp
  have sa: "sep t a x" if "x \<in> B - {b}" "x \<noteq> a" for x
    using that D(6) [of a x] D(6) [of b x] assms(2,3,5) e [of x] ea pos size_pos [of s x] D(3) [of x] by (auto simp: sep_def)
  have "sep t x y" if "x \<in> B - {b}" "y \<in> B - {b}" "x \<noteq> y" for x y
    using that sa [of x] sa [of y] D(6) [of x y] e [of x] e [of y] by (cases "x = a"; cases "y = a") (auto simp: sep_def)
  moreover have "hsize t a \<noteq> 0" using h D(3) [OF assms(2)] by (metis assms(7) add_is_0 fun_upd_same unat_0 unat_eq_zero)
  ultimately show ?thesis unfolding blocks_ok_def
    using D(1-5) assms(2,3,6,7) ea e by (metis Diff_iff fun_upd_other)
qed

lemma sep_sym: "sep s a b \<longleftrightarrow> sep s b a"
  by (auto simp: sep_def)

lemma blocks_split:
  assumes "blocks_ok base s B" "a \<in> B" "n < hsize s a" "n \<noteq> 0" "p = a + 8 * (hsize s a - n)"
    "brk t = brk s" "hsize t = (hsize s)(a := hsize s a - n, p := n)"
  shows "p \<notin> B \<and> blocks_ok base t (insert p B)"
proof -
  note D = blocks_okD [OF assms(1)]
  let ?k = "hsize s a - n"
  have k: "unat ?k = unat (hsize s a) - unat n" "0 < unat ?k" "0 < unat n" "unat n < unat (hsize s a)"
    using assms(3,4) by (auto simp: unat_sub word_less_nat_alt order_less_imp_le unat_gt_0)
  have l: "unat a + 8 * unat (hsize s a) < 2 ^ 32" using D(1) D(5) [OF assms(2)] by (simp add: end_of_def)
  then have "unat (8 * ?k) = 8 * unat ?k" using k by (subst unat_mult_lem [THEN iffD1]) auto
  then have p: "unat p = unat a + 8 * unat ?k" using l k by (simp add: assms(5) unat_add_lem [THEN iffD1])
  have pa: "p \<noteq> a" using p k by auto
  have ea: "end_of t a = unat p" "end_of t p = end_of s a" using p k pa by (auto simp: end_of_def assms(7))
  have e: "x \<noteq> a \<Longrightarrow> x \<noteq> p \<Longrightarrow> end_of t x = end_of s x" for x by (simp add: end_of_def assms(7))
  have in_a: "unat a < unat p" "unat p < end_of s a" using p k by (auto simp: end_of_def)
  have pB: "p \<notin> B" using D(6) [OF assms(2), of p] in_a size_pos [of s p] D(3) [of p] pa by fastforce
  have out: "end_of s x \<le> unat a \<or> end_of s a \<le> unat x" if "x \<in> B" "x \<noteq> a" for x using D(6) [OF that(1) assms(2) that(2)] .
  have all_sep: "sep t x y" if "x \<in> insert p B" "y \<in> insert p B" "x \<noteq> y" for x y
  proof -
    have 1: "sep t a p" using ea(1) by (simp add: sep_def)
    have 2: "sep t a z \<and> sep t p z" if "z \<in> B" "z \<noteq> a" for z
    proof -
      have "end_of t z = end_of s z" using that pB by (intro e) auto
      then show ?thesis using out [OF that] in_a ea by (auto simp: sep_def)
    qed
    have 3: "sep t x y" if "x \<in> B - {a}" "y \<in> B - {a}"
      using D(6) [of x y] e [of x] e [of y] that pB \<open>x \<noteq> y\<close> unfolding sep_def by fastforce
    show ?thesis using that 1 2 3 sep_sym by blast
  qed
  have all_in: "hsize t x \<noteq> 0 \<and> unat base + 8 \<le> unat x \<and> end_of t x \<le> unat (brk t)" if "x \<in> insert p B" for x
  proof -
    have "?k \<noteq> 0" using k(2) by (metis less_irrefl unat_0)
    then have "x = a \<or> x = p \<Longrightarrow> ?thesis" using ea in_a D(4,5) [OF assms(2)] assms(4,6,7) pa by auto
    moreover have "x \<noteq> a \<Longrightarrow> x \<noteq> p \<Longrightarrow> ?thesis" using D(3-5) [of x] that e [of x] assms(6,7) by simp
    ultimately show ?thesis by blast
  qed
  have "blocks_ok base t (insert p B)" unfolding blocks_ok_def using all_sep all_in D(1,2) by (simp only: assms(6)) simp
  with pB show ?thesis ..
qed

lemma path_append: "path s a (xs @ y # ys) \<longleftrightarrow> path s a (xs @ [y]) \<and> path s y ys"
  by (induction xs arbitrary: a) auto

lemma path_same: "\<forall>x\<in>set (a # butlast xs). hptr t x = hptr s x \<Longrightarrow> path t a xs = path s a xs"
  by (induction xs arbitrary: a) (auto split: if_splits)

text \<open>The list seen from one of its elements: the rest of it, the beginning, and the element again.\<close>

lemma path_circle:
  assumes "path s base (bs @ [base])" "base # bs = xs @ f # ys"
  shows "path s f (ys @ xs @ [f])"
proof (cases xs)
  case Nil
  then show ?thesis using assms by simp
next
  case (Cons x xs')
  then have "path s base (xs' @ f # ys @ [base])" "x = base" using assms by auto
  then have "path s base (xs' @ [f])" "path s f (ys @ [base])" using path_append [of s base xs' f "ys @ [base]"] by auto
  then show ?thesis using path_append [of s f ys base "xs' @ [f]"] Cons \<open>x = base\<close> by simp
qed

section \<open>Freeing a block\<close>

lemma heap_okD:
  assumes "heap_ok base s bs us"
  shows "base \<noteq> 0" "hsize s base = 0" "sorted_wrt (<) (base # bs)" "path s base (bs @ [base])" "set bs \<inter> us = {}"
    "blocks_ok base s (set bs \<union> us)"
  using assms by (auto simp: heap_ok_def)

lemma ptr_next:
  assumes "heap_ok base s bs us" "base # bs = xs @ a # ys"
  shows "hptr s a = hd (ys @ [base])"
proof -
  have "path s a (ys @ xs @ [a])" using heap_okD(4) [OF assms(1)] assms(2) by (rule path_circle)
  moreover have "xs = [] \<Longrightarrow> a = base" "xs \<noteq> [] \<Longrightarrow> hd xs = base" using assms(2) by (cases xs; simp)+
  ultimately show ?thesis by (cases ys; cases xs) auto
qed

definition stops :: "heap \<Rightarrow> u32 \<Rightarrow> u32 \<Rightarrow> bool" where
  "stops s u p \<longleftrightarrow> u > p \<and> u < hptr s p \<or> p \<ge> hptr s p \<and> (u > p \<or> u < hptr s p)"

text \<open>The search stops at the block before \<open>u\<close> in the order of addresses.\<close>

lemma stops_iff:
  assumes "heap_ok base s bs us" "base # bs = xs @ a # ys" "base < u"
  shows "stops s u a \<longleftrightarrow> a < u \<and> (\<forall>y\<in>set ys. u < y)"
proof -
  have n: "hptr s a = hd (ys @ [base])" by (rule ptr_next [OF assms(1,2)])
  have st: "sorted_wrt (<) (xs @ a # ys)" using heap_okD(3) [OF assms(1)] assms(2) by simp
  have ab: "base \<le> a" using st assms(2) by (cases xs) (auto simp: sorted_wrt_append)
  show ?thesis
  proof (cases ys)
    case Nil
    then show ?thesis using n ab assms(3) by (auto simp: stops_def)
  next
    case (Cons y ys')
    then have "a < y" "\<forall>z\<in>set ys'. y < z" using st by (auto simp: sorted_wrt_append)
    then show ?thesis using n Cons by (auto simp: stops_def)
  qed
qed

lemma free_find_path:
  assumes "path s f ns" "\<exists>a\<in>set (f # ns). stops s u a"
  shows "\<exists>a\<in>set (f # ns). stops s u a \<and> free_find s u f = Some a"
  using assms
proof (induction ns arbitrary: f)
  case Nil
  then show ?case by (subst free_find.simps) (auto simp: stops_def)
next
  case (Cons b ns)
  show ?case
  proof (cases "stops s u f")
    case True
    then show ?thesis by (subst free_find.simps) (auto simp: stops_def)
  next
    case False
    then have "free_find s u f = free_find s u b" using Cons.prems(1) by (subst free_find.simps) (auto simp: stops_def)
    then show ?thesis using Cons.IH [of b] Cons.prems False by auto
  qed
qed

lemma free_find_spec:
  assumes "heap_ok base s bs us" "f \<in> set (base # bs)" "base < u" "u \<notin> set bs"
  obtains xs p ys where "base # bs = xs @ p # ys" "p < u" "\<forall>y\<in>set ys. u < y" "free_find s u f = Some p"
proof -
  obtain xs ys where f: "base # bs = xs @ f # ys" using assms(2) by (meson split_list)
  have path: "path s f (ys @ xs @ [f])" by (rule path_circle [OF heap_okD(4) [OF assms(1)] f])
  have all: "set (f # ys @ xs @ [f]) = set (base # bs)" using f by auto
  have st: "sorted_wrt (<) (base # bs)" by (rule heap_okD(3) [OF assms(1)])
  obtain vs p ws where p: "base # bs = vs @ p # ws" "p < u" "\<forall>y\<in>set ws. \<not> y < u"
    using split_list_last_prop [of "base # bs" "\<lambda>y. y < u"] assms(3) by auto
  have "set ws \<subseteq> set (base # bs)" "p \<in> set (base # bs)" unfolding p(1) by auto
  then have "u \<notin> set ws" using assms(3,4) by auto
  then have "\<forall>y\<in>set ws. u < y" using p(3) by (auto simp: not_less le_less)
  then have "stops s u p" using stops_iff [OF assms(1) p(1) assms(3)] p(2) by blast
  then obtain a where a: "a \<in> set (base # bs)" "stops s u a" "free_find s u f = Some a"
    using free_find_path [OF path, of u] \<open>p \<in> _\<close> unfolding all by blast
  then obtain cs ds where c: "base # bs = cs @ a # ds" by (meson split_list)
  from a(2) have "a < u" "\<forall>y\<in>set ds. u < y" using stops_iff [OF assms(1) c assms(3)] by auto
  then show thesis by (rule that [OF c _ _ a(3)])
qed

lemma path_from:
  assumes "path s p ns" "hptr t u = hptr s p" "\<forall>x\<in>set (butlast ns). hptr t x = hptr s x"
  shows "path t u ns"
  using assms path_same [of "hd ns" "tl ns" t s] by (cases ns) (auto split: if_splits)

text \<open>A block in use becomes free, without being joined with its neighbours.\<close>

lemma heap_insert:
  assumes ok: "heap_ok base s bs us" and u: "u \<in> us" and p: "base # bs = xs @ p # ys" "p < u" "\<forall>y\<in>set ys. u < y"
    and t: "hptr t = (hptr s)(u := hptr s p, p := u)" "hsize t = hsize s" "brk t = brk s"
    and bs': "base # bs' = xs @ p # u # ys"
  shows "heap_ok base t bs' (us - {u})"
proof -
  note D = heap_okD [OF ok]
  have st: "sorted_wrt (<) (xs @ p # ys)" using D(3) p(1) by simp
  then have st': "sorted_wrt (<) (base # bs')" using p(2,3) unfolding bs' by (auto simp: sorted_wrt_append intro: less_trans)
  have nin: "p \<notin> set xs" "p \<notin> set ys" "p \<noteq> u" "u \<notin> set ys" "u \<notin> set xs"
    using st p(2,3) by (auto simp: sorted_wrt_append dest: order.asym)
  have bx: "set bs' = insert u (set bs)" using p(1) bs' st st' by (cases xs) auto
  have pu: "path s p (ys @ [base]) \<Longrightarrow> path t u (ys @ [base])"
    by (rule path_from [of s p]) (use nin t(1) in auto)
  have path: "path t base (bs' @ [base])"
  proof (cases xs)
    case Nil
    then have "p = base" "bs = ys" "bs' = u # ys" using p(1) bs' by auto
    then show ?thesis using pu D(4) t(1) by simp
  next
    case (Cons x xs')
    then have e: "x = base" "bs = xs' @ p # ys" "bs' = xs' @ p # u # ys" using p(1) bs' by auto
    then have "path s base (xs' @ [p])" "path s p (ys @ [base])" using D(4) path_append [of s base xs' p "ys @ [base]"] by auto
    moreover have "path t base (xs' @ [p]) = path s base (xs' @ [p])" using nin t(1) Cons e(1) by (intro path_same) auto
    ultimately show ?thesis using pu path_append [of t base xs' p "u # ys @ [base]"] e t(1) nin by simp
  qed
  have bl: "blocks_ok base t (set bs' \<union> (us - {u}))"
    using D(6) by (rule blocks_ok_same) (use bx u t in auto)
  have "set bs' \<inter> (us - {u}) = {}" using D(5) bx by auto
  then show ?thesis unfolding heap_ok_def using D(1,2) st' path bl t(2) by simp
qed

text \<open>Two neighbours in the list that are adjacent in memory become one.\<close>

lemma heap_merge:
  assumes ok: "heap_ok base s bs us" and ab: "bs = xs @ a # b # ys" "end_of s a = unat b"
    and t: "hptr t = (hptr s)(a := hptr s b)" "hsize t = (hsize s)(a := hsize s a + hsize s b)" "brk t = brk s"
  shows "heap_ok base t (xs @ a # ys) us"
proof -
  note D = heap_okD [OF ok]
  have st: "sorted_wrt (<) (base # xs @ a # b # ys)" using D(3) ab(1) by simp
  have nin: "a \<noteq> base" "a \<notin> set xs" "a \<notin> set ys" "a \<noteq> b" "b \<notin> set xs" "b \<notin> set ys"
    using st by (auto simp: sorted_wrt_append)
  have "path s base (xs @ [a])" "path s b (ys @ [base])"
    using D(4) path_append [of s base xs a "b # ys @ [base]"] ab(1) by auto
  moreover have "path t base (xs @ [a]) = path s base (xs @ [a])" using nin t(1) by (intro path_same) auto
  moreover have "path s b (ys @ [base]) \<Longrightarrow> path t a (ys @ [base])"
    by (rule path_from [of s b]) (use nin t(1) in auto)
  ultimately have path: "path t base ((xs @ a # ys) @ [base])" using path_append [of t base xs a "ys @ [base]"] by simp
  have "blocks_ok base t ((set bs \<union> us) - {b})"
    by (rule blocks_merge [OF D(6), of a b]) (use ab t nin in auto)
  moreover have "(set bs \<union> us) - {b} = set (xs @ a # ys) \<union> us" using D(5) nin ab(1) by auto
  ultimately have bl: "blocks_ok base t (set (xs @ a # ys) \<union> us)" by simp
  have "sorted_wrt (<) (base # xs @ a # ys)" using st by (auto simp: sorted_wrt_append)
  moreover have "set (xs @ a # ys) \<inter> us = {}" using D(5) ab(1) by auto
  moreover have "hsize t base = 0" using D(2) t(2) nin(1) by simp
  ultimately show ?thesis using path bl D(1) by (simp add: heap_ok_def)
qed

lemma heap_ok_freep [simp]: "heap_ok base (s\<lparr>freep := f\<rparr>) bs us = heap_ok base s bs us"
proof -
  have "path (s\<lparr>freep := f\<rparr>) a ns = path s a ns" for a ns by (induction ns arbitrary: a) auto
  then show ?thesis by (simp add: heap_ok_def blocks_ok_def sep_def end_of_def)
qed

text \<open>After \<open>join_next\<close> the block is in the list once \<open>p\<close> points to it.\<close>

lemma join_next_ok:
  assumes ok: "heap_ok base s bs us" and u: "u \<in> us" and p: "base # bs = xs @ p # ys" "p < u" "\<forall>y\<in>set ys. u < y"
    and t: "t = join_next u p s" "t' = t\<lparr>hptr := (hptr t)(p := u)\<rparr>"
  shows "\<exists>bs' zs. heap_ok base t' bs' (us - {u}) \<and> base # bs' = xs @ p # u # zs \<and> hsize s u \<le> hsize t u"
proof -
  let ?t = "s\<lparr>hptr := (hptr s)(u := hptr s p, p := u)\<rparr>"
  obtain bs0 where b0: "base # bs0 = xs @ p # u # ys" using p(1) by (cases xs) auto
  have ok0: "heap_ok base ?t bs0 (us - {u})" using heap_insert [OF ok u p _ _ _ b0, of ?t] by simp
  note B = heap_okD(6) [OF ok]
  have e: "unat (u + 8 * hsize s u) = end_of s u" by (rule end_word [OF B]) (use u in simp)
  have bu: "unat base < unat u" "unat u < end_of s u"
    using blocks_okD(4) [OF B, of u] size_pos [of s u] blocks_okD(3) [OF B, of u] u by auto
  show ?thesis
  proof (cases "u + 8 * hsize s u = hptr s p")
    case False
    then show ?thesis using ok0 b0 t by (auto simp: join_next_def)
  next
    case True
    have n: "hptr s p = hd (ys @ [base])" by (rule ptr_next [OF ok p(1)])
    then obtain q ys' where q: "ys = q # ys'" "hptr s p = q" using True e bu by (cases ys) auto
    obtain cs where cs: "bs0 = cs @ u # q # ys'" "base # cs @ u # ys' = xs @ p # u # ys'"
      using b0 q(1) by (cases xs) auto
    have qu: "q \<noteq> u" "q \<noteq> p" "p \<noteq> u" using p q heap_okD(3) [OF ok] by (auto simp: sorted_wrt_append)
    have t': "t' = s\<lparr>hsize := (hsize s)(u := hsize s u + hsize s q), hptr := (hptr s)(u := hptr s q, p := u)\<rparr>"
      using True q(2) by (simp add: t join_next_def)
    have "heap_ok base t' (cs @ u # ys') (us - {u})"
      by (rule heap_merge [OF ok0 cs(1)]) (use True e q t' qu in \<open>auto simp: end_of_def fun_upd_twist\<close>)
    moreover have "hsize s u \<le> hsize t u"
    proof -
      have "q \<in> set bs" using p(1) q(1) by (cases xs) auto
      then have "end_of s q \<le> unat (brk s)" "unat (brk s) < 2 ^ 31" using blocks_okD(1,5) [OF B] by auto
      then have "unat (hsize s u) + unat (hsize s q) < 2 ^ 32" using True e q(2) by (auto simp: end_of_def)
      then show ?thesis using t True q(2) by (simp add: join_next_def word_le_nat_alt unat_add_lem [THEN iffD1])
    qed
    ultimately show ?thesis using cs(2) by blast
  qed
qed

lemma free_insert_ok:
  assumes ok: "heap_ok base s bs us" and u: "u \<in> us" and p: "base # bs = xs @ p # ys" "p < u" "\<forall>y\<in>set ys. u < y"
  shows "\<exists>bs'. heap_ok base (free_insert u p s) bs' (us - {u}) \<and> p \<in> set (base # bs') \<and>
    (\<exists>a\<in>set bs'. hsize s u \<le> hsize (free_insert u p s) a)"
proof -
  define t where "t = join_next u p s"
  define t' where "t' = t\<lparr>hptr := (hptr t)(p := u)\<rparr>"
  obtain bs' zs where b: "heap_ok base t' bs' (us - {u})" "base # bs' = xs @ p # u # zs" "hsize s u \<le> hsize t u"
    using join_next_ok [OF ok u p t_def t'_def] by blast
  have f: "free_insert u p s = (join_prev u p t)\<lparr>freep := p\<rparr>" by (simp add: free_insert_def t_def)
  show ?thesis
  proof (cases "p + 8 * hsize t p = u")
    case False
    then have "free_insert u p s = t'\<lparr>freep := p\<rparr>" by (simp add: f join_prev_def t'_def)
    moreover have "u \<in> set bs'" "p \<in> set (base # bs')" using b(2) by (cases xs; auto)+
    moreover have "hsize t' = hsize t" by (simp add: t'_def)
    ultimately show ?thesis using b(1,3) by (intro exI [of _ bs']) auto
  next
    case True
    have pb: "p \<noteq> base" using True heap_okD(2) [OF b(1)] p(2) by (auto simp: t'_def)
    obtain cs where cs: "bs' = cs @ p # u # zs" using b(2) pb by (cases xs) auto
    let ?r = "t\<lparr>hsize := (hsize t)(p := hsize t p + hsize t u), hptr := (hptr t)(p := hptr t u)\<rparr>"
    have B: "blocks_ok base t' (set bs' \<union> (us - {u}))" by (rule heap_okD(6) [OF b(1)])
    have e: "end_of t' p = unat u" using end_word [OF B, of p] cs True by (simp add: t'_def)
    have ok': "heap_ok base ?r (cs @ p # zs) (us - {u})"
      by (rule heap_merge [OF b(1) cs e]) (use p(2) in \<open>auto simp: t'_def\<close>)
    have r: "free_insert u p s = ?r\<lparr>freep := p\<rparr>" using True by (simp add: f join_prev_def)
    have "u \<in> set bs'" using cs by simp
    then have "end_of t' u \<le> unat (brk t')" "unat (brk t') < 2 ^ 31" using blocks_okD(1,5) [OF B] by auto
    then have "unat (hsize t p) + unat (hsize t u) < 2 ^ 32" using e by (simp add: end_of_def t'_def)
    then have "hsize t u \<le> hsize t p + hsize t u" by (simp add: word_le_nat_alt unat_add_lem [THEN iffD1])
    then have "hsize s u \<le> hsize ?r p" using b(3) by (simp add: order_trans)
    then show ?thesis unfolding r using ok' by (intro exI [of _ "cs @ p # zs"]) simp
  qed
qed

text \<open>The invariant between calls, and what a call leaves alone: the blocks in use keep their size.\<close>

definition heap_inv :: "u32 \<Rightarrow> heap \<Rightarrow> u32 list \<Rightarrow> u32 set \<Rightarrow> bool" where
  "heap_inv base s bs us \<longleftrightarrow> heap_ok base s bs us \<and> freep s \<in> set (base # bs)"

lemma used_above: "heap_ok base s bs us \<Longrightarrow> u \<in> us \<Longrightarrow> base < u \<and> u \<notin> set bs"
  using blocks_okD(4) [OF heap_okD(6), of base s bs us u] heap_okD(5) [of base s bs us] by (auto simp: word_less_nat_alt)

lemma join_sizes: "v \<noteq> u \<Longrightarrow> v \<noteq> p \<Longrightarrow> hsize (free_insert u p s) v = hsize s v" "freep (free_insert u p s) = p" "brk (free_insert u p s) = brk s"
  by (auto simp: free_insert_def join_prev_def join_next_def)

lemma free_ok:
  assumes inv: "heap_inv base s bs us" and u: "u \<in> us"
  obtains t bs' where "free (u + 8) s = Some t" "heap_inv base t bs' (us - {u})" "\<forall>v\<in>us - {u}. hsize t v = hsize s v"
    "\<exists>a\<in>set bs'. hsize s u \<le> hsize t a"
proof -
  have ok: "heap_ok base s bs us" "freep s \<in> set (base # bs)" using inv by (auto simp: heap_inv_def)
  have b: "base < u" "u \<notin> set bs" using used_above [OF ok(1) u] by auto
  obtain xs p ys where p: "base # bs = xs @ p # ys" "p < u" "\<forall>y\<in>set ys. u < y" "free_find s u (freep s) = Some p"
    by (rule free_find_spec [OF ok b])
  obtain bs' where b': "heap_ok base (free_insert u p s) bs' (us - {u})" "p \<in> set (base # bs')"
    "\<exists>a\<in>set bs'. hsize s u \<le> hsize (free_insert u p s) a"
    using free_insert_ok [OF ok(1) u p(1-3)] by blast
  have "v \<noteq> p" if "v \<in> us" for v
  proof -
    have "p \<in> set (base # bs)" unfolding p(1) by simp
    then show ?thesis using used_above [OF ok(1) that] by auto
  qed
  then show thesis using p(4) b' by (intro that [of "free_insert u p s" bs']) (auto simp: free_def heap_inv_def join_sizes)
qed

section \<open>Allocating a block\<close>

lemma heap_grow:
  assumes ok: "heap_ok base s bs us" and n: "nu \<noteq> 0" "unat (brk s) + 8 * unat nu < 2 ^ 31"
    and t: "t = s\<lparr>brk := brk s + 8 * nu, hsize := (hsize s)(brk s := nu)\<rparr>"
  shows "heap_ok base t bs (insert (brk s) us) \<and> brk s \<notin> us"
proof -
  note D = heap_okD [OF ok]
  note B = blocks_okD [OF D(6)]
  have "unat (8 * nu) = 8 * unat nu" using n(2) by (subst unat_mult_lem [THEN iffD1]) auto
  then have br: "unat (brk t) = unat (brk s) + 8 * unat nu" using n(2) by (simp add: t unat_add_lem [THEN iffD1])
  have below: "unat a < unat (brk s)" if "a \<in> set bs \<union> us" for a using size_pos [of s a] B(3,5) [OF that] by simp
  then have nin: "brk s \<notin> set bs \<union> us" by auto
  have bb: "base \<noteq> brk s" using B(2) by auto
  have e: "end_of t a = end_of s a" if "a \<in> set bs \<union> us" for a using nin that by (auto simp: end_of_def t)
  have en: "end_of t (brk s) = unat (brk t)" by (simp add: end_of_def br) (simp add: t)
  have "sep t a b" if "a \<in> insert (brk s) (set bs \<union> us)" "b \<in> insert (brk s) (set bs \<union> us)" "a \<noteq> b" for a b
    using that e [of a] e [of b] B(5) [of a] B(5) [of b] B(6) [of a b] unfolding sep_def by (metis insert_iff)
  moreover have "hsize t a \<noteq> 0 \<and> unat base + 8 \<le> unat a \<and> end_of t a \<le> unat (brk t)" if "a \<in> insert (brk s) (set bs \<union> us)" for a
  proof (cases "a = brk s")
    case True
    then show ?thesis using n(1) B(2) en by (simp add: t)
  next
    case False
    then have "a \<in> set bs \<union> us" using that by simp
    then show ?thesis using B(3-5) [of a] e [of a] br False by (simp add: t)
  qed
  moreover have "unat base + 8 \<le> unat (brk t)" "unat (brk t) < 2 ^ 31" using B(2) br n(2) by linarith+
  ultimately have "blocks_ok base t (insert (brk s) (set bs \<union> us))" unfolding blocks_ok_def by blast
  moreover have "path t base (bs @ [base]) = path s base (bs @ [base])" by (rule path_same) (simp add: t)
  ultimately show ?thesis using D nin bb by (simp add: heap_ok_def t)
qed

lemma freep_nonzero:
  assumes "heap_inv base s bs us"
  shows "freep s \<noteq> 0"
proof -
  have ok: "heap_ok base s bs us" "freep s = base \<or> freep s \<in> set bs" using assms by (auto simp: heap_inv_def)
  have "unat base + 8 \<le> unat a" if "a \<in> set bs" for a using blocks_okD(4) [OF heap_okD(6) [OF ok(1)]] that by simp
  then have "0 \<notin> set bs" by fastforce
  with ok(2) heap_okD(1) [OF ok(1)] show ?thesis by auto
qed

lemma sint_small: "unat w < 2 ^ 31 \<Longrightarrow> sint w = int (unat w)" for w :: u32
proof -
  assume "unat w < 2 ^ 31"
  then have "int (unat w) < 2 ^ 31" by (metis of_nat_less_iff of_nat_numeral of_nat_power)
  moreover have u: "uint w = int (unat w)" by (rule uint_nat)
  ultimately have "signed_take_bit 31 (uint w) = int (unat w)" unfolding u by (intro signed_take_bit_int_eq_self) linarith+
  moreover have "sint w = signed_take_bit 31 (uint w)" by (simp add: sint_uint)
  ultimately show ?thesis by (rule trans [rotated])
qed

lemma sbrk_small:
  assumes "0 < unat n" "unat n < 2 ^ 31" "unat (brk s) < 2 ^ 31"
  shows "sbrk room n s = (-1, s) \<or> (unat (brk s) + unat n < 2 ^ 31 \<and> sbrk room n s = (brk s, s\<lparr>brk := brk s + n\<rparr>))"
proof -
  have "sint n > 0" using sint_small [OF assms(2)] assms(1) by linarith
  moreover have u: "unat (brk s + n) = unat (brk s) + unat n" using assms by (subst unat_add_lem [THEN iffD1]) auto
  moreover have "\<not> brk s + n < brk s" using u by (simp add: word_less_nat_alt)
  moreover have "\<not> KERNBASE \<le> brk s + n \<Longrightarrow> unat (brk s) + unat n < 2 ^ 31" using u by (simp add: KERNBASE_def word_le_nat_alt)
  ultimately show ?thesis by (auto simp: sbrk_def Let_def)
qed

lemma morecore_ok:
  assumes inv: "heap_inv base s bs us" and n: "nu \<noteq> 0" "8 * unat nu < 2 ^ 31"
  shows "morecore room nu s = Some (0, s) \<and> fst (sbrk room ((if nu < 4096 then 4096 else nu) * 8) s) = -1 \<or>
    (\<exists>t bs'. morecore room nu s = Some (freep t, t) \<and> heap_inv base t bs' us \<and> freep t \<noteq> 0 \<and>
       (\<forall>v\<in>us. hsize t v = hsize s v) \<and> (\<exists>a\<in>set bs'. nu \<le> hsize t a))"
proof -
  define nu' :: u32 where "nu' = (if nu < 4096 then 4096 else nu)"
  have nu': "nu' \<noteq> 0" "nu \<le> nu'" "8 * unat nu' < 2 ^ 31" "0 < unat nu'" using n by (auto simp: nu'_def unat_gt_0)
  have m: "unat (nu' * 8) = 8 * unat nu'" using nu'(3) by (subst unat_mult_lem [THEN iffD1]) auto
  have ok: "heap_ok base s bs us" using inv by (simp add: heap_inv_def)
  note B = blocks_okD [OF heap_okD(6) [OF ok]]
  have mc: "morecore room nu s = (let (p, s) = sbrk room (nu' * 8) s in if p = -1 then Some (0, s)
      else map_option (\<lambda>s. (freep s, s)) (free (p + 8) (s\<lparr>hsize := (hsize s)(p := nu')\<rparr>)))"
    unfolding morecore_def Let_def nu'_def [symmetric] ..
  consider "sbrk room (nu' * 8) s = (-1, s)"
    | "unat (brk s) + 8 * unat nu' < 2 ^ 31" "sbrk room (nu' * 8) s = (brk s, s\<lparr>brk := brk s + 8 * nu'\<rparr>)"
    using sbrk_small [of "nu' * 8" s room] m nu'(3,4) B(1) by (auto simp: mult.commute)
  then show ?thesis
  proof cases
    case 1
    then show ?thesis unfolding nu'_def [symmetric] by (simp add: mc)
  next
    case 2
    define t where "t = s\<lparr>brk := brk s + 8 * nu', hsize := (hsize s)(brk s := nu')\<rparr>"
    have g: "heap_ok base t bs (insert (brk s) us)" "brk s \<notin> us" using heap_grow [OF ok nu'(1) 2(1) t_def] by auto
    then have "heap_inv base t bs (insert (brk s) us)" using inv by (simp add: heap_inv_def t_def)
    then obtain v bs' where v: "free (brk s + 8) t = Some v" "heap_inv base v bs' (insert (brk s) us - {brk s})"
      "\<forall>x\<in>insert (brk s) us - {brk s}. hsize v x = hsize t x" "\<exists>a\<in>set bs'. hsize t (brk s) \<le> hsize v a"
      by (rule free_ok) blast
    have us: "insert (brk s) us - {brk s} = us" using g(2) by auto
    have "brk s \<noteq> -1" using B(1) by (auto simp: unsigned_minus_1_eq_mask mask_eq_exp_minus_1)
    then have "morecore room nu s = Some (freep v, v)" using v(1) by (simp add: mc 2(2) t_def)
    moreover have "freep v \<noteq> 0" using v(2) by (rule freep_nonzero)
    moreover have "\<forall>x\<in>us. hsize v x = hsize s x" using v(3) g(2) by (auto simp: us t_def)
    moreover have "\<exists>a\<in>set bs'. nu \<le> hsize v a" using v(4) nu'(2) by (auto simp: t_def intro: order_trans)
    ultimately show ?thesis using v(2) us by auto
  qed
qed


lemma heap_remove:
  assumes ok: "heap_ok base s bs us" and q: "base # bs = xs @ q # p # ys" "base # bs' = xs @ q # ys"
    and t: "hptr t = (hptr s)(q := hptr s p)" "hsize t = hsize s" "brk t = brk s"
  shows "heap_ok base t bs' (insert p us)"
proof -
  note D = heap_okD [OF ok]
  have st: "sorted_wrt (<) (xs @ q # p # ys)" using D(3) q(1) by simp
  have nin: "q \<notin> set xs" "q \<notin> set ys" "p \<notin> set xs" "p \<notin> set ys" "p \<noteq> q" using st by (auto simp: sorted_wrt_append)
  have bx: "set bs = insert p (set bs')" using q by (cases xs) auto
  have pb: "p \<notin> set bs'" using q nin st by (cases xs) (auto simp: sorted_wrt_append)
  have pu: "path s p (ys @ [base]) \<Longrightarrow> path t q (ys @ [base])"
    by (rule path_from [of s p]) (use nin t(1) in auto)
  have path: "path t base (bs' @ [base])"
  proof (cases xs)
    case Nil
    then show ?thesis using q D(4) pu by auto
  next
    case (Cons x xs')
    then have e: "x = base" "bs = xs' @ q # p # ys" "bs' = xs' @ q # ys" using q by auto
    then have "path s base (xs' @ [q])" "path s p (ys @ [base])" using D(4) path_append [of s base xs' q "p # ys @ [base]"] by auto
    moreover have "path t base (xs' @ [q]) = path s base (xs' @ [q])" using nin t(1) Cons e(1) by (intro path_same) auto
    ultimately show ?thesis using pu path_append [of t base xs' q "ys @ [base]"] e by simp
  qed
  have bl: "blocks_ok base t (set bs' \<union> insert p us)" using D(6) by (rule blocks_ok_same) (use bx t in auto)
  have "sorted_wrt (<) (base # bs')" using st unfolding q(2) by (auto simp: sorted_wrt_append)
  moreover have "set bs' \<inter> insert p us = {}" using D(5) bx pb by auto
  ultimately show ?thesis unfolding heap_ok_def using D(1,2) path bl t(2) by simp
qed

lemma take_block_ok:
  assumes ok: "heap_ok base s bs us" and q: "base # bs = xs @ q # p # ys" and n: "n \<le> hsize s p" "n \<noteq> 0"
  obtains u t bs' where "take_block n q p s = (u + 8, t)" "u \<notin> us" "heap_inv base t bs' (insert u us)" "hsize t u = n"
    "\<forall>v\<in>us. hsize t v = hsize s v"
proof (cases "hsize s p = n")
  case True
  obtain bs' where b: "base # bs' = xs @ q # ys" using q by (cases xs) auto
  let ?t = "s\<lparr>hptr := (hptr s)(q := hptr s p)\<rparr>"
  have "heap_ok base ?t bs' (insert p us)" by (rule heap_remove [OF ok q b]) auto
  moreover have "q \<in> set (base # bs')" unfolding b by simp
  moreover have "p \<in> set bs" using q by (cases xs) auto
  then have "p \<notin> us" using heap_okD(5) [OF ok] by auto
  ultimately show thesis using True by (intro that [of p "?t\<lparr>freep := q\<rparr>" bs']) (auto simp: take_block_def heap_inv_def)
next
  case False
  note D = heap_okD [OF ok]
  let ?k = "hsize s p - n" and ?u = "p + 8 * (hsize s p - n)"
  let ?t = "s\<lparr>hsize := (hsize s)(p := ?k, ?u := n)\<rparr>"
  have p: "p \<in> set bs" using q by (cases xs) auto
  have lt: "n < hsize s p" using n(1) False by (simp add: le_less)
  have b: "?u \<notin> set bs \<union> us" "blocks_ok base ?t (insert ?u (set bs \<union> us))"
    using blocks_split [OF D(6) _ lt n(2) refl, of ?t] p by auto
  have ub: "?u \<noteq> base" using blocks_okD(4) [OF b(2), of ?u] by auto
  have pb: "p \<noteq> base" using blocks_okD(4) [OF D(6), of p] p by auto
  have "path ?t base (bs @ [base]) = path s base (bs @ [base])" by (rule path_same) simp
  then have "heap_ok base ?t bs (insert ?u us)" using D b ub pb by (simp add: heap_ok_def)
  moreover have "q \<in> set (base # bs)" unfolding q by simp
  moreover have "p \<noteq> ?u" using b(1) p by auto
  moreover have "p \<notin> us" using p D(5) by auto
  ultimately show thesis using False b(1) p
    by (intro that [of ?u "?t\<lparr>freep := q\<rparr>" bs]) (auto simp: take_block_def heap_inv_def Let_def)
qed

text \<open>One round of the search: it finds a block, or comes back to \<open>freep\<close> and asks for more memory.\<close>

lemma malloc_scan:
  assumes "path s q ns" "ns \<noteq> []" "last ns = freep s" "freep s \<notin> set (butlast ns)"
  shows "(\<exists>a\<in>set (q # butlast ns). n \<le> hsize s (hptr s a) \<and> malloc_loop room n q (hptr s q) s = Some (take_block n a (hptr s a) s)) \<or>
    ((\<forall>a\<in>set ns. hsize s a < n) \<and>
     malloc_loop room n q (hptr s q) s = Option.bind (morecore room n s) (\<lambda>(p, s).
       if p = 0 then Some (0, s) else malloc_loop room n p (hptr s p) s))"
  using assms
proof (induction ns arbitrary: q)
  case (Cons b ns)
  have b: "hptr s q = b" using Cons.prems(1) by simp
  consider (found) "n \<le> hsize s b" | (last) "hsize s b < n" "ns = []" | (more) "hsize s b < n" "ns \<noteq> []" by fastforce
  then show ?case
  proof cases
    case found
    then show ?thesis using b by (subst (1 2) malloc_loop.simps) auto
  next
    case last
    then have "b = freep s" using Cons.prems(3) by simp
    then show ?thesis using last b by (subst (2) malloc_loop.simps) auto
  next
    case more
    then have "b \<noteq> freep s" using Cons.prems(4) by auto
    then have e: "malloc_loop room n q (hptr s q) s = malloc_loop room n b (hptr s b) s"
      using more b by (subst malloc_loop.simps) auto
    then show ?thesis using Cons.IH [of b] Cons.prems more by (auto split: if_splits)
  qed
qed simp

text \<open>A block of \<open>n\<close> units, taken from the free memory, at the pointer \<open>r\<close>.\<close>

definition allocates :: "u32 \<Rightarrow> u32 \<Rightarrow> heap \<Rightarrow> u32 set \<Rightarrow> u32 \<times> heap \<Rightarrow> bool" where
  "allocates base n s us r \<longleftrightarrow> (\<exists>u t bs. r = (u + 8, t) \<and> u \<notin> us \<and> heap_inv base t bs (insert u us) \<and> hsize t u = n \<and>
     (\<forall>v\<in>us. hsize t v = hsize s v))"

lemma malloc_round:
  assumes inv: "heap_inv base s bs us" and n: "n \<noteq> 0"
  shows "(\<exists>r. malloc_loop room n (freep s) (hptr s (freep s)) s = Some r \<and> allocates base n s us r) \<or>
    ((\<forall>a\<in>set bs. hsize s a < n) \<and>
     malloc_loop room n (freep s) (hptr s (freep s)) s = Option.bind (morecore room n s) (\<lambda>(p, s).
       if p = 0 then Some (0, s) else malloc_loop room n p (hptr s p) s))"
proof -
  have ok: "heap_ok base s bs us" using inv by (simp add: heap_inv_def)
  obtain xs ys where f: "base # bs = xs @ freep s # ys" using inv unfolding heap_inv_def by (meson split_list)
  have path: "path s (freep s) (ys @ xs @ [freep s])" by (rule path_circle [OF heap_okD(4) [OF ok] f])
  have "distinct (base # bs)" using heap_okD(3) [OF ok] by (simp only: strict_sorted_iff)
  then have nf: "freep s \<notin> set (butlast (ys @ xs @ [freep s]))" unfolding f by (simp add: butlast_append)
  have all: "set (freep s # butlast (ys @ xs @ [freep s])) = set (base # bs)" "set (ys @ xs @ [freep s]) = set (base # bs)"
    unfolding f by (auto simp: butlast_append)
  consider (found) a where "a \<in> set (base # bs)" "n \<le> hsize s (hptr s a)"
      "malloc_loop room n (freep s) (hptr s (freep s)) s = Some (take_block n a (hptr s a) s)"
    | (none) "\<forall>a\<in>set (base # bs). hsize s a < n"
      "malloc_loop room n (freep s) (hptr s (freep s)) s = Option.bind (morecore room n s) (\<lambda>(p, s).
       if p = 0 then Some (0, s) else malloc_loop room n p (hptr s p) s)"
    using malloc_scan [OF path _ _ nf, of n room] unfolding all by auto
  then show ?thesis
  proof cases
    case found
    obtain cs ds where c: "base # bs = cs @ a # ds" using found(1) by (meson split_list)
    have "hptr s a = hd (ds @ [base])" by (rule ptr_next [OF ok c])
    moreover have "hptr s a \<noteq> base" using found(2) heap_okD(2) [OF ok] n by auto
    ultimately obtain ds' where d: "base # bs = cs @ a # hptr s a # ds'" using c by (cases ds) auto
    obtain u t bs' where u: "take_block n a (hptr s a) s = (u + 8, t)" "u \<notin> us" "heap_inv base t bs' (insert u us)" "hsize t u = n"
      "\<forall>v\<in>us. hsize t v = hsize s v"
      by (rule take_block_ok [OF ok d found(2) n])
    then show ?thesis using found(3) unfolding allocates_def by blast
  next
    case none
    then show ?thesis by simp
  qed
qed

lemma malloc_loop_ok:
  assumes inv: "heap_inv base s bs us" and n: "n \<noteq> 0" "8 * unat n < 2 ^ 31"
  shows "malloc_loop room n (freep s) (hptr s (freep s)) s = Some (0, s) \<and> fst (sbrk room ((if n < 4096 then 4096 else n) * 8) s) = -1 \<or>
    (\<exists>r. malloc_loop room n (freep s) (hptr s (freep s)) s = Some r \<and> allocates base n s us r)"
  using malloc_round [OF inv n(1), of room]
proof (elim disjE conjE)
  assume e: "malloc_loop room n (freep s) (hptr s (freep s)) s = Option.bind (morecore room n s) (\<lambda>(p, s).
       if p = 0 then Some (0, s) else malloc_loop room n p (hptr s p) s)"
  from morecore_ok [OF inv n, of room] show ?thesis
  proof (elim disjE exE conjE)
    fix t bs' assume t: "morecore room n s = Some (freep t, t)" "heap_inv base t bs' us" "freep t \<noteq> 0"
      "\<forall>v\<in>us. hsize t v = hsize s v" "\<exists>a\<in>set bs'. n \<le> hsize t a"
    then obtain r where r: "malloc_loop room n (freep t) (hptr t (freep t)) t = Some r" "allocates base n t us r"
      using malloc_round [OF t(2) n(1), of room] by (auto simp: not_le)
    then have "allocates base n s us r" using t(4) by (auto simp: allocates_def)
    then show ?thesis using r(1) t(1,3) e by simp
  qed (simp add: e)
qed blast

text \<open>
  The states that a program reaches with \<open>malloc\<close> and \<open>free\<close>, and the headers of the blocks it
  has; it frees what it has been given and asks for less than two gigabytes at a time.
\<close>

inductive heap_run :: "u32 \<Rightarrow> heap \<Rightarrow> u32 set \<Rightarrow> bool" for base where
  run_start: "freep s = 0 \<Longrightarrow> base \<noteq> 0 \<Longrightarrow> unat base + 8 \<le> unat (brk s) \<Longrightarrow> unat (brk s) < 2 ^ 31 \<Longrightarrow> heap_run base s {}"
| run_malloc: "heap_run base s us \<Longrightarrow> malloc room base nbytes s = Some (r, t) \<Longrightarrow> unat nbytes \<le> 2 ^ 31 - 16 \<Longrightarrow>
    heap_run base t (if r = 0 then us else insert (r - 8) us)"
| run_free: "heap_run base s us \<Longrightarrow> u \<in> us \<Longrightarrow> free (u + 8) s = Some t \<Longrightarrow> heap_run base t (us - {u})"

definition run_inv :: "u32 \<Rightarrow> heap \<Rightarrow> u32 set \<Rightarrow> bool" where
  "run_inv base s us \<longleftrightarrow> (if freep s = 0 then us = {} \<and> base \<noteq> 0 \<and> unat base + 8 \<le> unat (brk s) \<and> unat (brk s) < 2 ^ 31
     else \<exists>bs. heap_inv base s bs us)"

lemma units_value:
  assumes "unat nbytes \<le> 2 ^ 31 - 16"
  shows "unat (units nbytes) = (unat nbytes + 7) div 8 + 1" "units nbytes \<noteq> 0" "8 * unat (units nbytes) < 2 ^ 31"
    "unat nbytes + 8 \<le> 8 * unat (units nbytes)"
proof -
  have "unat (nbytes + 7) = unat nbytes + 7" using assms by (subst unat_add_lem [THEN iffD1]) auto
  then have d: "unat ((nbytes + 7) div 8) = (unat nbytes + 7) div 8" by (simp add: unat_div)
  have "units nbytes = (nbytes + 7) div 8 + 1" by (simp add: units_def add.commute)
  moreover have "unat ((nbytes + 7) div 8) + unat (1 :: u32) < 2 ^ 32" using d assms by simp
  ultimately show u: "unat (units nbytes) = (unat nbytes + 7) div 8 + 1"
    using d unat_add_lem [of "(nbytes + 7) div 8" 1] by simp
  then show "units nbytes \<noteq> 0" by auto
  have "8 * ((unat nbytes + 7) div 8) \<le> unat nbytes + 7" "unat nbytes \<le> 8 * ((unat nbytes + 7) div 8)" by presburger+
  then show "8 * unat (units nbytes) < 2 ^ 31" "unat nbytes + 8 \<le> 8 * unat (units nbytes)" unfolding u using assms by simp_all
qed

text \<open>Initialised, the heap satisfies the invariant, with no memory but the static header.\<close>

definition heap_start :: "u32 \<Rightarrow> heap \<Rightarrow> heap" where
  "heap_start base s = (if freep s = 0 then s\<lparr>freep := base, hptr := (hptr s)(base := base), hsize := (hsize s)(base := 0)\<rparr> else s)"

lemma heap_start_inv: "run_inv base s us \<Longrightarrow> \<exists>bs. heap_inv base (heap_start base s) bs us"
proof (cases "freep s = 0")
  case True
  assume "run_inv base s us"
  with True show ?thesis
    by (auto simp: run_inv_def heap_start_def heap_inv_def heap_ok_def blocks_ok_def intro!: exI [of _ "[]"])
qed (simp add: run_inv_def heap_start_def)

lemma sbrk_cong: "brk t = brk s \<Longrightarrow> fst (sbrk room n t) = fst (sbrk room n s)"
  unfolding sbrk_def Let_def by (simp only: if_distrib [of fst] fst_conv)

lemma malloc_result:
  assumes "run_inv base s us" "units nbytes \<noteq> 0" "8 * unat (units nbytes) < 2 ^ 31"
  shows "malloc room base nbytes s = Some (0, heap_start base s) \<and>
      fst (sbrk room ((if units nbytes < 4096 then 4096 else units nbytes) * 8) s) = -1 \<or>
    (\<exists>r. malloc room base nbytes s = Some r \<and> allocates base (units nbytes) (heap_start base s) us r)"
proof -
  obtain bs where bs: "heap_inv base (heap_start base s) bs us" using heap_start_inv [OF assms(1)] by blast
  have "fst (sbrk room n (heap_start base s)) = fst (sbrk room n s)" for n by (rule sbrk_cong) (simp add: heap_start_def)
  then show ?thesis using malloc_loop_ok [OF bs assms(2,3), of room] by (simp add: malloc_def heap_start_def Let_def)
qed

lemma allocates_run_inv: "allocates base n s us (r, t) \<Longrightarrow> r \<noteq> 0 \<and> run_inv base t (insert (r - 8) us)"
proof -
  assume "allocates base n s us (r, t)"
  then obtain u bs where u: "r = u + 8" "heap_inv base t bs (insert u us)" by (auto simp: allocates_def)
  have ok: "heap_ok base t bs (insert u us)" using u(2) by (simp add: heap_inv_def)
  note B = blocks_okD [OF heap_okD(6) [OF ok]]
  have "unat u < 2 ^ 31" using B(1) B(5) [of u] by (simp add: end_of_def)
  then have "unat (u + 8) = unat u + 8" by (subst unat_add_lem [THEN iffD1]) auto
  then have "r \<noteq> 0" using u(1) by auto
  then show ?thesis using u freep_nonzero [OF u(2)] by (auto simp: run_inv_def)
qed

lemma heap_run_inv: "heap_run base s us \<Longrightarrow> run_inv base s us"
proof (induction rule: heap_run.induct)
  case (run_start s)
  then show ?case by (simp add: run_inv_def)
next
  case (run_malloc s us room nbytes r t)
  note n = units_value [OF run_malloc.hyps(3)]
  have "run_inv base (heap_start base s) us"
    using heap_start_inv [OF run_malloc.IH] freep_nonzero by (auto simp: run_inv_def)
  moreover have "malloc room base nbytes s = Some (0, heap_start base s) \<or> allocates base (units nbytes) (heap_start base s) us (r, t)"
    using malloc_result [OF run_malloc.IH n(2,3), of room] run_malloc.hyps(2) by auto
  ultimately show ?case using run_malloc.hyps(2) allocates_run_inv [of base "units nbytes" "heap_start base s" us r t] by auto
next
  case (run_free s us u t)
  then obtain bs where bs: "heap_inv base s bs us" by (auto simp: run_inv_def split: if_splits)
  obtain t' bs' where "free (u + 8) s = Some t'" "heap_inv base t' bs' (us - {u})" using free_ok [OF bs run_free.hyps(2)] by metis
  then show ?case using run_free.hyps(3) freep_nonzero by (auto simp: run_inv_def)
qed

text \<open>
  C6.  The user allocator is safe.  In every state that a program reaches with \<open>malloc\<close> and \<open>free\<close>, the blocks it
  has do not overlap and lie in its memory; \<open>malloc\<close> of less than two gigabytes returns, either null because the
  kernel refuses the memory, or a new block that holds the bytes asked for, lies in the memory of the process and overlaps
  none of the others, whose sizes are unchanged; and \<open>free\<close> of any of the blocks returns.
\<close>

theorem umalloc_safe:
  assumes "heap_run base s us" "unat nbytes \<le> 2 ^ 31 - 16"
  shows "(\<forall>u\<in>us. end_of s u \<le> unat (brk s) \<and> (\<forall>v\<in>us. u \<noteq> v \<longrightarrow> sep s u v) \<and> (\<exists>t. free (u + 8) s = Some t)) \<and>
    ((\<exists>t. malloc room base nbytes s = Some (0, t)) \<and>
       fst (sbrk room ((if units nbytes < 4096 then 4096 else units nbytes) * 8) s) = -1 \<or>
     (\<exists>u t. malloc room base nbytes s = Some (u + 8, t) \<and> u + 8 \<noteq> 0 \<and> u \<notin> us \<and> unat u + 8 + unat nbytes \<le> end_of t u \<and>
        end_of t u \<le> unat (brk t) \<and> (\<forall>v\<in>us. hsize t v = hsize s v \<and> sep t u v)))"
proof -
  have inv: "run_inv base s us" by (rule heap_run_inv [OF assms(1)])
  note n = units_value [OF assms(2)]
  have 1: "end_of s u \<le> unat (brk s) \<and> (\<forall>v\<in>us. u \<noteq> v \<longrightarrow> sep s u v) \<and> (\<exists>t. free (u + 8) s = Some t)" if u: "u \<in> us" for u
  proof -
    obtain bs where bs: "heap_inv base s bs us" using inv u by (auto simp: run_inv_def split: if_splits)
    then have B: "blocks_ok base s (set bs \<union> us)" using heap_okD(6) by (auto simp: heap_inv_def)
    obtain t bs' where "free (u + 8) s = Some t" using free_ok [OF bs u] by metis
    then show ?thesis using blocks_okD(5,6) [OF B] u by (simp add: sep_def)
  qed
  have same: "\<forall>v\<in>us. hsize (heap_start base s) v = hsize s v" using inv by (auto simp: run_inv_def heap_start_def)
  have 2: "\<exists>u t. r = (u + 8, t) \<and> u + 8 \<noteq> 0 \<and> u \<notin> us \<and> unat u + 8 + unat nbytes \<le> end_of t u \<and>
      end_of t u \<le> unat (brk t) \<and> (\<forall>v\<in>us. hsize t v = hsize s v \<and> sep t u v)"
    if r: "allocates base (units nbytes) (heap_start base s) us r" for r
  proof -
    obtain u t bs where u: "r = (u + 8, t)" "u \<notin> us" "heap_inv base t bs (insert u us)" "hsize t u = units nbytes"
      "\<forall>v\<in>us. hsize t v = hsize (heap_start base s) v" using r by (auto simp: allocates_def)
    have B: "blocks_ok base t (set bs \<union> insert u us)" by (rule heap_okD(6)) (use u(3) in \<open>simp add: heap_inv_def\<close>)
    have "end_of t u = unat u + 8 * unat (units nbytes)" using u(4) by (simp add: end_of_def)
    then have "unat u + 8 + unat nbytes \<le> end_of t u" using n(4) by linarith
    moreover have "end_of t u \<le> unat (brk t)" "\<forall>v\<in>us. sep t u v" using blocks_okD(5,6) [OF B] u(2) by (auto simp: sep_def)
    moreover have "u + 8 \<noteq> 0" using allocates_run_inv [of base "units nbytes" "heap_start base s" us "u + 8" t] r u(1) by simp
    ultimately show ?thesis using u same by auto
  qed
  show ?thesis using 1 2 malloc_result [OF inv n(2,3), of room] by blast
qed

definition fresh_heap :: heap where
  "fresh_heap = \<lparr>hptr = \<lambda>_. 0, hsize = \<lambda>_. 0, freep = 0, brk = 0x3000\<rparr>"

lemmas malloc_eval = malloc_def fresh_heap_def units_def Let_def malloc_loop.simps morecore_def sbrk_def KERNBASE_def free_def
  free_find.simps free_insert_def join_next_def join_prev_def take_block_def

lemma fresh_run: "heap_run 0x2000 fresh_heap {}"
  by (rule run_start) (simp_all add: fresh_heap_def)

text \<open>A process whose first \<open>malloc(20)\<close> takes the last four units of 32 kilobytes of new memory.\<close>

lemma fresh_malloc: "\<exists>t. malloc (\<lambda>_. True) 0x2000 20 fresh_heap = Some (0xAFE8, t)"
  by (simp add: malloc_eval)

theorem umalloc_safe_witness:
  "\<exists>t. heap_run 0x2000 t {0xAFE0} \<and> (\<exists>v. free 0xAFE8 t = Some v) \<and> 
     ((\<exists>v. malloc (\<lambda>_. True) 0x2000 8 t = Some (0, v)) \<and> fst (sbrk (\<lambda>_. True) 0x8000 t) = -1 \<or>
      (\<exists>u v. malloc (\<lambda>_. True) 0x2000 8 t = Some (u + 8, v) \<and> u \<noteq> 0xAFE0 \<and> sep v u 0xAFE0))"
proof -
  obtain t where t: "malloc (\<lambda>_. True) 0x2000 20 fresh_heap = Some (0xAFE8, t)" using fresh_malloc by blast
  have r: "heap_run 0x2000 t {0xAFE0}" using run_malloc [OF fresh_run t] by simp
  show ?thesis using umalloc_safe [OF r, of 8 "\<lambda>_. True"] r by (auto simp: units_def)
qed

text \<open>
  C37.  The size computation wraps around.  For a request of at least \<open>2 ^ 32 - 7\<close> bytes the sum with the size of a header
  overflows, and \<open>malloc\<close>, when it does not return null, returns a block of one unit: a header and no room for any byte.
\<close>

theorem malloc_overflow:
  assumes "heap_run base s us" "2 ^ 32 - 7 \<le> unat nbytes" "malloc room base nbytes s = Some (r, t)" "r \<noteq> 0"
  shows "end_of t (r - 8) = unat (r - 8) + 8"
proof -
  have "nbytes + 7 < 7"
  proof -
    have "unat (nbytes + 7) = (unat nbytes + 7) mod 2 ^ 32" by (simp add: unat_word_ariths)
    also have "\<dots> = unat nbytes + 7 - 2 ^ 32" using assms(2) unsigned_less [of nbytes, where ?'a = nat] by (simp add: mod_if)
    finally show ?thesis using unsigned_less [of nbytes, where ?'a = nat] by (simp add: word_less_nat_alt)
  qed
  then have "(nbytes + 7) div 8 = 0" by (simp add: word_less_nat_alt unat_div word_arith_nat_div)
  moreover have "units nbytes = (nbytes + 7) div 8 + 1" by (simp add: units_def add.commute)
  ultimately have u: "units nbytes = 1" by simp
  then have "allocates base 1 (heap_start base s) us (r, t)"
    using malloc_result [OF heap_run_inv [OF assms(1)], of nbytes room] assms(3,4) by simp
  then have "hsize t (r - 8) = 1" by (auto simp: allocates_def)
  then show ?thesis by (simp add: end_of_def)
qed

theorem malloc_overflow_witness:
  "\<exists>t. malloc (\<lambda>_. True) 0x2000 0xFFFFFFFF fresh_heap = Some (0xB000, t) \<and> end_of t 0xAFF8 = 0xB000"
proof -
  have "\<exists>t. malloc (\<lambda>_. True) 0x2000 0xFFFFFFFF fresh_heap = Some (0xB000, t)"
    by (simp add: malloc_eval)
  then obtain t where t: "malloc (\<lambda>_. True) 0x2000 0xFFFFFFFF fresh_heap = Some (0xB000, t)" by blast
  show ?thesis using malloc_overflow [OF fresh_run _ t] t by simp
qed

end
