(* ===== verification/Textprog.thy ===== *)
theory Textprog
  imports Ulib
begin

text \<open>
  The programs \<^verbatim>\<open>cat.c\<close>, \<^verbatim>\<open>wc.c\<close> and the main loop of \<^verbatim>\<open>grep.c\<close>, which read a file piece by piece.  What
  is read is a list of the pieces that the file, pipe or terminal delivers, \<open>None\<close> where
  \<open>read\<close> fails; a piece that is longer than the buffer is delivered in parts, and an empty one or the end of the list is the end of the file.
  What a program writes is the list of bytes; the counters of \<open>wc\<close> are unbounded.
\<close>

section \<open>Reading\<close>

fun rd :: "nat \<Rightarrow> byte list option list \<Rightarrow> byte list option \<times> byte list option list" where
  "rd k [] = (Some [], [])"
| "rd k (None # rs) = (None, rs)"
| "rd k (Some c # rs) = (if length c \<le> k then (Some c, rs) else (Some (take k c), Some (drop k c) # rs))"

definition pending :: "byte list option list \<Rightarrow> nat" where
  "pending rs = sum_list (map (\<lambda>r. case r of None \<Rightarrow> 0 | Some c \<Rightarrow> length c) rs)"

lemma rd_pending: "rd k rs = (Some c, rs') \<Longrightarrow> c \<noteq> [] \<Longrightarrow> pending rs' < pending rs"
  by (induction k rs rule: rd.induct) (auto simp: pending_def split: if_splits)

section \<open>cat\<close>

text \<open>The output and whether it ended with an error; \<open>write\<close> is taken to succeed.\<close>

function cat :: "byte list option list \<Rightarrow> byte list \<times> bool" where
  "cat rs =
     (case rd 512 rs of
        (None, _) \<Rightarrow> ([], True)
      | (Some c, rs') \<Rightarrow> if c = [] then ([], False) else let (out, err) = cat rs' in (c @ out, err))"
  by pat_completeness auto
termination
  by (relation "measure pending") (auto dest: rd_pending [OF sym])

section \<open>wc\<close>

record wc_st =
  wc_l :: nat
  wc_w :: nat
  wc_c :: nat
  inword :: bool

definition wc_char :: "byte \<Rightarrow> wc_st \<Rightarrow> wc_st" where
  "wc_char x s =
     (let s = s\<lparr>wc_c := wc_c s + 1\<rparr>;
          s = (if x = 10 then s\<lparr>wc_l := wc_l s + 1\<rparr> else s)
      in if strchr [32, 13, 9, 10, 11] x \<noteq> None then s\<lparr>inword := False\<rparr>
         else if \<not> inword s then s\<lparr>wc_w := wc_w s + 1, inword := True\<rparr>
         else s)"

function wc_loop :: "byte list option list \<Rightarrow> wc_st \<Rightarrow> wc_st option" where
  "wc_loop rs s =
     (case rd 512 rs of
        (None, _) \<Rightarrow> None
      | (Some c, rs') \<Rightarrow> if c = [] then Some s else wc_loop rs' (fold wc_char c s))"
  by pat_completeness auto
termination
  by (relation "measure (\<lambda>(rs, s). pending rs)") (auto dest: rd_pending [OF sym])

definition wc :: "byte list option list \<Rightarrow> (nat \<times> nat \<times> nat) option" where
  "wc rs = map_option (\<lambda>s. (wc_l s, wc_w s, wc_c s)) (wc_loop rs \<lparr>wc_l = 0, wc_w = 0, wc_c = 0, inword = False\<rparr>)"

section \<open>grep\<close>

text \<open>The inner loop: the lines of the buffer from \<open>p\<close> on.  The result is what is written and what is left from \<open>p\<close> on.\<close>

function grep_lines :: "byte list \<Rightarrow> byte list \<Rightarrow> byte list \<times> byte list" where
  "grep_lines pattern p =
     (case strchr (takeWhile (\<lambda>c. c \<noteq> 0) p) 10 of
        None \<Rightarrow> ([], p)
      | Some i \<Rightarrow> let (out, rest) = grep_lines pattern (drop (i + 1) p)
                  in ((if match pattern (take i p) then take (i + 1) p else []) @ out, rest))"
  by pat_completeness auto
termination
proof (relation "measure (\<lambda>(pattern, p). length p)", goal_cases)
  case (2 pattern p i)
  then have "p \<noteq> []" by (auto simp: strchr_def)
  then show ?case by simp
qed simp

function grep :: "byte list \<Rightarrow> byte list \<Rightarrow> byte list option list \<Rightarrow> byte list" where
  "grep pattern buf rs =
     (case rd (1024 - length buf - 1) rs of
        (None, _) \<Rightarrow> []
      | (Some c, rs') \<Rightarrow>
          if c = [] then []
          else let b = buf @ c;
                   (out, p) = grep_lines pattern b
               in out @ grep pattern (if length p = length b then [] else p) rs')"
  by pat_completeness auto
termination
  by (relation "measure (\<lambda>(pattern, buf, rs). pending rs)") (auto dest: rd_pending [OF sym])

declare cat.simps [simp del] wc_loop.simps [simp del] grep_lines.simps [simp del] grep.simps [simp del]

section \<open>wc counts lines, words and bytes\<close>

definition is_blank :: "byte \<Rightarrow> bool" where "is_blank x \<longleftrightarrow> x \<in> {32, 13, 9, 10, 11}"

text \<open>A word starts at a byte that is not blank, at the start or behind a blank.\<close>

definition word_starts :: "byte list \<Rightarrow> nat list" where
  "word_starts s = filter (\<lambda>i. \<not> is_blank (s ! i) \<and> (i = 0 \<or> is_blank (s ! (i - 1)))) [0..<length s]"

lemma word_starts_snoc:
  "word_starts (s @ [x]) = word_starts s @ (if \<not> is_blank x \<and> (s = [] \<or> is_blank (last s)) then [length s] else [])"
proof -
  have "filter (\<lambda>i. \<not> is_blank ((s @ [x]) ! i) \<and> (i = 0 \<or> is_blank ((s @ [x]) ! (i - 1)))) [0..<length s] = word_starts s"
    unfolding word_starts_def by (rule filter_cong) (auto simp: nth_append)
  moreover have "s \<noteq> [] \<Longrightarrow> (s @ [x]) ! (length s - 1) = last s" by (simp add: nth_append last_conv_nth)
  ultimately show ?thesis by (auto simp: word_starts_def)
qed

lemma wc_char_fold:
  "fold wc_char s \<lparr>wc_l = 0, wc_w = 0, wc_c = 0, inword = False\<rparr> =
     \<lparr>wc_l = count_list s 10, wc_w = length (word_starts s), wc_c = length s, inword = (s \<noteq> [] \<and> \<not> is_blank (last s))\<rparr>"
proof (induction s rule: rev_induct)
  case Nil
  show ?case by (simp add: word_starts_def)
next
  case (snoc x s)
  have "strchr [32, 13, 9, 10, 11] x \<noteq> None \<longleftrightarrow> is_blank x" by (auto simp: strchr_def is_blank_def split: if_splits)
  then show ?case using snoc by (auto simp: wc_char_def Let_def word_starts_snoc is_blank_def)
qed

lemma wc_loop_pieces:
  "\<forall>c\<in>set cs. c \<noteq> [] \<Longrightarrow> wc_loop (map Some cs @ [None]) s = None \<and> wc_loop (map Some cs) s = Some (fold wc_char (concat cs) s)"
proof (induction "length (concat cs)" arbitrary: cs s rule: less_induct)
  case less
  show ?case
  proof (cases cs)
    case Nil
    then show ?thesis by (simp add: wc_loop.simps)
  next
    case (Cons c ds)
    show ?thesis
    proof (cases "length c \<le> 512")
      case True
      then show ?thesis using less.hyps [of ds "fold wc_char c s"] less.prems
        by (subst (1 2) wc_loop.simps) (simp add: Cons)
    next
      case False
      then have "fold wc_char (concat cs) s = fold wc_char (concat (drop 512 c # ds)) (fold wc_char (take 512 c) s)"
        using fold_append [of wc_char "take 512 c" "drop 512 c"] by (simp add: Cons)
      then show ?thesis using False less.hyps [of "drop 512 c # ds" "fold wc_char (take 512 c) s"] less.prems
        by (subst (1 2) wc_loop.simps) (simp add: Cons)
    qed
  qed
qed

text \<open>
  \<open>wc\<close> counts what it should, however the input is cut into pieces: the line feeds, the words, that is, the
  places where a byte that is not blank follows a blank or the start, and the bytes.  When a read fails it
  reports the error.
\<close>

lemma wc_counts:
  assumes "\<forall>c\<in>set cs. c \<noteq> []"
  shows "wc (map Some cs) = Some (count_list (concat cs) 10, length (word_starts (concat cs)), length (concat cs)) \<and>
    wc (map Some cs @ [None]) = None"
  using wc_loop_pieces [OF assms] by (simp add: wc_def wc_char_fold)

lemma wc_counts_witness: "wc [Some [97, 32], Some [98, 98, 10]] = Some (1, 2, 5)"
  using wc_counts [of "[[97, 32], [98, 98, 10]]"] by (simp add: word_starts_def is_blank_def)

section \<open>grep prints the lines that match\<close>

function full_lines :: "byte list \<Rightarrow> byte list list" where
  "full_lines s = (if 10 \<in> set s then takeWhile (\<lambda>c. c \<noteq> 10) s # full_lines (tl (dropWhile (\<lambda>c. c \<noteq> 10) s)) else [])"
  by pat_completeness auto
termination
proof (relation "measure length", goal_cases)
  case (2 s)
  then have "length (dropWhile (\<lambda>c. c \<noteq> 10) s) \<le> length s" "s \<noteq> []" by (auto simp: length_dropWhile_le)
  then show ?case by (cases s) auto
qed simp

declare full_lines.simps [simp del]

abbreviation unlines :: "byte list list \<Rightarrow> byte list" where
  "unlines ls \<equiv> concat (map (\<lambda>l. l @ [10]) ls)"

lemma full_lines_line [simp]: "10 \<notin> set l \<Longrightarrow> full_lines (l @ 10 # s) = l # full_lines s"
proof -
  assume l: "10 \<notin> set l"
  then have "takeWhile (\<lambda>c. c \<noteq> 10) (l @ 10 # s) = l" "dropWhile (\<lambda>c. c \<noteq> 10) (l @ 10 # s) = 10 # s" by (induction l) auto
  then show ?thesis by (subst full_lines.simps) simp
qed

lemma full_lines_none [simp]: "10 \<notin> set s \<Longrightarrow> full_lines s = []"
  by (simp add: full_lines.simps)

lemma full_lines_append: "\<forall>l\<in>set ls. 10 \<notin> set l \<Longrightarrow> full_lines (unlines ls @ s) = ls @ full_lines s"
  by (induction ls) auto

lemma lines_split_ex: "\<exists>ls r. s = unlines ls @ r \<and> (\<forall>l\<in>set ls. 10 \<notin> set l) \<and> 10 \<notin> set r"
proof (induction s rule: length_induct)
  case (1 s)
  show ?case
  proof (cases "10 \<in> set s")
    case True
    then obtain l t where s: "s = l @ 10 # t" "10 \<notin> set l" using split_list_first by metis
    then obtain ls r where "t = unlines ls @ r" "\<forall>l\<in>set ls. 10 \<notin> set l" "10 \<notin> set r"
      using 1 [rule_format, of t] by (auto simp: s)
    then show ?thesis using s by (intro exI [of _ "l # ls"] exI [of _ r]) auto
  qed (rule exI [of _ "[]"], rule exI [of _ s], simp)
qed

lemma lines_split:
  obtains ls r where "s = unlines ls @ r" "\<forall>l\<in>set ls. 10 \<notin> set l" "10 \<notin> set r"
  using lines_split_ex by blast

lemma find_line: "10 \<notin> set l \<Longrightarrow> find_idx (\<lambda>x. x = 10) (l @ 10 # t) = Some (length l)"
  by (induction l) auto

lemma grep_lines_spec:
  "0 \<notin> set (unlines ls @ r) \<Longrightarrow> \<forall>l\<in>set ls. 10 \<notin> set l \<Longrightarrow> 10 \<notin> set r \<Longrightarrow>
   grep_lines pat (unlines ls @ r) = (unlines (filter (match pat) ls), r)"
proof (induction ls)
  case Nil
  then have "takeWhile (\<lambda>c. c \<noteq> 0) r = r" by (auto simp: takeWhile_eq_all_conv)
  moreover have "strchr r 10 = None" using Nil by (auto simp: strchr_def find_idx_None)
  ultimately show ?case by (simp add: grep_lines.simps [of pat r] del: takeWhile_eq_all_conv)
next
  case (Cons l ls)
  let ?t = "unlines ls @ r"
  have e: "unlines (l # ls) @ r = l @ 10 # ?t" by simp
  have "takeWhile (\<lambda>c. c \<noteq> 0) (l @ 10 # ?t) = l @ 10 # ?t" using Cons.prems(1) unfolding e by (auto simp: takeWhile_eq_all_conv)
  then have "strchr (takeWhile (\<lambda>c. c \<noteq> 0) (l @ 10 # ?t)) 10 = Some (length l)" using Cons.prems(2) by (simp add: strchr_def find_line)
  then show ?case unfolding e using Cons by (subst grep_lines.simps) simp
qed

lemma grep_end: "grep pat buf [] = []" "grep pat buf [Some []] = []"
  by (subst grep.simps, simp)+

lemma grep_loop_file:
  assumes "0 \<notin> set (buf @ s)" "10 \<notin> set buf" "length buf < 1023" "\<forall>l\<in>set (full_lines (buf @ s)). length l < 1023"
  shows "grep pat buf [Some s] = unlines (filter (match pat) (full_lines (buf @ s)))"
  using assms
proof (induction "length s" arbitrary: buf s rule: less_induct)
  case less
  define k where "k = 1023 - length buf"
  have k: "0 < k" "1024 - length buf - 1 = k" using less.prems(3) by (auto simp: k_def)
  show ?case
  proof (cases "length s \<le> k")
    case True
    obtain ls r where b: "buf @ s = unlines ls @ r" "\<forall>l\<in>set ls. 10 \<notin> set l" "10 \<notin> set r" by (rule lines_split)
    have "grep_lines pat (buf @ s) = (unlines (filter (match pat) ls), r)" "full_lines (buf @ s) = ls"
      using less.prems(1) grep_lines_spec [of ls r pat] full_lines_append [of ls r] b by auto
    then show ?thesis using True k less.prems(2) by (cases "s = []") (simp_all add: grep_end grep.simps [of pat buf "[Some s]"])
  next
    case False
    let ?b = "buf @ take k s" and ?s = "drop k s"
    have s: "buf @ s = ?b @ ?s" "length ?b = 1023" using False k less.prems(3) by (auto simp: k_def)
    obtain ls r where b: "?b = unlines ls @ r" "\<forall>l\<in>set ls. 10 \<notin> set l" "10 \<notin> set r" by (rule lines_split)
    have "0 \<notin> set ?b" using less.prems(1) by (auto dest: in_set_takeD)
    then have g: "grep_lines pat ?b = (unlines (filter (match pat) ls), r)" using grep_lines_spec [of ls r pat] b by simp
    have f: "full_lines (buf @ s) = ls @ full_lines (r @ ?s)" unfolding s(1) b(1) append_assoc by (rule full_lines_append [OF b(2)])
    let ?r = "if length r = length ?b then [] else r"
    have e: "grep pat buf [Some s] = unlines (filter (match pat) ls) @ grep pat ?r [Some ?s]"
      using False k g by (subst grep.simps) (auto simp: Let_def)
    have "full_lines (?r @ ?s) = full_lines (r @ ?s)"
    proof (cases "length r = length ?b")
      case True
      then have "ls = []" using b(1) s(2) by (cases ls) (auto dest: arg_cong [where f = length])
      show ?thesis
      proof (cases "10 \<in> set ?s")
        case True
        then obtain l t where l: "?s = l @ 10 # t" "10 \<notin> set l" using split_list_first by metis
        then have "full_lines (r @ ?s) = (r @ l) # full_lines t" using b(3) full_lines_line [of "r @ l" t] by simp
        then show ?thesis using less.prems(4) f \<open>length r = _\<close> s(2) by simp
      qed (use b(3) in auto)
    qed simp
    moreover have "grep pat ?r [Some ?s] = unlines (filter (match pat) (full_lines (?r @ ?s)))"
    proof (rule less.hyps)
      have "set r \<subseteq> set ?b" unfolding b(1) by auto
      then show "0 \<notin> set (?r @ ?s)" using less.prems(1) by (auto dest: in_set_takeD in_set_dropD)
      have "length r \<le> length ?b" unfolding b(1) by simp
      then show "length ?r < 1023" using s(2) by auto
      show "length ?s < length s" using False k by simp
    qed (use b(3) less.prems(4) f calculation in auto)
    ultimately show ?thesis using e f by simp
  qed
qed

text \<open>
  C38.  \<open>grep\<close> on a file prints exactly the lines that match, in order, whatever the positions at which the buffer
  ends inside a line: for a file without zero bytes, whose lines have fewer than 1023 bytes, the output is
  the list of its complete lines that the matcher accepts.
\<close>

theorem grep_prints_matches:
  assumes "0 \<notin> set s" "\<forall>l\<in>set (full_lines s). length l < 1023"
  shows "grep pat [] [Some s] = unlines (filter (match pat) (full_lines s))"
  using grep_loop_file [of "[]" s pat] assms by simp

theorem grep_prints_matches_witness: "grep [94, 97] [] [Some [98, 97, 10, 97, 98, 10, 97]] = [97, 98, 10]"
proof -
  have f: "full_lines [98, 97, 10, 97, 98, 10, 97] = [[98, 97], [97, 98]]"
    using full_lines_append [of "[[98, 97], [97, 98]]" "[97]"] by simp
  have "match [94, 97] [98, 97] = False" "match [94, 97] [97, 98] = True"
    by (simp_all add: match_def caret_def star_def dollar_def dot_def)
  then show ?thesis using grep_prints_matches [of "[98, 97, 10, 97, 98, 10, 97]" "[94, 97]"] by (simp add: f)
qed

text \<open>
  C39.  \<open>grep\<close> loses input that arrives in pieces.  A piece without a line feed, as a pipe or a terminal can
  deliver it, is forgotten when it comes at the start of a line: the output is as if it had never been written, so that the rest of the
  line is matched and printed without its beginning.
\<close>

theorem grep_loses_piece:
  assumes "c \<noteq> []" "length c < 1024" "10 \<notin> set c"
  shows "grep pat [] (Some c # rs) = grep pat [] rs"
proof -
  have "10 \<notin> set (takeWhile (\<lambda>c. c \<noteq> 0) c)" using assms(3) by (auto dest: set_takeWhileD)
  then have "strchr (takeWhile (\<lambda>c. c \<noteq> 0) c) 10 = None" by (auto simp: strchr_def find_idx_None)
  then have "grep_lines pat c = ([], c)" by (simp add: grep_lines.simps [of pat c])
  then show ?thesis using assms(1,2) by (subst grep.simps) (simp add: Let_def)
qed

theorem grep_loses_piece_witness: "grep [94, 98] [] [Some [97], Some [98, 10]] = [98, 10]"
proof -
  have f: "full_lines [98, 10] = [[98]]" using full_lines_append [of "[[98]]" "[]"] by simp
  have "match [94, 98] [98]" by (simp add: match_def caret_def star_def dollar_def dot_def)
  then have "grep [94, 98] [] [Some [98, 10]] = [98, 10]" using grep_loop_file [of "[]" "[98, 10]" "[94, 98]"] by (simp add: f)
  then show ?thesis using grep_loses_piece [of "[97]" "[94, 98]" "[Some [98, 10]]"] by simp
qed

end
