(* ===== verification/Spinlock.thy ===== *)
theory Spinlock
  imports Kalloc
begin

text \<open>
  \<^verbatim>\<open>spinlock.c\<close> with the per-CPU state of \<^verbatim>\<open>proc.h\<close> and \<open>mycpu\<close> of \<^verbatim>\<open>proc.c\<close>.

  The machine has several CPUs.  Code runs on the CPU whose local APIC reports the number
  \<open>me\<close>; that CPU's interrupt flag is \<open>iflag s me\<close>.  A routine of the source is one
  function; \<open>acquire\<close> and \<open>release\<close> are compositions of the pieces between which another
  CPU can run, and the relation \<open>lock_step\<close> interleaves those pieces, so that mutual
  exclusion is proved for the code's own steps and not for atomic operations.
\<close>

section \<open>CPUs and locks\<close>

record cpu =
  apicid :: byte
  started :: bool
  ncli :: int
  intena :: bool
  cpu_proc :: "nat option"     \<comment> \<open>\<open>proc\<close>, an index of the process table\<close>

record spinlock =
  locked :: u32
  lk_name :: string
  lk_cpu :: "nat option"       \<comment> \<open>\<open>cpu\<close>, an index of \<open>cpus\<close>\<close>
  pcs :: "u32 list"

record smp =
  cpus :: "cpu list"           \<comment> \<open>the first \<open>ncpu\<close> entries\<close>
  iflag :: "byte \<Rightarrow> bool"       \<comment> \<open>\<open>FL_IF\<close> in the flags of each CPU\<close>

definition initlock :: "string \<Rightarrow> spinlock \<Rightarrow> spinlock" where
  "initlock nm lk = lk\<lparr>lk_name := nm, locked := 0, lk_cpu := None\<rparr>"

definition mycpu :: "byte \<Rightarrow> smp \<Rightarrow> nat res" where
  "mycpu me s =
     (if iflag s me then Panic (''mycpu called with interrupts enabled'' @ [CHR 0x0A])
      else case find_idx (\<lambda>c. apicid c = me) (cpus s) of
             Some i \<Rightarrow> Ok i
           | None \<Rightarrow> Panic (''unknown apicid'' @ [CHR 0x0A]))"

definition cpuid :: "byte \<Rightarrow> smp \<Rightarrow> nat res" where
  "cpuid me s = mycpu me s"

definition pushcli :: "byte \<Rightarrow> smp \<Rightarrow> smp res" where
  "pushcli me s =
     (let eflags = iflag s me;
          s = s\<lparr>iflag := (iflag s)(me := False)\<rparr>
      in bnd (mycpu me s) (\<lambda>c.
         let s = (if ncli (cpus s ! c) = 0
                  then s\<lparr>cpus := (cpus s)[c := (cpus s ! c)\<lparr>intena := eflags\<rparr>]\<rparr> else s)
         in Ok (s\<lparr>cpus := (cpus s)[c := (cpus s ! c)\<lparr>ncli := ncli (cpus s ! c) + 1\<rparr>]\<rparr>)))"

definition popcli :: "byte \<Rightarrow> smp \<Rightarrow> smp res" where
  "popcli me s =
     (if iflag s me then Panic ''popcli - interruptible''
      else bnd (mycpu me s) (\<lambda>c.
        let s = s\<lparr>cpus := (cpus s)[c := (cpus s ! c)\<lparr>ncli := ncli (cpus s ! c) - 1\<rparr>]\<rparr>
        in if ncli (cpus s ! c) < 0 then Panic ''popcli''
           else if ncli (cpus s ! c) = 0 \<and> intena (cpus s ! c)
           then Ok (s\<lparr>iflag := (iflag s)(me := True)\<rparr>)
           else Ok s))"

definition holding :: "byte \<Rightarrow> smp \<Rightarrow> spinlock \<Rightarrow> (bool \<times> smp) res" where
  "holding me s lk =
     bnd (pushcli me s) (\<lambda>s.
     bnd (mycpu me s) (\<lambda>c.
     let r = (locked lk \<noteq> 0 \<and> lk_cpu lk = Some c) in
     bnd (popcli me s) (\<lambda>s. Ok (r, s))))"

definition myproc :: "byte \<Rightarrow> smp \<Rightarrow> (nat option \<times> smp) res" where
  "myproc me s =
     bnd (pushcli me s) (\<lambda>s.
     bnd (mycpu me s) (\<lambda>c.
     let p = cpu_proc (cpus s ! c) in
     bnd (popcli me s) (\<lambda>s. Ok (p, s))))"

text \<open>
  \<open>getcallerpcs\<close> follows the saved frame pointers in kernel memory; \<open>i\<close> counts the entries
  still to be filled.
\<close>

fun caller_pcs :: "mem \<Rightarrow> u32 \<Rightarrow> nat \<Rightarrow> u32 list" where
  "caller_pcs m ebp 0 = []"
| "caller_pcs m ebp (Suc i) =
     (if ebp = 0 \<or> ebp < KERNBASE \<or> ebp = 0xffffffff then replicate (Suc i) 0
      else load32 m (ebp + 4) # caller_pcs m (load32 m ebp) i)"

definition getcallerpcs :: "mem \<Rightarrow> u32 \<Rightarrow> u32 list" where
  "getcallerpcs m v = caller_pcs m (v - 8) 10"

text \<open>
  \<open>acquire\<close>: its entry (interrupts off, check for a second acquisition), one \<open>xchg\<close>, and the
  bookkeeping after the lock is taken; \<open>m\<close> and \<open>v\<close> are kernel memory and the address of
  the argument, for \<open>getcallerpcs\<close>.
\<close>

definition acquire_enter :: "byte \<Rightarrow> smp \<Rightarrow> spinlock \<Rightarrow> smp res" where
  "acquire_enter me s lk =
     bnd (pushcli me s) (\<lambda>s.
     bnd (holding me s lk) (\<lambda>(h, s).
     if h then Panic ''acquire'' else Ok s))"

definition xchg :: "spinlock \<Rightarrow> u32 \<Rightarrow> u32 \<times> spinlock" where
  "xchg lk new = (locked lk, lk\<lparr>locked := new\<rparr>)"

definition acquire_record :: "byte \<Rightarrow> mem \<Rightarrow> u32 \<Rightarrow> smp \<Rightarrow> spinlock \<Rightarrow> spinlock res" where
  "acquire_record me m v s lk =
     bnd (mycpu me s) (\<lambda>c. Ok (lk\<lparr>lk_cpu := Some c, pcs := getcallerpcs m v\<rparr>))"

definition acquire :: "byte \<Rightarrow> mem \<Rightarrow> u32 \<Rightarrow> smp \<Rightarrow> spinlock \<Rightarrow> (smp \<times> spinlock) res" where
  "acquire me m v s lk =
     bnd (acquire_enter me s lk) (\<lambda>s.
     let (old, lk) = xchg lk 1
     in if old \<noteq> 0 then Spins
        else bnd (acquire_record me m v s lk) (\<lambda>lk. Ok (s, lk)))"

text \<open>\<open>release\<close>: the check and the reset of the debugging fields, then the store that frees the lock.\<close>

definition release_check :: "byte \<Rightarrow> smp \<Rightarrow> spinlock \<Rightarrow> (smp \<times> spinlock) res" where
  "release_check me s lk =
     bnd (holding me s lk) (\<lambda>(h, s).
     if \<not> h then Panic ''release''
     else Ok (s, lk\<lparr>pcs := (pcs lk)[0 := 0], lk_cpu := None\<rparr>))"

definition release_store :: "byte \<Rightarrow> smp \<Rightarrow> spinlock \<Rightarrow> (smp \<times> spinlock) res" where
  "release_store me s lk =
     (let lk = lk\<lparr>locked := 0\<rparr> in bnd (popcli me s) (\<lambda>s. Ok (s, lk)))"

definition release :: "byte \<Rightarrow> smp \<Rightarrow> spinlock \<Rightarrow> (smp \<times> spinlock) res" where
  "release me s lk = bnd (release_check me s lk) (\<lambda>(s, lk). release_store me s lk)"

section \<open>Nesting of pushcli and popcli\<close>

definition cpu_of :: "byte \<Rightarrow> smp \<Rightarrow> nat option" where
  "cpu_of me s = find_idx (\<lambda>c. apicid c = me) (cpus s)"

text \<open>The state of a CPU between instructions of the kernel: the depth is not negative, and
  inside a \<open>pushcli\<close> section interrupts are off.\<close>

definition cpu_ok :: "byte \<Rightarrow> smp \<Rightarrow> bool" where
  "cpu_ok me s \<longleftrightarrow> (\<exists>c. cpu_of me s = Some c \<and> 0 \<le> ncli (cpus s ! c) \<and>
     (0 < ncli (cpus s ! c) \<longrightarrow> \<not> iflag s me))"

fun repeat :: "nat \<Rightarrow> ('s \<Rightarrow> 's res) \<Rightarrow> 's \<Rightarrow> 's res" where
  "repeat 0 f s = Ok s"
| "repeat (Suc n) f s = bnd (f s) (repeat n f)"

lemma find_idx_update:
  assumes "find_idx P xs = Some i" "P y"
  shows "find_idx P (xs[i := y]) = Some i"
  using assms by (auto simp: find_idx_Some nth_list_update)

lemma repeat_Suc_right: "repeat (Suc n) f s = bnd (repeat n f s) f"
proof (induction n arbitrary: s)
  case (Suc n)
  have "repeat (Suc (Suc n)) f s = bnd (f s) (repeat (Suc n) f)" by simp
  also have "\<dots> = bnd (f s) (\<lambda>s. bnd (repeat n f s) f)" using Suc.IH by metis
  finally show ?case by (simp add: bnd_assoc)
next
  case 0
  show ?case by (cases "f s") auto
qed

lemma mycpu_cpu_of: "\<not> iflag s me \<Longrightarrow> cpu_of me s = Some c \<Longrightarrow> mycpu me s = Ok c"
  by (simp add: mycpu_def cpu_of_def)

lemma cpu_of_less: "cpu_of me s = Some c \<Longrightarrow> c < length (cpus s)"
  by (simp add: cpu_of_def find_idx_less)

lemma cpu_of_update:
  "cpu_of me s = Some c \<Longrightarrow> apicid x = apicid (cpus s ! c) \<Longrightarrow> cs = (cpus s)[c := x] \<Longrightarrow>
   find_idx (\<lambda>c. apicid c = me) cs = Some c"
  by (auto simp: cpu_of_def intro!: find_idx_update dest: find_idx_holds)

definition after_push :: "byte \<Rightarrow> nat \<Rightarrow> smp \<Rightarrow> smp" where
  "after_push me c s =
     s\<lparr>iflag := (iflag s)(me := False),
       cpus := (cpus s)[c := (cpus s ! c)\<lparr>ncli := ncli (cpus s ! c) + 1,
         intena := (if ncli (cpus s ! c) = 0 then iflag s me else intena (cpus s ! c))\<rparr>]\<rparr>"

lemma pushcli_spec: "cpu_of me s = Some c \<Longrightarrow> pushcli me s = Ok (after_push me c s)"
  using cpu_of_less [of me s c]
  by (cases "cpus s ! c") (simp add: pushcli_def mycpu_def cpu_of_def Let_def after_push_def)

lemma cpu_of_after_push: "cpu_of me s = Some c \<Longrightarrow> cpu_of me (after_push me c s) = Some c"
  by (auto simp: after_push_def cpu_of_def intro!: find_idx_update dest: find_idx_holds)

lemma cpu_ok_after_push:
  assumes "cpu_of me s = Some c" "cpu_ok me s"
  shows "cpu_ok me (after_push me c s)" "0 < ncli (cpus (after_push me c s) ! c)"
    "\<not> iflag (after_push me c s) me"
  using assms cpu_of_after_push [OF assms(1)] cpu_of_less [OF assms(1)]
  by (auto simp: cpu_ok_def) (auto simp: after_push_def)

text \<open>A matched pair restores everything except, at depth 0, the saved flag.\<close>

lemma push_pop:
  assumes c: "cpu_of me s = Some c" and ok: "cpu_ok me s"
  shows "popcli me (after_push me c s) =
    Ok (s\<lparr>cpus := (cpus s)[c := (cpus s ! c)\<lparr>
      intena := (if ncli (cpus s ! c) = 0 then iflag s me else intena (cpus s ! c))\<rparr>]\<rparr>)"
proof -
  have "mycpu me (after_push me c s) = Ok c"
    using cpu_of_after_push [OF c] by (intro mycpu_cpu_of) (auto simp: after_push_def)
  moreover have "c < length (cpus s)" using cpu_of_less [OF c] .
  moreover have "(iflag s)(me := False) = iflag s" if "\<not> iflag s me"
    using that by (auto simp: fun_eq_iff)
  moreover have "(iflag s)(me := True) = iflag s" if "iflag s me"
    using that by (auto simp: fun_eq_iff)
  ultimately show ?thesis
    using ok c by (cases "cpus s ! c") (auto simp: popcli_def Let_def after_push_def cpu_ok_def)
qed

lemma push_pop_nested:
  assumes "cpu_of me s = Some c" "cpu_ok me s" "0 < ncli (cpus s ! c)"
  shows "bnd (repeat n (pushcli me) s) (repeat n (popcli me)) = Ok s"
  using assms
proof (induction n arbitrary: s)
  case (Suc n)
  define s1 where "s1 = after_push me c s"
  have "repeat (Suc n) (pushcli me) s = repeat n (pushcli me) s1"
    using pushcli_spec Suc.prems by (simp add: s1_def)
  moreover have "bnd (repeat n (pushcli me) s1) (repeat n (popcli me)) = Ok s1"
    using Suc.prems cpu_ok_after_push cpu_of_after_push unfolding s1_def by (intro Suc.IH) auto
  moreover have "popcli me s1 = Ok s"
    using push_pop [of me s c] Suc.prems by (simp add: s1_def)
  moreover have "repeat (Suc n) (popcli me) = (\<lambda>s. bnd (repeat n (popcli me) s) (popcli me))"
    by (rule ext) (rule repeat_Suc_right)
  ultimately show ?case by (metis bnd.simps(1) bnd_assoc)
qed simp

lemma cpu_ok_repeat:
  "cpu_ok me s \<Longrightarrow> \<exists>t. repeat k (pushcli me) s = Ok t \<and> cpu_ok me t \<and> (0 < k \<longrightarrow> \<not> iflag t me)"
proof (induction k arbitrary: s)
  case (Suc k)
  then obtain c where c: "cpu_of me s = Some c" by (auto simp: cpu_ok_def)
  note push = pushcli_spec [OF c] cpu_ok_after_push [OF c Suc.prems]
  from Suc.IH [OF push(2)] push(1,4) show ?case
    by (cases k) (auto simp: push)
qed simp

text \<open>
  \<open>pushcli\<close> and \<open>popcli\<close> nest: on a CPU in a consistent state, \<open>n\<close> \<open>pushcli\<close> followed by
  \<open>n\<close> \<open>popcli\<close> succeed, interrupts are off after each of the first \<open>n\<close>, and at the end the
  interrupt flags and all nesting depths are what they were.
\<close>

lemma pushcli_popcli_nest:
  assumes "cpu_ok me s"
  shows "(\<exists>t. bnd (repeat n (pushcli me) s) (repeat n (popcli me)) = Ok t \<and>
      iflag t = iflag s \<and> map ncli (cpus t) = map ncli (cpus s)) \<and>
    (\<forall>k. 0 < k \<longrightarrow> (\<exists>t. repeat k (pushcli me) s = Ok t \<and> \<not> iflag t me))"
proof
  from assms obtain c where c: "cpu_of me s = Some c" by (auto simp: cpu_ok_def)
  show "\<exists>t. bnd (repeat n (pushcli me) s) (repeat n (popcli me)) = Ok t \<and>
      iflag t = iflag s \<and> map ncli (cpus t) = map ncli (cpus s)"
  proof (cases n)
    case (Suc k)
    define s1 where "s1 = after_push me c s"
    have "repeat n (popcli me) = (\<lambda>s. bnd (repeat k (popcli me) s) (popcli me))"
      unfolding Suc by (rule ext) (rule repeat_Suc_right)
    moreover have "bnd (repeat k (pushcli me) s1) (repeat k (popcli me)) = Ok s1"
      using push_pop_nested cpu_ok_after_push cpu_of_after_push c assms unfolding s1_def by blast
    ultimately have "bnd (repeat n (pushcli me) s) (repeat n (popcli me)) = popcli me s1"
      using pushcli_spec [OF c] by (simp add: Suc s1_def [symmetric] bnd_assoc [symmetric])
    moreover have "map ncli ((cpus s)[c := (cpus s ! c)\<lparr>intena := b\<rparr>]) = map ncli (cpus s)" for b
      using cpu_of_less [OF c] by (simp add: map_update list_update_same_conv)
    ultimately show ?thesis using push_pop [OF c assms] by (simp add: s1_def)
  qed simp
  show "\<forall>k. 0 < k \<longrightarrow> (\<exists>t. repeat k (pushcli me) s = Ok t \<and> \<not> iflag t me)"
    using cpu_ok_repeat [OF assms] by blast
qed

definition two_cpus :: smp where
  "two_cpus = \<lparr>cpus = [\<lparr>apicid = 0, started = True, ncli = 0, intena = False, cpu_proc = Some 3\<rparr>,
                       \<lparr>apicid = 4, started = True, ncli = 0, intena = False, cpu_proc = None\<rparr>],
     iflag = (\<lambda>_. True)\<rparr>"

lemma two_cpus_ok: "cpu_ok 4 two_cpus"
  by (simp add: cpu_ok_def cpu_of_def two_cpus_def)

lemma pushcli_popcli_nest_witness:
  "\<exists>t. bnd (repeat 2 (pushcli 4) two_cpus) (repeat 2 (popcli 4)) = Ok t \<and> iflag t 4"
  using pushcli_popcli_nest [OF two_cpus_ok, of 2] by (auto simp: two_cpus_def)

section \<open>Mutual exclusion\<close>

text \<open>Where a CPU is in \<open>acquire\<close> or \<open>release\<close> of one lock.\<close>

datatype lock_pc = Idle | Spinning | Taken | Inside | Leaving

record lock_sys =
  ls_smp :: smp
  ls_lk :: spinlock
  ls_pc :: "byte \<Rightarrow> lock_pc"

text \<open>
  One step of one CPU; the memory \<open>m\<close> and the stack address \<open>v\<close> that \<open>getcallerpcs\<close> reads
  are arbitrary.
\<close>

inductive lock_step :: "byte \<Rightarrow> lock_sys \<Rightarrow> lock_sys \<Rightarrow> bool" where
  enter: "ls_pc s me = Idle \<Longrightarrow> acquire_enter me (ls_smp s) (ls_lk s) = Ok p \<Longrightarrow>
    lock_step me s (s\<lparr>ls_smp := p, ls_pc := (ls_pc s)(me := Spinning)\<rparr>)"
| spin: "ls_pc s me = Spinning \<Longrightarrow> xchg (ls_lk s) 1 = (old, l) \<Longrightarrow> old \<noteq> 0 \<Longrightarrow>
    lock_step me s (s\<lparr>ls_lk := l\<rparr>)"
| take: "ls_pc s me = Spinning \<Longrightarrow> xchg (ls_lk s) 1 = (0, l) \<Longrightarrow>
    lock_step me s (s\<lparr>ls_lk := l, ls_pc := (ls_pc s)(me := Taken)\<rparr>)"
| record_owner: "ls_pc s me = Taken \<Longrightarrow> acquire_record me m v (ls_smp s) (ls_lk s) = Ok l \<Longrightarrow>
    lock_step me s (s\<lparr>ls_lk := l, ls_pc := (ls_pc s)(me := Inside)\<rparr>)"
| check: "ls_pc s me = Inside \<Longrightarrow> release_check me (ls_smp s) (ls_lk s) = Ok (p, l) \<Longrightarrow>
    lock_step me s (s\<lparr>ls_smp := p, ls_lk := l, ls_pc := (ls_pc s)(me := Leaving)\<rparr>)"
| store: "ls_pc s me = Leaving \<Longrightarrow> release_store me (ls_smp s) (ls_lk s) = Ok (p, l) \<Longrightarrow>
    lock_step me s (s\<lparr>ls_smp := p, ls_lk := l, ls_pc := (ls_pc s)(me := Idle)\<rparr>)"

inductive lock_reach :: "lock_sys \<Rightarrow> bool" where
  start: "(\<And>me c. cpu_of me p = Some c \<Longrightarrow> cpu_ok me p) \<Longrightarrow>
    lock_reach \<lparr>ls_smp = p, ls_lk = initlock nm l, ls_pc = (\<lambda>_. Idle)\<rparr>"
| step: "lock_reach s \<Longrightarrow> lock_step me s t \<Longrightarrow> lock_reach t"

definition owns :: "lock_pc \<Rightarrow> bool" where
  "owns x \<longleftrightarrow> x = Taken \<or> x = Inside \<or> x = Leaving"

text \<open>
  The invariant: the lock word is set exactly while some CPU owns the lock, at most one CPU
  does, and the \<open>cpu\<close> field names the CPU that is inside, if any.
\<close>

definition lock_inv :: "lock_sys \<Rightarrow> bool" where
  "lock_inv s \<longleftrightarrow>
     (locked (ls_lk s) \<noteq> 0 \<longleftrightarrow> (\<exists>me. owns (ls_pc s me))) \<and>
     (\<forall>a b. owns (ls_pc s a) \<and> owns (ls_pc s b) \<longrightarrow> a = b) \<and>
     (\<forall>c. lk_cpu (ls_lk s) = Some c \<longleftrightarrow> (\<exists>me. ls_pc s me = Inside \<and> cpu_of me (ls_smp s) = Some c)) \<and>
     (\<forall>me c. cpu_of me (ls_smp s) = Some c \<longrightarrow> cpu_ok me (ls_smp s)) \<and>
     (\<forall>me. ls_pc s me \<noteq> Idle \<longrightarrow>
        (\<exists>c. cpu_of me (ls_smp s) = Some c \<and> 0 < ncli (cpus (ls_smp s) ! c)))"

lemma find_idx_map: "find_idx P (map f xs) = find_idx (\<lambda>x. P (f x)) xs"
  by (induction xs) auto

lemma cpu_of_map: "cpu_of me s = find_idx (\<lambda>a. a = me) (map apicid (cpus s))"
  by (simp add: cpu_of_def find_idx_map)

text \<open>Changing the entry of one CPU and its interrupt flag.\<close>

definition touch :: "byte \<Rightarrow> nat \<Rightarrow> bool \<Rightarrow> cpu \<Rightarrow> smp \<Rightarrow> smp" where
  "touch me c b x s = s\<lparr>iflag := (iflag s)(me := b), cpus := (cpus s)[c := x]\<rparr>"

lemma cpu_of_touch:
  assumes "cpu_of me s = Some c" "apicid x = apicid (cpus s ! c)"
  shows "cpu_of y (touch me c b x s) = cpu_of y s"
proof -
  have "map apicid ((cpus s)[c := x]) = map apicid (cpus s)"
    using assms cpu_of_less [OF assms(1)] by (metis list_update_id map_update nth_map)
  then show ?thesis by (simp add: cpu_of_map touch_def)
qed

lemma cpu_of_inj:
  assumes "cpu_of me s = Some c" "cpu_of y s = Some c"
  shows "y = me"
  using find_idx_holds [OF assms(1) [unfolded cpu_of_def]]
    find_idx_holds [OF assms(2) [unfolded cpu_of_def]] by simp

lemma cpu_ok_touch:
  assumes c: "cpu_of me s = Some c" "apicid x = apicid (cpus s ! c)"
    and x: "0 \<le> ncli x" "0 < ncli x \<Longrightarrow> \<not> b" and y: "cpu_of y s = Some d" "cpu_ok y s"
  shows "cpu_ok y (touch me c b x s)"
proof (cases "y = me")
  case True
  then show ?thesis
    using assms cpu_of_touch [OF c, of y b] cpu_of_less [OF c(1)]
    by (simp add: cpu_ok_def) (auto simp: touch_def)
next
  case False
  then have "d \<noteq> c" using cpu_of_inj c y by metis
  with False y show ?thesis
    using cpu_of_touch [OF c, of y b] by (simp add: cpu_ok_def) (auto simp: touch_def)
qed

lemma ncli_touch:
  "cpu_of me s = Some c \<Longrightarrow> cpu_of y s = Some d \<Longrightarrow>
   ncli (cpus (touch me c b x s) ! d) = (if y = me then ncli x else ncli (cpus s ! d))"
  using cpu_of_inj [of me s c y] cpu_of_less [of me s c] by (auto simp: touch_def nth_list_update)

text \<open>The routines in terms of \<open>touch\<close>.\<close>

lemma touch_self: "\<lbrakk>iflag s me = b\<rbrakk> \<Longrightarrow> s\<lparr>cpus := (cpus s)[c := x]\<rparr> = touch me c b x s"
  by (auto simp: touch_def fun_eq_iff)

lemma after_push_touch:
  "after_push me c s = touch me c False ((cpus s ! c)\<lparr>ncli := ncli (cpus s ! c) + 1,
     intena := (if ncli (cpus s ! c) = 0 then iflag s me else intena (cpus s ! c))\<rparr>) s"
  by (simp add: after_push_def touch_def)

lemma pushcli_Ok_cpu: "pushcli me s = Ok t \<Longrightarrow> \<exists>c. cpu_of me s = Some c"
  by (auto simp: pushcli_def mycpu_def cpu_of_def res_iff split: option.splits)

lemma holding_spec:
  assumes "cpu_of me s = Some c" "cpu_ok me s"
  shows "\<exists>x. holding me s lk = Ok (locked lk \<noteq> 0 \<and> lk_cpu lk = Some c, touch me c (iflag s me) x s) \<and>
    apicid x = apicid (cpus s ! c) \<and> ncli x = ncli (cpus s ! c)"
proof -
  have "mycpu me (after_push me c s) = Ok c"
    using assms cpu_of_after_push cpu_ok_after_push by (intro mycpu_cpu_of)
  with pushcli_spec [OF assms(1)] push_pop [OF assms] touch_self [of s me "iflag s me"]
  show ?thesis by (auto simp: holding_def Let_def)
qed

lemma acquire_enter_spec:
  assumes c: "cpu_of me s = Some c" "cpu_ok me s"
  shows "acquire_enter me s lk =
    (if locked lk \<noteq> 0 \<and> lk_cpu lk = Some c then Panic ''acquire'' else Ok (after_push me c s))"
proof -
  let ?t = "after_push me c s"
  note ok = cpu_of_after_push [OF c(1)] cpu_ok_after_push [OF c]
  have "popcli me (after_push me c ?t) = Ok ?t"
    using push_pop [OF ok(1,2)] ok(3) by simp
  moreover have "mycpu me (after_push me c ?t) = Ok c"
    using cpu_of_after_push [OF ok(1)] cpu_ok_after_push [OF ok(1,2)] by (intro mycpu_cpu_of)
  ultimately show ?thesis
    using pushcli_spec [OF c(1)] pushcli_spec [OF ok(1)]
    by (simp add: acquire_enter_def holding_def Let_def)
qed

lemma popcli_spec:
  assumes c: "cpu_of me s = Some c" "cpu_ok me s" and n: "0 < ncli (cpus s ! c)"
  shows "\<exists>b x. popcli me s = Ok (touch me c b x s) \<and> apicid x = apicid (cpus s ! c) \<and>
    ncli x = ncli (cpus s ! c) - 1 \<and> (0 < ncli x \<longrightarrow> \<not> b)"
proof -
  have i: "\<not> iflag s me" using assms by (auto simp: cpu_ok_def)
  have "c < length (cpus s)" using cpu_of_less [OF c(1)] .
  with i mycpu_cpu_of [OF i c(1)] n show ?thesis
    by (intro exI [of _ "ncli (cpus s ! c) = 1 \<and> intena (cpus s ! c)"]
        exI [of _ "(cpus s ! c)\<lparr>ncli := ncli (cpus s ! c) - 1\<rparr>"])
      (auto simp: popcli_def Let_def touch_def fun_upd_idem)
qed

lemmas touch_lemmas = cpu_of_touch cpu_ok_touch ncli_touch

text \<open>The part of the invariant on the CPUs is kept by \<open>touch\<close>.\<close>

definition cpus_inv :: "smp \<Rightarrow> (byte \<Rightarrow> lock_pc) \<Rightarrow> bool" where
  "cpus_inv s pc \<longleftrightarrow> (\<forall>me c. cpu_of me s = Some c \<longrightarrow> cpu_ok me s) \<and>
     (\<forall>me. pc me \<noteq> Idle \<longrightarrow> (\<exists>c. cpu_of me s = Some c \<and> 0 < ncli (cpus s ! c)))"

lemma cpus_inv_touch:
  assumes "cpus_inv s pc" "cpu_of me s = Some c" "apicid x = apicid (cpus s ! c)"
    and "0 \<le> ncli x" "0 < ncli x \<longrightarrow> \<not> b" "pc' = pc(me := l)" "l = Idle \<or> 0 < ncli x"
  shows "cpus_inv (touch me c b x s) pc'"
proof -
  let ?t = "touch me c b x s"
  have of: "cpu_of y ?t = cpu_of y s" for y by (rule cpu_of_touch [OF assms(2,3)])
  have "cpu_ok y ?t" if "cpu_of y s = Some d" for y d
    using assms that cpu_ok_touch [OF assms(2,3)] by (auto simp: cpus_inv_def)
  moreover have "\<exists>d. cpu_of y s = Some d \<and> 0 < ncli (cpus ?t ! d)" if "pc' y \<noteq> Idle" for y
    using assms that ncli_touch [OF assms(2)] by (cases "y = me") (auto simp: cpus_inv_def)
  ultimately show ?thesis by (auto simp: cpus_inv_def of)
qed

lemma cpus_inv_pc: "cpus_inv s pc \<Longrightarrow> pc me \<noteq> Idle \<Longrightarrow> cpus_inv s (pc(me := l))"
  by (auto simp: cpus_inv_def)

lemma lock_inv_alt: "lock_inv s \<longleftrightarrow>
     (locked (ls_lk s) \<noteq> 0 \<longleftrightarrow> (\<exists>me. owns (ls_pc s me))) \<and>
     (\<forall>a b. owns (ls_pc s a) \<and> owns (ls_pc s b) \<longrightarrow> a = b) \<and>
     (\<forall>c. lk_cpu (ls_lk s) = Some c \<longleftrightarrow> (\<exists>me. ls_pc s me = Inside \<and> cpu_of me (ls_smp s) = Some c)) \<and>
     cpus_inv (ls_smp s) (ls_pc s)"
  by (simp add: lock_inv_def cpus_inv_def)

lemma owns_simps [simp]: "owns Taken" "owns Inside" "owns Leaving" "\<not> owns Idle" "\<not> owns Spinning"
  by (auto simp: owns_def)

lemma lock_inv_cpu:
  "lock_inv s \<Longrightarrow> ls_pc s me \<noteq> Idle \<Longrightarrow>
   \<exists>c. cpu_of me (ls_smp s) = Some c \<and> cpu_ok me (ls_smp s) \<and> 0 < ncli (cpus (ls_smp s) ! c)"
  by (auto simp: lock_inv_def)

lemma inv_enter:
  assumes inv: "lock_inv s" and pc: "ls_pc s me = Idle"
    and ok: "acquire_enter me (ls_smp s) (ls_lk s) = Ok p"
  shows "lock_inv (s\<lparr>ls_smp := p, ls_pc := (ls_pc s)(me := Spinning)\<rparr>)"
proof -
  from ok have "\<exists>t. pushcli me (ls_smp s) = Ok t"
    by (auto simp: acquire_enter_def res_iff)
  then obtain c where c: "cpu_of me (ls_smp s) = Some c"
    using pushcli_Ok_cpu by blast
  moreover from this inv have cok: "cpu_ok me (ls_smp s)" by (simp add: lock_inv_def)
  ultimately have p: "p = after_push me c (ls_smp s)"
    using ok acquire_enter_spec by (auto split: if_splits)
  from c cok have "0 \<le> ncli (cpus (ls_smp s) ! c)" by (auto simp: cpu_ok_def)
  with inv c have "cpus_inv p ((ls_pc s)(me := Spinning))"
    unfolding p after_push_touch by (intro cpus_inv_touch) (auto simp: lock_inv_alt)
  moreover have "cpu_of y p = cpu_of y (ls_smp s)" for y
    unfolding p after_push_touch using c by (intro cpu_of_touch) auto
  moreover have "owns (((ls_pc s)(me := Spinning)) y) = owns (ls_pc s y)"
    "((ls_pc s)(me := Spinning)) y = Inside \<longleftrightarrow> ls_pc s y = Inside" for y
    using pc by auto
  ultimately show ?thesis using inv by (simp add: lock_inv_alt del: fun_upd_apply)
qed

lemma inv_check:
  assumes inv: "lock_inv s" and pc: "ls_pc s me = Inside"
    and ok: "release_check me (ls_smp s) (ls_lk s) = Ok (p, l)"
  shows "lock_inv (s\<lparr>ls_smp := p, ls_lk := l, ls_pc := (ls_pc s)(me := Leaving)\<rparr>)"
proof -
  obtain c where c: "cpu_of me (ls_smp s) = Some c" "cpu_ok me (ls_smp s)"
    "0 < ncli (cpus (ls_smp s) ! c)"
    using lock_inv_cpu [OF inv, of me] pc by auto
  from holding_spec [OF c(1,2), of "ls_lk s"] ok obtain x where
    p: "p = touch me c (iflag (ls_smp s) me) x (ls_smp s)"
    and x: "apicid x = apicid (cpus (ls_smp s) ! c)" "ncli x = ncli (cpus (ls_smp s) ! c)"
    and l: "l = (ls_lk s)\<lparr>pcs := (pcs (ls_lk s))[0 := 0], lk_cpu := None\<rparr>"
    by (auto simp: release_check_def split: if_splits)
  have "cpus_inv p ((ls_pc s)(me := Leaving))"
    unfolding p using inv c x by (intro cpus_inv_touch) (auto simp: lock_inv_alt cpu_ok_def)
  moreover have one: "y = me" if "owns (ls_pc s y)" for y
    using inv pc that owns_simps(2) unfolding lock_inv_def by metis
  moreover have "ls_pc s y \<noteq> Inside" if "y \<noteq> me" for y
    using one [of y] that by auto
  moreover have "locked (ls_lk s) \<noteq> 0" using inv pc by (metis lock_inv_def owns_simps(2))
  ultimately show ?thesis using inv by (auto simp: lock_inv_alt l)
qed

lemma inv_store:
  assumes inv: "lock_inv s" and pc: "ls_pc s me = Leaving"
    and ok: "release_store me (ls_smp s) (ls_lk s) = Ok (p, l)"
  shows "lock_inv (s\<lparr>ls_smp := p, ls_lk := l, ls_pc := (ls_pc s)(me := Idle)\<rparr>)"
proof -
  obtain c where c: "cpu_of me (ls_smp s) = Some c" "cpu_ok me (ls_smp s)"
    "0 < ncli (cpus (ls_smp s) ! c)"
    using lock_inv_cpu [OF inv, of me] pc by auto
  from popcli_spec [OF c] ok obtain b x where
    p: "p = touch me c b x (ls_smp s)" and l: "l = (ls_lk s)\<lparr>locked := 0\<rparr>"
    and x: "apicid x = apicid (cpus (ls_smp s) ! c)" "ncli x = ncli (cpus (ls_smp s) ! c) - 1"
      "0 < ncli x \<longrightarrow> \<not> b"
    by (auto simp: release_store_def)
  have "cpus_inv p ((ls_pc s)(me := Idle))"
    unfolding p using inv c x by (intro cpus_inv_touch) (auto simp: lock_inv_alt)
  moreover have "cpu_of y p = cpu_of y (ls_smp s)" for y
    unfolding p using c x by (intro cpu_of_touch)
  moreover have one: "y = me" if "owns (ls_pc s y)" for y
    using inv pc that owns_simps(3) unfolding lock_inv_def by metis
  moreover have "ls_pc s y \<noteq> Inside" for y
    using one [of y] pc by (cases "y = me") auto
  ultimately show ?thesis using inv by (auto simp: lock_inv_alt l)
qed

lemma inv_take:
  assumes inv: "lock_inv s" and pc: "ls_pc s me = Spinning" and x: "xchg (ls_lk s) 1 = (0, l)"
  shows "lock_inv (s\<lparr>ls_lk := l, ls_pc := (ls_pc s)(me := Taken)\<rparr>)"
proof -
  have "\<not> owns (ls_pc s y)" for y using inv x by (auto simp: lock_inv_def xchg_def)
  moreover from this have "ls_pc s y \<noteq> Inside" for y by (metis owns_simps(2))
  moreover have "cpus_inv (ls_smp s) ((ls_pc s)(me := Taken))"
    using inv pc by (intro cpus_inv_pc) (auto simp: lock_inv_alt)
  ultimately show ?thesis using inv x by (auto simp: lock_inv_alt xchg_def)
qed

lemma inv_record:
  assumes inv: "lock_inv s" and pc: "ls_pc s me = Taken"
    and ok: "acquire_record me m v (ls_smp s) (ls_lk s) = Ok l"
  shows "lock_inv (s\<lparr>ls_lk := l, ls_pc := (ls_pc s)(me := Inside)\<rparr>)"
proof -
  obtain c where c: "cpu_of me (ls_smp s) = Some c" "cpu_ok me (ls_smp s)"
    "0 < ncli (cpus (ls_smp s) ! c)"
    using lock_inv_cpu [OF inv, of me] pc by auto
  then have "mycpu me (ls_smp s) = Ok c" by (intro mycpu_cpu_of) (auto simp: cpu_ok_def)
  with ok have l: "l = (ls_lk s)\<lparr>lk_cpu := Some c, pcs := getcallerpcs m v\<rparr>"
    by (simp add: acquire_record_def)
  have one: "y = me" if "owns (ls_pc s y)" for y
    using inv pc that owns_simps(1) unfolding lock_inv_def by metis
  moreover have "ls_pc s y \<noteq> Inside" for y using one [of y] pc by (cases "y = me") auto
  moreover have "cpus_inv (ls_smp s) ((ls_pc s)(me := Inside))"
    using inv pc by (intro cpus_inv_pc) (auto simp: lock_inv_alt)
  moreover have "locked (ls_lk s) \<noteq> 0" using inv pc by (metis lock_inv_def owns_simps(1))
  ultimately show ?thesis using inv c by (auto simp: lock_inv_alt l)
qed

lemma lock_step_inv: "lock_step me s t \<Longrightarrow> lock_inv s \<Longrightarrow> lock_inv t"
  by (induction rule: lock_step.induct)
    (auto intro: inv_enter inv_take inv_record inv_check inv_store,
      auto simp: xchg_def lock_inv_def)

lemma lock_reach_inv: "lock_reach s \<Longrightarrow> lock_inv s"
  by (induction rule: lock_reach.induct)
    (auto intro: lock_step_inv, auto simp: lock_inv_def initlock_def)

text \<open>
  C3.  Mutual exclusion: however the CPUs interleave, two different CPUs are never between
  \<open>acquire\<close> and \<open>release\<close> of the lock; the CPU inside can always release it (no panic), and
  a CPU that is not using the lock can always enter \<open>acquire\<close>.
\<close>

theorem spinlock_mutual_exclusion:
  assumes "lock_reach s"
  shows "(ls_pc s a = Inside \<and> ls_pc s b = Inside \<longrightarrow> a = b) \<and>
    (ls_pc s a = Inside \<longrightarrow> is_ok (release a (ls_smp s) (ls_lk s))) \<and>
    (ls_pc s a = Idle \<and> cpu_of a (ls_smp s) \<noteq> None \<longrightarrow> is_ok (acquire_enter a (ls_smp s) (ls_lk s)))"
proof (intro conjI impI; (elim conjE)?)
  note inv = lock_reach_inv [OF assms]
  show "a = b" if "ls_pc s a = Inside" "ls_pc s b = Inside"
    using inv that owns_simps(2) unfolding lock_inv_def by metis
  show "is_ok (release a (ls_smp s) (ls_lk s))" if a: "ls_pc s a = Inside"
  proof -
    obtain c where c: "cpu_of a (ls_smp s) = Some c" "cpu_ok a (ls_smp s)"
      "0 < ncli (cpus (ls_smp s) ! c)"
      using lock_inv_cpu [OF inv, of a] a by auto
    have "locked (ls_lk s) \<noteq> 0 \<and> lk_cpu (ls_lk s) = Some c"
      using inv a c by (metis lock_inv_def owns_simps(2))
    with holding_spec [OF c(1,2), of "ls_lk s"] obtain x where
      h: "holding a (ls_smp s) (ls_lk s) = Ok (True, touch a c (iflag (ls_smp s) a) x (ls_smp s))"
      and x: "apicid x = apicid (cpus (ls_smp s) ! c)" "ncli x = ncli (cpus (ls_smp s) ! c)"
      by auto
    let ?t = "touch a c (iflag (ls_smp s) a) x (ls_smp s)"
    have "cpu_ok a ?t"
      using c x by (intro cpu_ok_touch [of a _ c, where d = c]) (auto simp: cpu_ok_def)
    moreover have "cpu_of a ?t = Some c" using c x cpu_of_touch by metis
    moreover have "0 < ncli (cpus ?t ! c)" using ncli_touch [OF c(1,1)] c(3) x by simp
    ultimately obtain u where "popcli a ?t = Ok u" using popcli_spec by blast
    with h show ?thesis by (simp add: release_def release_check_def release_store_def)
  qed
  show "is_ok (acquire_enter a (ls_smp s) (ls_lk s))"
    if a: "ls_pc s a = Idle" "cpu_of a (ls_smp s) \<noteq> None"
  proof -
    obtain c where c: "cpu_of a (ls_smp s) = Some c" "cpu_ok a (ls_smp s)"
      using a inv by (auto simp: lock_inv_def)
    have "lk_cpu (ls_lk s) \<noteq> Some c"
      using inv a c cpu_of_inj unfolding lock_inv_def by (metis lock_pc.distinct(5))
    with acquire_enter_spec [OF c] show ?thesis by simp
  qed
qed

lemma two_cpus_reach:
  "\<exists>s. lock_reach s \<and> ls_pc s 0 = Inside"
proof -
  define l where "l = initlock ''lk'' \<lparr>locked = 7, lk_name = [], lk_cpu = None, pcs = replicate 10 0\<rparr>"
  define s0 where "s0 = \<lparr>ls_smp = two_cpus, ls_lk = l, ls_pc = (\<lambda>_. Idle)\<rparr>"
  define s1 where "s1 = s0\<lparr>ls_smp := after_push 0 0 two_cpus, ls_pc := (ls_pc s0)(0 := Spinning)\<rparr>"
  define s2 where "s2 = s1\<lparr>ls_lk := snd (xchg l 1), ls_pc := (ls_pc s1)(0 := Taken)\<rparr>"
  have of: "cpu_of 0 two_cpus = Some 0" by (simp add: cpu_of_def two_cpus_def)
  have ok: "cpu_ok me two_cpus" if "cpu_of me two_cpus = Some c" for me c
    using that by (auto simp: cpu_ok_def cpu_of_def two_cpus_def split: if_splits)
  have "lock_reach s0"
    unfolding s0_def l_def using ok by (rule lock_reach.start)
  moreover have "acquire_enter 0 (ls_smp s0) (ls_lk s0) = Ok (after_push 0 0 two_cpus)"
    using acquire_enter_spec [OF of ok [OF of]] by (simp add: s0_def l_def initlock_def)
  then have "lock_step 0 s0 s1"
    unfolding s1_def by (intro lock_step.enter) (simp_all add: s0_def)
  moreover have "lock_step 0 s1 s2"
    unfolding s2_def
    by (intro lock_step.take) (simp_all add: s1_def s0_def l_def xchg_def initlock_def)
  moreover obtain l' where "acquire_record 0 (\<lambda>_. 0) 0 (ls_smp s2) (ls_lk s2) = Ok l'"
    using cpu_of_after_push [OF of] cpu_ok_after_push [OF of ok [OF of]]
    by (simp add: acquire_record_def mycpu_def cpu_of_def s2_def s1_def)
  then have "lock_step 0 s2 (s2\<lparr>ls_lk := l', ls_pc := (ls_pc s2)(0 := Inside)\<rparr>)"
    by (intro lock_step.record_owner) (simp_all add: s2_def)
  ultimately have "lock_reach (s2\<lparr>ls_lk := l', ls_pc := (ls_pc s2)(0 := Inside)\<rparr>)"
    using lock_reach.step by blast
  then show ?thesis by force
qed

theorem spinlock_mutual_exclusion_witness:
  "\<exists>s. lock_reach s \<and> ls_pc s 0 = Inside \<and> ls_pc s 4 \<noteq> Inside \<and>
     is_ok (release 0 (ls_smp s) (ls_lk s))"
proof -
  obtain s where s: "lock_reach s" "ls_pc s 0 = Inside" using two_cpus_reach by blast
  from spinlock_mutual_exclusion [OF s(1), of 0 4] s show ?thesis by auto
qed

end
