(* ===== verification/Mp.thy ===== *)
theory Mp
  imports Spinlock
begin

text \<open>
  The discovery of the processors (\<^verbatim>\<open>mp.c\<close>, \<^verbatim>\<open>mp.h\<close>): the search for the floating pointer structure in BIOS memory, the
  checks of the configuration table, and the loop over its entries in \<open>mpinit\<close>.  Structures are read at their
  addresses in memory.  The loop is a partial function, of value \<open>None\<close> when it does not end; the
  accesses to the port of the IMCR at the end of \<open>mpinit\<close> change no kernel state and are left out.
\<close>

section \<open>The configuration table\<close>

definition MPPROC :: byte where "MPPROC = 0"
definition MPBUS :: byte where "MPBUS = 1"
definition MPIOAPIC :: byte where "MPIOAPIC = 2"
definition MPIOINTR :: byte where "MPIOINTR = 3"
definition MPLINTR :: byte where "MPLINTR = 4"

definition NCPU :: nat where "NCPU = 8"

fun sum_bytes :: "mem \<Rightarrow> u32 \<Rightarrow> nat \<Rightarrow> byte" where
  "sum_bytes m addr 0 = 0"
| "sum_bytes m addr (Suc n) = sum_bytes m addr n + m (addr + of_nat n)"

definition signature :: "mem \<Rightarrow> u32 \<Rightarrow> byte list \<Rightarrow> bool" where
  "signature m p bs \<longleftrightarrow> map (\<lambda>i. m (p + of_nat i)) [0..<4] = bs"

text \<open>The floating pointer structure has 16 bytes.\<close>

fun mpsearch_loop :: "mem \<Rightarrow> u32 \<Rightarrow> nat \<Rightarrow> u32 option" where
  "mpsearch_loop m p 0 = None"
| "mpsearch_loop m p (Suc n) =
     (if signature m p [95, 77, 80, 95] \<and> sum_bytes m p 16 = 0 then Some p else mpsearch_loop m (p + 16) n)"

definition mpsearch1 :: "mem \<Rightarrow> u32 \<Rightarrow> nat \<Rightarrow> u32 option" where
  "mpsearch1 m a len = mpsearch_loop m (P2V a) (len div 16)"

definition mpsearch :: "mem \<Rightarrow> u32 option" where
  "mpsearch m =
     (let bda = P2V 0x400;
          word = (\<lambda>h l. push_bit 8 (ucast (m (bda + h))) OR ucast (m (bda + l)) :: u32);
          p = push_bit 4 (word 0x0F 0x0E);
          first = (if p \<noteq> 0 then mpsearch1 m p 1024 else mpsearch1 m (word 0x14 0x13 * 1024 - 1024) 1024)
      in case first of Some mp \<Rightarrow> Some mp | None \<Rightarrow> mpsearch1 m 0xF0000 0x10000)"

text \<open>The addresses of the floating pointer structure and of the configuration table.\<close>

definition conf_length :: "mem \<Rightarrow> u32 \<Rightarrow> nat" where
  "conf_length m conf = unat (m (conf + 4)) + 256 * unat (m (conf + 5))"

definition mpconfig :: "mem \<Rightarrow> (u32 \<times> u32) option" where
  "mpconfig m =
     (case mpsearch m of
        None \<Rightarrow> None
      | Some mp \<Rightarrow>
          let physaddr = load32 m (mp + 4);
              conf = P2V physaddr
          in if physaddr = 0 then None
             else if \<not> signature m conf [80, 67, 77, 80] then None
             else if m (conf + 6) \<noteq> 1 \<and> m (conf + 6) \<noteq> 4 then None
             else if sum_bytes m conf (conf_length m conf) \<noteq> 0 then None
             else Some (mp, conf))"

record mp_st =
  mp_apicids :: "byte list"      \<comment> \<open>\<open>cpus[i].apicid\<close> for \<open>i < ncpu\<close>\<close>
  ioapicid :: byte
  ismp :: bool

partial_function (option) mpinit_loop :: "mem \<Rightarrow> u32 \<Rightarrow> u32 \<Rightarrow> mp_st \<Rightarrow> mp_st option" where
  "mpinit_loop m p e s =
     (if p < e then
        if m p = MPPROC then
          mpinit_loop m (p + 20) e (if length (mp_apicids s) < NCPU then s\<lparr>mp_apicids := mp_apicids s @ [m (p + 1)]\<rparr> else s)
        else if m p = MPIOAPIC then mpinit_loop m (p + 8) e (s\<lparr>ioapicid := m (p + 1)\<rparr>)
        else if m p = MPBUS \<or> m p = MPIOINTR \<or> m p = MPLINTR then mpinit_loop m (p + 8) e s
        else mpinit_loop m p e (s\<lparr>ismp := False\<rparr>)
      else Some s)"

text \<open>\<open>mpinit\<close> gives the address of the local APIC and the state; its header has 44 bytes.\<close>

definition mpinit :: "mem \<Rightarrow> mp_st \<Rightarrow> (u32 \<times> mp_st) res option" where
  "mpinit m s =
     (case mpconfig m of
        None \<Rightarrow> Some (Panic ''Expect to run on an SMP'')
      | Some (mp, conf) \<Rightarrow>
          map_option (\<lambda>s. if \<not> ismp s then Panic ''Didn't find a suitable machine'' else Ok (load32 m (conf + 36), s))
            (mpinit_loop m (conf + 44) (conf + of_nat (conf_length m conf)) (s\<lparr>ismp := True\<rparr>)))"

section \<open>The loop over the entries\<close>

datatype entry = EProc byte | EIoapic byte | EOther byte

fun entry_size :: "entry \<Rightarrow> u32" where
  "entry_size (EProc a) = 20"
| "entry_size _ = 8"

text \<open>The memory from \<open>p\<close> to \<open>q\<close> holds the entries.\<close>

fun table :: "mem \<Rightarrow> u32 \<Rightarrow> entry list \<Rightarrow> u32 \<Rightarrow> bool" where
  "table m p [] q \<longleftrightarrow> p = q"
| "table m p (en # es) q \<longleftrightarrow> p < q \<and>
     (case en of EProc a \<Rightarrow> m p = MPPROC \<and> m (p + 1) = a | EIoapic a \<Rightarrow> m p = MPIOAPIC \<and> m (p + 1) = a
      | EOther t \<Rightarrow> m p = t \<and> t \<in> {MPBUS, MPIOINTR, MPLINTR}) \<and> table m (p + entry_size en) es q"

definition procs :: "entry list \<Rightarrow> byte list" where
  "procs es = concat (map (\<lambda>en. case en of EProc a \<Rightarrow> [a] | _ \<Rightarrow> []) es)"

definition last_ioapic :: "byte \<Rightarrow> entry list \<Rightarrow> byte" where
  "last_ioapic d es = fold (\<lambda>en d. case en of EIoapic a \<Rightarrow> a | _ \<Rightarrow> d) es d"

lemmas mp_types = MPPROC_def MPBUS_def MPIOAPIC_def MPIOINTR_def MPLINTR_def

lemma mpinit_loop_table:
  assumes "table m p es q" "q \<le> e" "length (mp_apicids s) \<le> NCPU"
  shows "mpinit_loop m p e s = mpinit_loop m q e
    (s\<lparr>mp_apicids := take NCPU (mp_apicids s @ procs es), ioapicid := last_ioapic (ioapicid s) es\<rparr>)"
  using assms
proof (induction es arbitrary: p s)
  case Nil
  then show ?case by (simp add: procs_def last_ioapic_def)
next
  case (Cons en es)
  have p: "p < e" "table m (p + entry_size en) es q" using Cons.prems by auto
  let ?s = "case en of EProc a \<Rightarrow> (if length (mp_apicids s) < NCPU then s\<lparr>mp_apicids := mp_apicids s @ [a]\<rparr> else s)
    | EIoapic a \<Rightarrow> s\<lparr>ioapicid := a\<rparr> | EOther t \<Rightarrow> s"
  have e: "mpinit_loop m p e s = mpinit_loop m (p + entry_size en) e ?s"
    using Cons.prems(1) p(1) by (subst mpinit_loop.simps) (auto simp: mp_types split: entry.splits)
  have "length (mp_apicids ?s) \<le> NCPU" using Cons.prems(3) by (auto split: entry.splits)
  from Cons.IH [OF p(2) Cons.prems(2) this] show ?case unfolding e using Cons.prems(3)
    by (cases en) (auto simp: procs_def last_ioapic_def take_Cons')
qed

lemma mpinit_loop_stuck:
  assumes "p < e" "4 < m p"
  shows "mpinit_loop m p e s = None"
proof -
  have "\<not> (m' = m \<and> p' = p \<and> e' = e)" if "mpinit_loop m' p' e' s' = Some y" for m' p' e' s' y
    using that by (rule mpinit_loop.raw_induct [rotated])
      (use assms in \<open>auto simp: mp_types split: if_splits\<close>)
  then show ?thesis by (cases "mpinit_loop m p e s") blast+
qed

text \<open>
  C40.  \<open>mpinit\<close> registers the processors or never returns.  Let the configuration table be accepted and let its entries be
  of the known types up to \<open>q\<close>.  If that is its end, \<open>mpinit\<close> returns with the first \<open>NCPU\<close> processors of the
  table in their order and the last of its I/O APICs.  If an entry of an unknown type follows, \<open>mpinit\<close> loops for ever on it: the
  \<open>break\<close> of its \<open>default\<close> case leaves the \<open>switch\<close> and not the loop, and the panic behind the loop is not reached.
\<close>

theorem mpinit_entries:
  assumes "mpconfig m = Some (mp, conf)" "e = conf + of_nat (conf_length m conf)" "table m (conf + 44) es q" "q \<le> e" "mp_apicids s = []"
  shows "(q = e \<longrightarrow> mpinit m s = Some (Ok (load32 m (conf + 36),
      s\<lparr>ismp := True, mp_apicids := take NCPU (procs es), ioapicid := last_ioapic (ioapicid s) es\<rparr>))) \<and>
    (q < e \<and> 4 < m q \<longrightarrow> mpinit m s = None)"
proof -
  let ?s = "s\<lparr>ismp := True, mp_apicids := take NCPU (procs es), ioapicid := last_ioapic (ioapicid s) es\<rparr>"
  have l: "mpinit_loop m (conf + 44) e (s\<lparr>ismp := True\<rparr>) = mpinit_loop m q e ?s"
    using mpinit_loop_table [OF assms(3,4), of "s\<lparr>ismp := True\<rparr>"] assms(5) by simp
  have "q = e \<Longrightarrow> mpinit_loop m q e ?s = Some ?s" by (subst mpinit_loop.simps) simp
  moreover have "q < e \<Longrightarrow> 4 < m q \<Longrightarrow> mpinit_loop m q e ?s = None" by (rule mpinit_loop_stuck)
  ultimately show ?thesis using l assms(1,2) by (auto simp: mpinit_def)
qed

text \<open>
  A machine with the floating pointer structure at the start of the extended BIOS data area and a table of one
  processor and one entry of the unknown type 7.
\<close>

definition bios :: mem where
  "bios a =
     (if a = 0x8000040E then 0xC0 else if a = 0x8000040F then 0x9F
      else if a - 0x8009FC00 < 16 then [95, 77, 80, 95, 0, 1, 15, 0, 1, 4, 144, 0, 0, 0, 0, 0] ! unat (a - 0x8009FC00)
      else if a - 0x800F0100 < 72 then
        ([80, 67, 77, 80, 72, 0, 4, 156] @ replicate 28 0 @ [0, 0, 224, 254] @ replicate 4 0 @ [0, 3] @ replicate 18 0 @ [7] @ replicate 7 0) !
          unat (a - 0x800F0100)
      else 0)"

lemma bios_config: "mpconfig bios = Some (0x8009FC00, 0x800F0100)" "conf_length bios 0x800F0100 = 72" "bios 0x800F0140 = 7"
  "table bios 0x800F012C [EProc 3] 0x800F0140"
  by code_simp+

theorem mpinit_entries_witness: "mpinit bios \<lparr>mp_apicids = [], ioapicid = 0, ismp = False\<rparr> = None"
  using mpinit_entries [where s = "\<lparr>mp_apicids = [], ioapicid = 0, ismp = False\<rparr>" and es = "[EProc 3]" and q = "0x800F0140", OF bios_config(1) refl] bios_config(2-4) by simp

end
