(* ===== verification/Consline.thy ===== *)
theory Consline
  imports Console
begin

text \<open>
  The line discipline of the console (\<^verbatim>\<open>console.c\<close>).  Abstractly the input is a pair of lists: the bytes that readers may take,
  and the line that is being edited.  Keys act on the second list and hand it over to the first; a read takes one
  line.  The ring buffer with its three counters implements this.
\<close>

section \<open>The input ring\<close>

definition typed :: "input \<Rightarrow> byte list" where
  "typed x = cring INPUT_BUF (in_buf x) (in_r x) (in_e x)"

definition ring_ok :: "input \<Rightarrow> bool" where
  "ring_ok x \<longleftrightarrow> length (in_buf x) = INPUT_BUF \<and> unat (in_e x - in_r x) \<le> INPUT_BUF"

definition get_input :: "input \<Rightarrow> byte \<times> input" where
  "get_input x = (in_at x (in_r x), x\<lparr>in_r := in_r x + 1\<rparr>)"

lemma INPUT_BUF_counter: "INPUT_BUF dvd 2 ^ 32" "INPUT_BUF < 2 ^ 32"
  by (simp_all add: INPUT_BUF_def)

lemma length_typed [simp]: "length (typed x) = unat (in_e x - in_r x)"
  by (simp add: typed_def)

lemma put_input_law:
  assumes "ring_ok x" "length (typed x) < INPUT_BUF"
  shows "ring_ok (put_input b x) \<and> typed (put_input b x) = typed x @ [b]"
proof -
  have n: "unat (in_e x - in_r x) < INPUT_BUF" using assms(2) by simp
  show ?thesis using assms(1) n counter_next [OF n INPUT_BUF_counter(2)]
      cring_put [OF INPUT_BUF_counter _ n, of "in_buf x" b] by (simp add: ring_ok_def typed_def put_input_def)
qed

lemma get_input_law:
  assumes "ring_ok x" "typed x = b # bs"
  shows "fst (get_input x) = b \<and> ring_ok (snd (get_input x)) \<and> typed (snd (get_input x)) = bs"
proof -
  have n: "in_e x \<noteq> in_r x" using assms(2) cring_empty_iff [of INPUT_BUF "in_buf x" "in_r x" "in_e x"] by (simp add: typed_def)
  show ?thesis using assms cring_get(1) [OF INPUT_BUF_counter(1) n] cring_get(2) [OF INPUT_BUF_counter(1) n, of "in_buf x"]
    by (simp add: ring_ok_def typed_def get_input_def in_at_def)
qed

interpretation input_q: fifo ring_ok typed put_input get_input INPUT_BUF
  by unfold_locales (use put_input_law get_input_law in blast)+

section \<open>The abstract line discipline\<close>

type_synonym line_st = "byte list \<times> byte list"

text \<open>A key: \<open>C('P')\<close> lists processes, \<open>C('U')\<close> kills the line, backspace and delete erase; a line is handed over by line feed, \<open>C('D')\<close>, or when no room is left.\<close>

definition key :: "int \<Rightarrow> line_st \<Rightarrow> line_st" where
  "key c = (\<lambda>(ready, line).
     if c = 16 then (ready, line)
     else if c = 21 then (ready, [])
     else if c = 8 \<or> c = 127 then (ready, butlast line)
     else if c = 0 \<or> length ready + length line \<ge> INPUT_BUF then (ready, line)
     else let b = (if c = 13 then 10 else word_of_int c); line = line @ [b]
          in if b = 10 \<or> b = 4 \<or> length ready + length line = INPUT_BUF then (ready @ line, []) else (ready, line))"

text \<open>
  Reading at most \<open>n\<close> bytes: up to and including a line feed, or up to \<open>C('D')\<close>, which is taken only by a read that finds it first.
  The result is the bytes, whether the reader has to wait for more, and what is left.
\<close>

definition read_ready :: "nat \<Rightarrow> byte list \<Rightarrow> (byte list \<times> bool) \<times> byte list" where
  "read_ready n ready =
     (let p = takeWhile (\<lambda>c. c \<noteq> 10 \<and> c \<noteq> 4) ready; k = length p
      in if n \<le> k then ((take n ready, False), drop n ready)
         else if k = length ready then ((ready, True), [])
         else if ready ! k = 10 then ((take (k + 1) ready, False), drop (k + 1) ready)
         else ((p, False), if k = 0 then drop 1 ready else drop k ready))"

definition lines :: "input \<Rightarrow> line_st" where
  "lines x = (let k = unat (in_w x - in_r x) in (take k (typed x), drop k (typed x)))"

definition input_ok :: "input \<Rightarrow> bool" where
  "input_ok x \<longleftrightarrow> ring_ok x \<and> unat (in_w x - in_r x) \<le> unat (in_e x - in_r x) \<and> 10 \<notin> set (snd (lines x))"

section \<open>Output does not fail\<close>

definition cons_ok :: "'z cons_st_scheme \<Rightarrow> bool" where
  "cons_ok s \<longleftrightarrow> \<not> panicked s \<and> \<not> ptable_held s \<and> 0 \<le> cga_pos (cga_st s) \<and> cga_pos (cga_st s) < 24 * 80"

lemma cgaputc_ok:
  assumes "0 \<le> cga_pos g" "cga_pos g < 24 * 80"
  shows "\<exists>g'. cgaputc c g = Ok g' \<and> 0 \<le> cga_pos g' \<and> cga_pos g' < 24 * 80"
proof -
  have "0 \<le> cga_pos (cga_put c g)" "cga_pos (cga_put c g) \<le> 24 * 80"
    using assms by (auto simp: cga_put_def Let_def) presburger+
  then show ?thesis by (auto simp: cgaputc_def cga_scroll_def Let_def)
qed

lemma consputc_ok:
  assumes "cons_ok s"
  shows "\<exists>t. consputc c s = Ok t \<and> cons_ok t \<and> input_st t = input_st s"
  using assms cgaputc_ok [of "cga_st s" c] by (auto simp: consputc_def cons_ok_def uartputc_def Let_def)

lemma wakeup_input:
  assumes "cons_ok s"
  shows "\<exists>t. wakeup c s = Ok t \<and> cons_ok t \<and> input_st t = input_st s"
  using assms wakeup_frame [of s c] by (auto simp: cons_ok_def)

section \<open>Keys\<close>

text \<open>With \<open>w\<close> between \<open>r\<close> and \<open>e\<close>, the length of the edited line is the distance of \<open>e\<close> and \<open>w\<close>.\<close>

lemma edited_length:
  assumes "unat (in_w x - in_r x) \<le> unat (in_e x - in_r x)"
  shows "unat (in_e x - in_w x) = unat (in_e x - in_r x) - unat (in_w x - in_r x)"
proof -
  have "in_e x - in_w x = (in_e x - in_r x) - (in_w x - in_r x)" by simp
  also have "unat \<dots> = unat (in_e x - in_r x) - unat (in_w x - in_r x)"
    by (rule unat_sub) (simp add: word_le_nat_alt assms)
  finally show ?thesis .
qed

lemma lines_same_end:
  assumes "input_ok x"
  shows "in_e x = in_w x \<longleftrightarrow> snd (lines x) = []"
proof -
  have "in_e x = in_w x \<longleftrightarrow> unat (in_e x - in_w x) = 0" by (simp add: unsigned_eq_0_iff)
  with assms show ?thesis by (auto simp: edited_length input_ok_def lines_def Let_def)
qed

text \<open>Taking the last byte of the line back, as \<open>erase\<close> does.\<close>

lemma unput_lines:
  assumes "input_ok x" "snd (lines x) \<noteq> []"
  defines "y \<equiv> x\<lparr>in_e := in_e x - 1\<rparr>"
  shows "input_ok y \<and> lines y = (fst (lines x), butlast (snd (lines x)))"
proof -
  let ?k = "unat (in_w x - in_r x)"
  have k: "?k < unat (in_e x - in_r x)" using assms(2) by (simp add: lines_def Let_def)
  then have ne: "in_e x \<noteq> in_r x" by auto
  note u = cring_unput(1) [OF ne] cring_unput(2) [OF ne, of INPUT_BUF "in_buf x"]
  have "lines y = (fst (lines x), butlast (snd (lines x)))"
    using k u by (simp add: lines_def y_def typed_def Let_def butlast_drop take_butlast)
  moreover have "ring_ok y" using assms(1) u(1) by (simp add: y_def ring_ok_def input_ok_def)
  moreover have "10 \<notin> set (butlast (snd (lines x)))" using assms(1) by (auto simp: input_ok_def dest: in_set_butlastD)
  ultimately show ?thesis using k u(1) by (simp add: input_ok_def y_def)
qed

lemma erase_lines:
  assumes "cons_ok s" "input_ok (input_st s)" "snd (lines (input_st s)) \<noteq> []"
  shows "\<exists>t. erase s = Ok t \<and> cons_ok t \<and> input_ok (input_st t) \<and>
    lines (input_st t) = (fst (lines (input_st s)), butlast (snd (lines (input_st s))))"
proof -
  let ?s = "s\<lparr>input_st := (input_st s)\<lparr>in_e := in_e (input_st s) - 1\<rparr>\<rparr>"
  have "cons_ok ?s" using assms(1) by (simp add: cons_ok_def)
  then show ?thesis using consputc_ok [of ?s BACKSPACE] unput_lines [OF assms(2,3)] by (auto simp: erase_def)
qed

text \<open>The last byte of the buffer is the last byte of the line.\<close>

lemma in_at_last:
  assumes "input_ok x" "snd (lines x) \<noteq> []"
  shows "in_at x (in_e x - 1) = last (snd (lines x))"
proof -
  let ?n = "unat (in_e x - in_r x)"
  have k: "unat (in_w x - in_r x) < ?n" using assms(2) by (simp add: lines_def Let_def)
  then have ne: "in_e x \<noteq> in_r x" by auto
  have "last (snd (lines x)) = typed x ! (?n - 1)" using k by (simp add: lines_def Let_def last_drop last_conv_nth flip: length_greater_0_conv)
  also have "\<dots> = in_buf x ! ((unat (in_r x) + unat (in_e x - 1 - in_r x)) mod INPUT_BUF)"
    using cring_unput(1) [OF ne] by (simp add: typed_def cring_def ring_def nth_append)
  also have "\<dots> = in_at x (in_e x - 1)"
    using counter_slot [OF INPUT_BUF_counter(1), of "in_r x" "in_e x - 1 - in_r x"] by (simp add: in_at_def)
  finally show ?thesis ..
qed

lemma kill_line_lines:
  assumes "cons_ok s" "input_ok (input_st s)" "length (snd (lines (input_st s))) = k"
  shows "\<exists>t. kill_line k s = Ok t \<and> cons_ok t \<and> input_ok (input_st t) \<and> lines (input_st t) = (fst (lines (input_st s)), [])"
  using assms
proof (induction k arbitrary: s)
  case 0
  then show ?case by (cases "lines (input_st s)") simp
next
  case (Suc k)
  then have ne: "snd (lines (input_st s)) \<noteq> []" by auto
  then have "last (snd (lines (input_st s))) \<noteq> 10" using Suc.prems(2) last_in_set [OF ne] by (metis input_ok_def)
  then have "in_at (input_st s) (in_e (input_st s) - 1) \<noteq> 10" using in_at_last [OF Suc.prems(2) ne] by simp
  moreover obtain t where "erase s = Ok t" "cons_ok t" "input_ok (input_st t)"
    "lines (input_st t) = (fst (lines (input_st s)), butlast (snd (lines (input_st s))))"
    using erase_lines [OF Suc.prems(1,2) ne] by blast
  moreover from this(4) Suc.prems(3) have "length (snd (lines (input_st t))) = k" by simp
  ultimately show ?case using Suc.IH [of t] by simp
qed


lemma lines_length [simp]: "length (fst (lines x)) + length (snd (lines x)) = unat (in_e x - in_r x)"
  by (simp add: lines_def Let_def flip: length_append)

lemma byte_of_key: "0 \<le> c \<Longrightarrow> c < 256 \<Longrightarrow> (word_of_int c :: byte) = b \<longleftrightarrow> c = uint b"
  by (auto simp: uint_word_of_int)

text \<open>Appending a byte, and handing the line over.\<close>

lemma put_lines:
  assumes "input_ok x" "length (fst (lines x)) + length (snd (lines x)) < INPUT_BUF"
  shows "ring_ok (put_input b x)" "lines (put_input b x) = (fst (lines x), snd (lines x) @ [b])"
    "unat (in_w (put_input b x) - in_r (put_input b x)) \<le> unat (in_e (put_input b x) - in_r (put_input b x))"
proof -
  have k: "unat (in_w x - in_r x) \<le> unat (in_e x - in_r x)" "ring_ok x" using assms(1) by (simp_all add: input_ok_def)
  then have "length (typed x) < INPUT_BUF" using assms(2) by simp
  then have p: "ring_ok (put_input b x)" "typed (put_input b x) = typed x @ [b]" using put_input_law [OF k(2)] by blast+
  have w: "in_w (put_input b x) = in_w x" "in_r (put_input b x) = in_r x" by (simp_all add: put_input_def)
  have "length (typed (put_input b x)) = length (typed x) + 1" by (simp add: p(2))
  then have e: "unat (in_e (put_input b x) - in_r x) = unat (in_e x - in_r x) + 1" by (simp add: w)
  show "ring_ok (put_input b x)" by (rule p)
  show "lines (put_input b x) = (fst (lines x), snd (lines x) @ [b])" using k(1) by (simp add: lines_def p(2) w Let_def)
  show "unat (in_w (put_input b x) - in_r (put_input b x)) \<le> unat (in_e (put_input b x) - in_r (put_input b x))"
    using k(1) by (simp add: w e)
qed

lemma commit_lines:
  assumes "ring_ok x" "unat (in_w x - in_r x) \<le> unat (in_e x - in_r x)"
  shows "input_ok (x\<lparr>in_w := in_e x\<rparr>) \<and> lines (x\<lparr>in_w := in_e x\<rparr>) = (fst (lines x) @ snd (lines x), [])"
  using assms by (simp add: input_ok_def lines_def ring_ok_def typed_def Let_def)

lemma room_iff:
  "in_e x - in_r x < of_nat INPUT_BUF \<longleftrightarrow> length (fst (lines x)) + length (snd (lines x)) < INPUT_BUF"
  by (simp add: word_less_nat_alt INPUT_BUF_def)

lemma full_iff:
  "in_e x = in_r x + of_nat INPUT_BUF \<longleftrightarrow> length (fst (lines x)) + length (snd (lines x)) = INPUT_BUF"
proof -
  have "in_e x = in_r x + of_nat INPUT_BUF \<longleftrightarrow> in_e x - in_r x = of_nat INPUT_BUF"
    by (simp add: diff_eq_eq add.commute)
  also have "\<dots> \<longleftrightarrow> unat (in_e x - in_r x) = INPUT_BUF" by (simp add: word_unat_eq_iff INPUT_BUF_def)
  finally show ?thesis by simp
qed

text \<open>A character that is put into the line.\<close>

lemma consoleintr_put:
  assumes s: "cons_ok s" "input_ok (input_st s)" and b: "0 \<le> c" "c < 256" and x: "x = input_st s"
    and room: "length (fst (lines x)) + length (snd (lines x)) < INPUT_BUF"
    and y: "y = put_input (word_of_int c) x"
  shows "\<exists>t. bnd (consputc c (s\<lparr>input_st := y\<rparr>)) (\<lambda>s.
              if c = 10 \<or> c = ctrl 0x44 \<or> in_e y = in_r y + of_nat INPUT_BUF then
                bnd (wakeup InputChan (s\<lparr>input_st := y\<lparr>in_w := in_e y\<rparr>\<rparr>)) (\<lambda>s. Ok (False, s))
              else Ok (False, s)) = Ok (False, t) \<and> cons_ok t \<and> input_ok (input_st t) \<and>
    lines (input_st t) = (let l = snd (lines x) @ [word_of_int c]
      in if c = 10 \<or> c = 4 \<or> length (fst (lines x)) + length l = INPUT_BUF then (fst (lines x) @ l, []) else (fst (lines x), l))"
proof -
  note p = put_lines [OF s(2) [folded x] room, of "word_of_int c", folded y]
  have "cons_ok (s\<lparr>input_st := y\<rparr>)" using s(1) by (simp add: cons_ok_def)
  then obtain u where u: "consputc c (s\<lparr>input_st := y\<rparr>) = Ok u" "cons_ok u" "input_st u = y"
    using consputc_ok [of "s\<lparr>input_st := y\<rparr>" c] by auto
  have d: "ctrl 0x44 = 4" by (simp add: ctrl_def)
  have f: "in_e y = in_r y + of_nat INPUT_BUF \<longleftrightarrow> length (fst (lines x)) + length (snd (lines x) @ [word_of_int c :: byte]) = INPUT_BUF"
    using full_iff [of y] by (simp only: p(2) fst_conv snd_conv)
  show ?thesis
  proof (cases "c = 10 \<or> c = 4 \<or> in_e y = in_r y + of_nat INPUT_BUF")
    case True
    have "cons_ok (u\<lparr>input_st := y\<lparr>in_w := in_e y\<rparr>\<rparr>)" using u(2) by (simp add: cons_ok_def)
    then obtain v where "wakeup InputChan (u\<lparr>input_st := y\<lparr>in_w := in_e y\<rparr>\<rparr>) = Ok v" "cons_ok v" "input_st v = y\<lparr>in_w := in_e y\<rparr>"
      using wakeup_input [of "u\<lparr>input_st := y\<lparr>in_w := in_e y\<rparr>\<rparr>" InputChan] by auto
    then show ?thesis using True u commit_lines [OF p(1,3)] p(2) f by (auto simp: d Let_def)
  next
    case False
    then have "(10 :: byte) \<noteq> word_of_int c" using b byte_of_key [of c 10] by auto
    then have "input_ok y" using p s(2) by (simp add: input_ok_def x)
    then show ?thesis using False u p(2) f by (auto simp: d Let_def)
  qed
qed


lemma consoleintr_char_lines:
  assumes "cons_ok s" "input_ok (input_st s)" "0 \<le> c" "c < 256"
  shows "\<exists>d t. consoleintr_char c s = Ok (d, t) \<and> cons_ok t \<and> input_ok (input_st t) \<and> lines (input_st t) = key c (lines (input_st s))"
proof -
  let ?x = "input_st s" and ?c = "if c = 13 then 10 else c"
  obtain r l where x: "lines ?x = (r, l)" by fastforce
  have C: "ctrl 0x50 = 16" "ctrl 0x55 = 21" "ctrl 0x48 = 8" by (simp_all add: ctrl_def)
  have n: "unat (in_e ?x - in_w ?x) = length (snd (lines ?x))"
    using assms(2) edited_length [of ?x] by (simp add: input_ok_def lines_def Let_def)
  consider "c = 16" | "c = 21" | "c = 8 \<or> c = 127" | "c \<notin> {16, 21, 8, 127}" "c \<noteq> 0 \<and> length r + length l < INPUT_BUF"
    | "c \<notin> {16, 21, 8, 127}" "c = 0 \<or> length r + length l \<ge> INPUT_BUF" by fastforce
  then show ?thesis
  proof cases
    case 1
    then show ?thesis using assms by (auto simp: consoleintr_char_def C key_def x)
  next
    case 2
    then show ?thesis using kill_line_lines [OF assms(1,2) refl] x by (auto simp: consoleintr_char_def C key_def n Let_def)
  next
    case 3
    then show ?thesis using erase_lines [OF assms(1,2)] assms(1,2) x lines_same_end [OF assms(2)]
      by (cases "l = []") (auto simp: consoleintr_char_def C key_def Let_def)
  next
    case 4
    then have rm: "in_e ?x - in_r ?x < of_nat INPUT_BUF" "length (fst (lines ?x)) + length (snd (lines ?x)) < INPUT_BUF"
      by (simp_all only: room_iff) (simp_all only: x fst_conv snd_conv)
    have b: "(if c = 13 then 10 else word_of_int c) = (word_of_int ?c :: byte)" by simp
    have c: "0 \<le> ?c" "?c < 256" using assms(3,4) by auto
    have w: "(word_of_int ?c :: byte) = 10 \<longleftrightarrow> ?c = 10" "(word_of_int ?c :: byte) = 4 \<longleftrightarrow> ?c = 4"
      using byte_of_key [OF c] by simp_all
    have k: "key c (r, l) = (let l = l @ [word_of_int ?c] in if ?c = 10 \<or> ?c = 4 \<or> length r + length l = INPUT_BUF then (r @ l, []) else (r, l))"
      using 4 unfolding key_def b w [symmetric] by (simp add: Let_def)
    have e: "consoleintr_char c s = (let y = put_input (word_of_int ?c) ?x in bnd (consputc ?c (s\<lparr>input_st := y\<rparr>)) (\<lambda>s.
              if ?c = 10 \<or> ?c = ctrl 0x44 \<or> in_e y = in_r y + of_nat INPUT_BUF then
                bnd (wakeup InputChan (s\<lparr>input_st := y\<lparr>in_w := in_e y\<rparr>\<rparr>)) (\<lambda>s. Ok (False, s))
              else Ok (False, s)))"
      using 4 rm(1) unfolding consoleintr_char_def C Let_def by auto
    have "\<exists>t. consoleintr_char c s = Ok (False, t) \<and> cons_ok t \<and> input_ok (input_st t) \<and> lines (input_st t) = key c (lines ?x)"
      unfolding e x k Let_def
      by (rule consoleintr_put [OF assms(1,2) c refl rm(2) refl, unfolded x fst_conv snd_conv Let_def])
    then show ?thesis by blast
  next
    case 5
    then have "\<not> (c \<noteq> 0 \<and> in_e ?x - in_r ?x < of_nat INPUT_BUF)" by (auto simp: room_iff x simp del: lines_length)
    moreover have "key c (r, l) = (r, l)" using 5 by (auto simp: key_def)
    ultimately show ?thesis using 5 assms x by (auto simp: consoleintr_char_def C Let_def)
  qed
qed

lemma consoleintr_lines:
  assumes "cons_ok s" "input_ok (input_st s)" "\<forall>c\<in>set cs. 0 \<le> c \<and> c < 256"
  shows "\<exists>d t. consoleintr cs s = Ok (d, t) \<and> cons_ok t \<and> input_ok (input_st t) \<and> lines (input_st t) = fold key cs (lines (input_st s))"
  using assms
proof (induction cs arbitrary: s)
  case (Cons c cs)
  then obtain d t where t: "consoleintr_char c s = Ok (d, t)" "cons_ok t" "input_ok (input_st t)" "lines (input_st t) = key c (lines (input_st s))"
    using consoleintr_char_lines [of s c] by auto
  with Cons.IH [of t] Cons.prems(3) show ?case by fastforce
qed auto

section \<open>Reading\<close>

lemma get_lines:
  assumes "input_ok x" "fst (lines x) = b # r"
  defines "y \<equiv> x\<lparr>in_r := in_r x + 1\<rparr>"
  shows "in_at x (in_r x) = b \<and> input_ok y \<and> lines y = (r, snd (lines x))"
proof -
  have k: "unat (in_w x - in_r x) \<noteq> 0" using assms(2) by (intro notI) (simp add: lines_def Let_def)
  then have w: "in_w x \<noteq> in_r x" by auto
  obtain bs where t: "typed x = b # bs" using assms(2) k by (cases "typed x") (auto simp: lines_def Let_def take_Cons')
  have y: "y = snd (get_input x)" by (simp add: y_def get_input_def)
  have g: "in_at x (in_r x) = b" "ring_ok y" "typed y = bs"
    using get_input_law [OF _ t] assms(1) by (auto simp: y get_input_def input_ok_def)
  have n: "unat (in_w x - in_r x) = Suc (unat (in_w y - in_r y))" using cring_get(1) [OF INPUT_BUF_counter(1) w] by (simp add: y_def)
  have l: "lines y = (r, snd (lines x))" using assms(2) t n g(3) by (simp add: lines_def Let_def)
  have "unat (in_e x - in_r x) = Suc (unat (in_e y - in_r y))" using length_typed [of x] length_typed [of y] t g(3) by simp
  then show ?thesis using g l n assms(1) by (simp add: input_ok_def)
qed

lemma ready_empty: 
  assumes "input_ok x"
  shows "in_r x = in_w x \<longleftrightarrow> fst (lines x) = []"
proof -
  have "in_r x = in_w x \<longleftrightarrow> unat (in_w x - in_r x) = 0" by (auto simp: unsigned_eq_0_iff)
  also have "\<dots> \<longleftrightarrow> fst (lines x) = []" using assms by (auto simp: lines_def Let_def input_ok_def simp flip: length_0_conv)
  finally show ?thesis .
qed

text \<open>The loop when it has \<open>n\<close> of \<open>target\<close> bytes to go: a \<open>C('D')\<close> is left for the next read unless it is the first byte.\<close>

fun read_from :: "nat \<Rightarrow> nat \<Rightarrow> byte list \<Rightarrow> (byte list \<times> bool) \<times> byte list" where
  "read_from target 0 r = (([], False), r)"
| "read_from target (Suc n) [] = (([], True), [])"
| "read_from target (Suc n) (c # r) =
     (if c = 4 then (([], False), if Suc n < target then c # r else r)
      else if c = 10 then (([c], False), r)
      else let ((bs, w), r) = read_from target n r in ((c # bs, w), r))"

lemma consoleread_loop_lines:
  assumes "input_ok x"
  shows "\<exists>y. consoleread_loop target n x = (fst (read_from target n (fst (lines x))), y) \<and> input_ok y \<and>
    lines y = (snd (read_from target n (fst (lines x))), snd (lines x))"
  using assms
proof (induction n arbitrary: x)
  case (Suc n)
  show ?case
  proof (cases "fst (lines x)")
    case Nil
    then show ?thesis using Suc.prems ready_empty [OF Suc.prems] by (cases "lines x") simp
  next
    case (Cons b r)
    let ?y = "x\<lparr>in_r := in_r x + 1\<rparr>"
    note g = get_lines [OF Suc.prems Cons]
    have x: "lines x = (b # r, snd (lines x))" using Cons by (metis prod.collapse)
    have ne: "in_r x \<noteq> in_w x" using ready_empty [OF Suc.prems] Cons by simp
    have d: "uint b = ctrl 0x44 \<longleftrightarrow> b = 4" by (simp add: ctrl_def word_uint_eq_iff)
    obtain z where "consoleread_loop target n ?y = (fst (read_from target n r), z)" "input_ok z"
      "lines z = (snd (read_from target n r), snd (lines x))" using Suc.IH [of ?y] g by auto
    then show ?thesis using g ne Suc.prems Cons x d by (auto simp: Let_def split: prod.split)
  qed
qed (metis consoleread_loop.simps(1) read_from.simps(1) fst_conv snd_conv prod.collapse)

lemma read_from_ready: "n \<le> target \<Longrightarrow> read_from target n r =
     (let p = takeWhile (\<lambda>c. c \<noteq> 10 \<and> c \<noteq> 4) r; k = length p
      in if n \<le> k then ((take n r, False), drop n r)
         else if k = length r then ((r, True), [])
         else if r ! k = 10 then ((take (k + 1) r, False), drop (k + 1) r)
         else ((p, False), if n - k = target then drop (k + 1) r else drop k r))"
  by (induction target n r rule: read_from.induct) (auto simp: Let_def)


lemma read_ready_from: "read_from n n r = read_ready n r"
proof -
  let ?k = "length (takeWhile (\<lambda>c. c \<noteq> 10 \<and> c \<noteq> 4) r)"
  have "\<not> n \<le> ?k \<Longrightarrow> n - ?k = n \<longleftrightarrow> ?k = 0" by arith
  then show ?thesis unfolding read_from_ready [OF order_refl] read_ready_def Let_def by auto
qed

section \<open>The console implements the line discipline\<close>

text \<open>
  C7.  Whatever is typed, the interrupt handler of the console returns, and its ring buffer of 128 bytes with the three wrapping
  counters behaves as the pair of lists of the abstract line discipline: every key acts as \<open>key\<close>
  says (editing affects the unfinished line only), and a read of at most \<open>n\<close> bytes takes what \<open>read_ready\<close> says
  and leaves the line that is being edited alone.
\<close>

theorem console_line_discipline:
  assumes "cons_ok s" "input_ok (input_st s)" "\<forall>c\<in>set cs. 0 \<le> c \<and> c < 256"
  shows "\<exists>d t. consoleintr cs s = Ok (d, t) \<and> input_ok (input_st t) \<and>
    lines (input_st t) = fold key cs (lines (input_st s)) \<and>
    (\<forall>n. \<exists>x. consoleread_loop n n (input_st t) = (fst (read_ready n (fst (lines (input_st t)))), x) \<and> input_ok x \<and>
      lines x = (snd (read_ready n (fst (lines (input_st t)))), snd (lines (input_st t))))"
  using consoleintr_lines [OF assms] consoleread_loop_lines [of _ _] by (metis read_ready_from)

text \<open>Typing \<open>ab\<close>, backspace, \<open>c\<close>, return and \<open>d\<close> lets a reader take the line \<open>ac\<close>.\<close>

definition fresh_input :: input where
  "fresh_input = \<lparr>in_buf = replicate 128 0, in_r = 0, in_w = 0, in_e = 0\<rparr>"

definition fresh_console :: cons_st where
  "fresh_console = (sample_file \<lparr>xems = (\<lambda>_. fresh_xem), readers = (\<lambda>_. 0), ticks = 0, panicked = False, uart_out = [],
     cga_st = \<lparr>crt = [], cga_pos = 0\<rparr>, input_st = fresh_input\<rparr>)
     \<lparr>panicked := False, cga_st := \<lparr>crt = replicate 2000 0, cga_pos = 0\<rparr>, input_st := fresh_input\<rparr>"

theorem console_line_discipline_witness:
  "\<exists>d t x. consoleintr [97, 98, 8, 99, 13, 100] fresh_console = Ok (d, t) \<and>
    consoleread_loop 10 10 (input_st t) = (([97, 99, 10], False), x) \<and> lines x = ([], [100])"
proof -
  let ?cs = "[97, 98, 8, 99, 13, 100] :: int list"
  have s: "cons_ok fresh_console" by (simp add: fresh_console_def cons_ok_def sample_file_sel)
  have i: "input_st fresh_console = fresh_input" by (simp add: fresh_console_def)
  have l: "lines (input_st fresh_console) = ([], [])" unfolding i by (simp add: fresh_input_def lines_def typed_def cring_def)
  have "input_ok (input_st fresh_console)" unfolding input_ok_def l by (simp add: i fresh_input_def ring_ok_def INPUT_BUF_def)
  moreover have "\<forall>c\<in>set ?cs. 0 \<le> c \<and> c < 256" by simp
  ultimately obtain d t where t: "consoleintr ?cs fresh_console = Ok (d, t)" "lines (input_st t) = fold key ?cs ([], [])"
      "\<exists>x. consoleread_loop 10 10 (input_st t) = (fst (read_ready 10 (fst (lines (input_st t)))), x) \<and>
        lines x = (snd (read_ready 10 (fst (lines (input_st t)))), snd (lines (input_st t)))"
    using console_line_discipline [OF s, of ?cs] unfolding l by blast
  have "fold key ?cs ([], []) = ([97, 99, 10], [100])" by (simp add: key_def INPUT_BUF_def Let_def)
  moreover have "read_ready 10 [97, 99, 10] = (([97, 99, 10], False), [])" by (simp add: read_ready_def Let_def)
  ultimately have "\<exists>x. consoleread_loop 10 10 (input_st t) = (([97, 99, 10], False), x) \<and> lines x = ([], [100])"
    using t(3) unfolding t(2) by (simp only: fst_conv snd_conv)
  with t(1) show ?thesis by blast
qed

end
