(* ===== verification/Spec2Isabelle.thy ===== *)
theory Spec2Isabelle
  imports Sh Umalloc Textprog Mp Consline
begin

text \<open>
  A model of the xv6 kernel of src/xv6-public (the teaching kernel for x86, extended with
  stride scheduling bookkeeping, threads, semaphores and readers-writer locks, double and triple
  indirect blocks, and \<^verbatim>\<open>pread\<close>/\<^verbatim>\<open>pwrite\<close>) and of parts of its user library, with the theorems that
  make its components correct.

  \<^bold>\<open>The program and its parts.\<close>  A trap (\<^verbatim>\<open>trap.c\<close>) enters the kernel for a system call or an
  interrupt.  System calls (\<^verbatim>\<open>syscall.c\<close>, \<^verbatim>\<open>sysproc.c\<close>, \<^verbatim>\<open>sysfile.c\<close>) fetch their arguments through
  the page table of the process (\<^verbatim>\<open>vm.c\<close>, pages from \<^verbatim>\<open>kalloc.c\<close>) and act on processes and threads
  (\<^verbatim>\<open>proc.c\<close>, \<^verbatim>\<open>exec.c\<close>) or on files (\<^verbatim>\<open>file.c\<close>, \<^verbatim>\<open>pipe.c\<close>).  Files are inodes (\<^verbatim>\<open>fs.c\<close>) whose blocks
  are changed inside transactions of the log (\<^verbatim>\<open>log.c\<close>), over the buffer cache (\<^verbatim>\<open>bio.c\<close>) and
  the disk driver (\<^verbatim>\<open>ide.c\<close>).  Processes wait for each other with sleep locks (\<^verbatim>\<open>sleeplock.c\<close>) and
  semaphores, CPUs with spin locks (\<^verbatim>\<open>spinlock.c\<close>).

  \<^bold>\<open>How the code is modelled.\<close>  A routine is a function from the state to a value of type \<open>res\<close>
  (theory Base): it returns (\<open>Ok\<close>), calls \<open>panic\<close> (\<open>Panic\<close>), does what C or the hardware leave undefined
  (\<open>Fault\<close>), waits for another process (\<open>Sleeps\<close>), or spins on a lock (\<open>Spins\<close>).  The state is a chain of
  extensible records, one per layer: \<open>kmem_st\<close> (memory and free list), \<open>vm_st\<close>, \<open>proc_st\<close>, \<open>bio_st\<close>,
  \<open>log_st\<close>, \<open>fs_st\<close>, \<open>file_st\<close>, \<open>sem_st\<close>, \<open>tick_st\<close>, \<open>cons_st\<close>; a routine is polymorphic in the layers
  above its own.  \<open>memory\<close> maps 32-bit addresses to bytes and holds the free list, page tables, trap frames,
  kernel stacks and user pages, as in the kernel.  Pointers into the kernel's tables (processes, buffers,
  inodes, files) are indices.  Unsigned C integers are 32-bit words or natural numbers with the
  wrap-around written out (\<open>inc32\<close>, \<open>add32\<close>); signed counters that the code never brings near the
  limits (pids, tids, queue counters) are integers, so that theorems about them speak of fewer than
  \<open>2 ^ 31\<close> increments.  A spin lock that is taken and released around a routine on one CPU is elided, except
  for the lock of the process table, whose discipline (never taken twice, held at a switch) is part of the code's
  guards, and in Spinlock, which models the locks themselves on several CPUs.

  \<^bold>\<open>Theories.\<close>
  \<^item> Base: \<open>res\<close>, loops over lists, counters.  Bytes: little-endian numbers in byte lists and in memory.  Fifo:
    ring buffers and the interface \<open>fifo\<close>.
  \<^item> Strings (\<^verbatim>\<open>string.c\<close>): copying, filling and comparing memory; overlapping areas, both paths of \<open>memset\<close>.
  \<^item> Kalloc (\<^verbatim>\<open>kalloc.c\<close>): the free list as a chain of pages; the interface \<open>page_pool\<close> and its
    interpretation; distinct pages, \<open>kfree\<close>/\<open>kalloc\<close>, \<open>freerange\<close>.
  \<^item> Spinlock (\<^verbatim>\<open>spinlock.c\<close>): nesting of interrupt disabling; mutual exclusion for the relation
    \<open>lock_step\<close>, which interleaves the steps of \<open>acquire\<close> and \<open>release\<close> on all CPUs.
  \<^item> Vm (\<^verbatim>\<open>vm.c\<close>): page tables; what \<open>mappages\<close> maps and leaves alone.  Vmframe: all these routines change
    memory and the free list only.
  \<^item> Proc (\<^verbatim>\<open>proc.c\<close>, first part): the process table, the scheduler that runs (round robin; its progress),
    \<open>sleep\<close>, \<open>wakeup\<close>, \<open>kill\<close>, CPU shares.
  \<^item> Bio (\<^verbatim>\<open>bio.c\<close>, \<^verbatim>\<open>ide.c\<close>, \<^verbatim>\<open>sleeplock.c\<close>): the cache invariant; the interface \<open>buffer_cache\<close> (a cache is a
    function from block numbers to contents) and its interpretation.
  \<^item> Log (\<^verbatim>\<open>log.c\<close>): the writes of \<open>commit\<close> and of recovery; atomicity of \<open>commit\<close> at every crash point; the
    interface \<open>transaction\<close> and its interpretation.
  \<^item> Fs, Fdata, Dir (\<^verbatim>\<open>fs.c\<close>): block bitmap, inode cache, \<open>bmap\<close>, reading and writing of files, directories and
    paths.
  \<^item> File (\<^verbatim>\<open>file.c\<close>, \<^verbatim>\<open>pipe.c\<close>): open files; pipes as streams under all interleavings.
  \<^item> Process (\<^verbatim>\<open>proc.c\<close>, second part): \<open>fork\<close>, \<open>exit\<close>, \<open>wait\<close> and threads; the process table stays well
    typed and its pids distinct under all sequences of operations (\<open>proc_op\<close>).
  \<^item> Sysargs, Exec, Sysfile, Syscall (\<^verbatim>\<open>syscall.c\<close>, \<^verbatim>\<open>exec.c\<close>, \<^verbatim>\<open>sysfile.c\<close>, \<^verbatim>\<open>sysproc.c\<close>, \<^verbatim>\<open>trap.c\<close>): system
    calls and traps; accepted arguments lie in the memory of the process.
  \<^item> Sem (\<^verbatim>\<open>proc.c\<close>, third part): semaphores, readers-writer locks, the integer queue (a \<open>fifo\<close>); mutual exclusion
    for the relation \<open>sem_step\<close>, and the wake-up that a killed waiter loses.
  \<^item> Console, Consline (\<^verbatim>\<open>console.c\<close>): output and the input line; the input ring (a \<open>fifo\<close>) implements an abstract line
    discipline.  Ulib (\<^verbatim>\<open>ulib.c\<close>, \<^verbatim>\<open>printf.c\<close>, the matcher of \<^verbatim>\<open>grep.c\<close>).
  \<^item> Sh (\<^verbatim>\<open>sh.c\<close>): the command parser of the shell; it ends on every line and inverts the printer of
    commands.
  \<^item> Umalloc (\<^verbatim>\<open>umalloc.c\<close>): the allocator of user programs over the header fields in memory; its blocks never overlap,
    its loops end, and its size computation overflows.
  \<^item> Textprog (\<^verbatim>\<open>cat.c\<close>, \<^verbatim>\<open>wc.c\<close>, \<^verbatim>\<open>grep.c\<close>): the loops that read a file piece by piece.
  \<^item> Mp (\<^verbatim>\<open>mp.c\<close>): the processors of the configuration table in BIOS memory.

  \<^bold>\<open>What the theorems show.\<close>  The properties are numbered C1 to C40 in the text before each.  They cover crash
  atomicity and recovery of the log (C1 and Log), the refinement of the disk by the cache (Bio), round trips of file contents,
  inodes, pages and numbers, mutual exclusion of spin locks and semaphores, the safety of the user allocator, the stream behaviour of pipes, the
  type and the invariants of the process table, the inode cache and the reference counts, bounds of system call arguments, progress of
  the scheduler, and the equivalence of the path splitter and the pattern matcher with declarative
  definitions, and that parsing inverts printing for shell commands.  Some state where the code fails: \<open>set_cpu_share(0)\<close> divides by zero, block numbers in the
  triple indirect range fault, reading a hole panics, \<open>wait\<close> frees slots of other processes, a killed
  waiter loses a wake-up, \<open>malloc\<close> of nearly \<open>2 ^ 32\<close> bytes returns an empty block, \<open>grep\<close> loses pieces of lines, and \<open>mpinit\<close>
  never returns on an unknown entry.

  \<^bold>\<open>Bounds and fuel.\<close>  Loops over tables recurse over the indices of the table; loops over addresses and file
  offsets have termination proofs or a step count that is computed from the size of the range, as the lemmas on them show.
  \<open>iderw\<close> takes the interrupts of the requests queued before its own, whose number is the length of the queue.
  The recursive parser of the shell counts its depth down from four per byte of the line, which \<open>parsers_good\<close> shows to be
  enough.  The loops of \<^verbatim>\<open>umalloc.c\<close> and \<^verbatim>\<open>mp.c\<close> follow
  pointers and are partial functions, shown to return or not to return.  A call that waits is cut where it goes to sleep, and what follows the wake-up is a function of its own, so
  that no fuel stands for waiting.

  \<^bold>\<open>Not modelled.\<close>  The assembly code and \<^verbatim>\<open>main.c\<close>, the interrupt controllers and the timer
  (\<^verbatim>\<open>lapic.c\<close>, \<^verbatim>\<open>ioapic.c\<close>, \<^verbatim>\<open>picirq.c\<close>), keyboard and serial line (\<^verbatim>\<open>kbd.c\<close>, \<^verbatim>\<open>uart.c\<close>), whose effects are
  on device registers; the loading of constant descriptor tables (\<open>seginit\<close>, \<open>tvinit\<close>, \<open>idtinit\<close>); the
  debugging output of \<open>procdump\<close>; \<^verbatim>\<open>memide.c\<close>, which replaces \<^verbatim>\<open>ide.c\<close> in a build without a disk; \<^verbatim>\<open>mkfs.c\<close>, the execution
  of shell commands, the other small user programs and the tests.  Code that runs on two CPUs at once is
  modelled for the spin locks only; the other components are modelled between their
  points of waiting, where the locks of the source make them atomic.
\<close>

end
